(* ===== verification/Prelude.thy ===== *)
theory Prelude
  imports Main "HOL-Library.Word"
begin

text \<open>
  Shared vocabulary of the development: the machine integers of the Rust sources as words,
  the overflow rule of Rust's \<open>+\<close>, big-endian byte codecs, consecutive sequence numbers,
  and the collections of facts the component theories extend.
\<close>

unbundle bit_operations_syntax

named_theorems codec_simps \<open>byte-level encoders and decoders\<close>
named_theorems store_simps \<open>laws of the stores a component reads and writes\<close>
named_theorems step_defs \<open>definitions of the handlers, for case analysis\<close>

section \<open>Machine integers\<close>

type_synonym u8 = "8 word"
type_synonym u16 = "16 word"
type_synonym u32 = "32 word"
type_synonym u64 = "64 word"
type_synonym u128 = "128 word"

text \<open>
  Rust's \<open>a + b\<close> on unsigned integers panics on overflow when the build has overflow checks
  (\<open>oc\<close>: the debug profile) and wraps otherwise (the release profile); \<open>None\<close> is the panic.
  The atomics' \<open>fetch_add\<close> wraps in every profile and is plain \<open>+\<close> on words.
\<close>

definition plus_oc :: "bool \<Rightarrow> 'a::len word \<Rightarrow> 'a word \<Rightarrow> 'a word option" where
  "plus_oc oc a b = (if oc \<and> 2 ^ LENGTH('a) \<le> unat a + unat b then None else Some (a + b))"

lemma plus_oc_release [simp]: "plus_oc False a b = Some (a + b)"
  by (simp add: plus_oc_def)

lemma plus_oc_Some: "plus_oc oc a b = Some c \<Longrightarrow> c = a + b"
  by (auto simp: plus_oc_def split: if_splits)

lemma plus_oc_inc_None:
  "plus_oc oc a 1 = None \<longleftrightarrow> oc \<and> a = (- 1 :: 'a::len word)"
proof -
  have "2 ^ LENGTH('a) \<le> unat a + 1 \<longleftrightarrow> a = - 1"
  proof
    assume "2 ^ LENGTH('a) \<le> unat a + 1"
    moreover have "unat a < 2 ^ LENGTH('a)" by (rule unsigned_less)
    ultimately have "unat a = 2 ^ LENGTH('a) - 1" by linarith
    also have "\<dots> = unat (- 1 :: 'a word)" by (simp add: unsigned_minus_1_eq_mask mask_eq_exp_minus_1)
    finally show "a = - 1" by (simp only: word_unat_eq_iff)
  next
    assume "a = - 1"
    then show "2 ^ LENGTH('a) \<le> unat a + 1" by (simp add: unsigned_minus_1_eq_mask mask_eq_exp_minus_1)
  qed
  then show ?thesis by (auto simp: plus_oc_def)
qed

lemma unat_inc:
  assumes "a \<noteq> (- 1 :: 'a::len word)"
  shows "unat (a + 1) = unat a + 1"
proof -
  have "plus_oc True a 1 \<noteq> None"
    using assms by (simp add: plus_oc_inc_None)
  then have "unat a + unat (1 :: 'a word) < 2 ^ LENGTH('a)"
    by (simp add: plus_oc_def split: if_splits)
  then show ?thesis by (simp add: unat_add_lem [THEN iffD1])
qed

lemma unat_inc_lt: "unat n + 1 < 2 ^ LENGTH('a) \<Longrightarrow> unat (n + 1 :: 'a::len word) = unat n + 1"
  by (simp add: unat_add_lem [THEN iffD1])

lemma unat_inc_le: "unat (n + 1 :: 'a::len word) \<le> Suc (unat n)"
  by (cases "unat n + 1 < 2 ^ LENGTH('a)") (simp_all add: unat_inc_lt unat_word_ariths)

lemma sint_of_small:
  assumes "unat n < 2 ^ 31"
  shows "sint (n :: 32 word) = int (unat n)"
proof -
  have "uint n = int (unat n)" by simp
  moreover have "int (unat n) < 2 ^ 31"
    using assms by (metis of_nat_less_iff of_nat_numeral of_nat_power)
  moreover have "sint n = signed_take_bit 31 (uint n)" by (simp add: sint_uint)
  ultimately show ?thesis by (simp only: signed_take_bit_int_eq_self of_nat_0_le_iff)
qed

lemma word_less_inc: "a \<noteq> (- 1 :: 'a::len word) \<Longrightarrow> a < a + 1"
  by (simp add: word_less_nat_alt unat_inc)

lemma word_gt_inc_le: "(a :: 'a::len word) < b \<Longrightarrow> a + 1 \<le> b"
  by (rule inc_le)

lemma word_less_inc_iff:
  assumes "a \<noteq> (- 1 :: 'a::len word)"
  shows "b < a + 1 \<longleftrightarrow> b < a \<or> b = a"
proof (cases a b rule: linorder_cases)
  case less
  with word_gt_inc_le [OF less] show ?thesis by auto
next
  case greater
  with word_less_inc [OF assms] show ?thesis by auto
qed (use word_less_inc [OF assms] in simp)

lemma word_max_not_less [simp]: "\<not> (- 1 :: 'a::len word) < b"
  by (simp add: not_less)

section \<open>Big-endian bytes\<close>

definition be16 :: "u16 \<Rightarrow> u8 list" where
  "be16 w = [ucast (drop_bit 8 w), ucast w]"

definition of_be16 :: "u8 \<Rightarrow> u8 \<Rightarrow> u16" where
  "of_be16 a b = push_bit 8 (ucast a) OR ucast b"

definition be32 :: "u32 \<Rightarrow> u8 list" where
  "be32 w = [ucast (drop_bit 24 w), ucast (drop_bit 16 w), ucast (drop_bit 8 w), ucast w]"

definition of_be32 :: "u8 \<Rightarrow> u8 \<Rightarrow> u8 \<Rightarrow> u8 \<Rightarrow> u32" where
  "of_be32 a b c d =
     push_bit 24 (ucast a) OR push_bit 16 (ucast b) OR push_bit 8 (ucast c) OR ucast d"

lemma u8_no_high_bit [simp]: "8 \<le> n \<Longrightarrow> \<not> bit (b :: u8) n"
  using bit_imp_le_length [of b n] by auto

lemma u16_no_high_bit [simp]: "16 \<le> n \<Longrightarrow> \<not> bit (b :: u16) n"
  using bit_imp_le_length [of b n] by auto

lemma length_be32 [simp]: "length (be32 w) = 4"
  by (simp add: be32_def)

lemma of_be16_be16 [codec_simps]:
  "of_be16 (ucast (drop_bit 8 w)) (ucast w) = w"
  by (rule bit_word_eqI) (auto simp: of_be16_def bit_simps)

lemma of_be32_be32 [codec_simps]:
  "of_be32 (ucast (drop_bit 24 w)) (ucast (drop_bit 16 w)) (ucast (drop_bit 8 w)) (ucast w) = w"
proof (rule bit_word_eqI)
  fix n assume "n < LENGTH(32)"
  then consider "n < 8" | "8 \<le> n \<and> n < 16" | "16 \<le> n \<and> n < 24" | "24 \<le> n \<and> n < 32"
    by force
  then show "bit (of_be32 (ucast (drop_bit 24 w)) (ucast (drop_bit 16 w))
      (ucast (drop_bit 8 w)) (ucast w)) n \<longleftrightarrow> bit w n"
    by cases (auto simp: of_be32_def bit_simps)
qed

lemma be32_of_be32 [codec_simps]: "be32 (of_be32 a b c d) = [a, b, c, d]"
  by (auto simp: of_be32_def be32_def bit_simps intro!: bit_word_eqI)

lemma be16_of_be16 [codec_simps]: "be16 (of_be16 a b) = [a, b]"
  by (auto simp: of_be16_def be16_def bit_simps intro!: bit_word_eqI)

section \<open>Consecutive sequence numbers\<close>

definition seqs_from :: "u32 \<Rightarrow> nat \<Rightarrow> u32 list" where
  "seqs_from s n = map (\<lambda>i. s + of_nat i) [0..<n]"

lemma seqs_from_0 [simp]: "seqs_from s 0 = []"
  by (simp add: seqs_from_def)

lemma length_seqs_from [simp]: "length (seqs_from s n) = n"
  by (simp add: seqs_from_def)

lemma seqs_from_Suc: "seqs_from s (Suc n) = s # seqs_from (s + 1) n"
  by (simp add: seqs_from_def upt_conv_Cons map_Suc_upt [symmetric] add.assoc del: upt_Suc)

lemma seqs_from_snoc: "seqs_from s (Suc n) = seqs_from s n @ [s + of_nat n]"
  by (simp add: seqs_from_def)

lemma unat_of_nat_u32: "n < 2 ^ 32 \<Longrightarrow> unat (of_nat n :: u32) = n"
  by (simp add: unat_of_nat)

lemma of_nat_u32_inj: "a < 2 ^ 32 \<Longrightarrow> b < 2 ^ 32 \<Longrightarrow> (of_nat a :: u32) = of_nat b \<longleftrightarrow> a = b"
  by (metis unat_of_nat_u32)

lemma of_nat_Suc_u32_nonzero: "Suc n < 2 ^ 32 \<Longrightarrow> (of_nat (Suc n) :: u32) \<noteq> 0"
  using of_nat_u32_inj [of "Suc n" 0] by simp

lemma seqs_from_add: "seqs_from s (m + n) = seqs_from s m @ seqs_from (s + of_nat m) n"
  by (induction m arbitrary: s) (simp_all add: seqs_from_Suc add.assoc)

lemma nth_seqs_from: "i < n \<Longrightarrow> seqs_from s n ! i = s + of_nat i"
  by (simp add: seqs_from_def)

lemma seqs_from_no_wrap:
  assumes "- 1 \<notin> set (seqs_from s n)"
  shows "s \<le> s + of_nat n \<and> set (seqs_from s n) = {k. s \<le> k \<and> k < s + of_nat n}"
  using assms
proof (induction n)
  case 0
  then show ?case by auto
next
  case (Suc n)
  note snoc = seqs_from_snoc [of s n]
  with Suc have "s \<le> s + of_nat n" and s: "set (seqs_from s n) = {k. s \<le> k \<and> k < s + of_nat n}"
    and "s + of_nat n \<noteq> - 1" by auto
  then have lt: "s + of_nat n < s + of_nat (Suc n)"
    using word_less_inc [of "s + of_nat n"] by (simp add: add_ac)
  have "k < s + of_nat (Suc n) \<longleftrightarrow> k < s + of_nat n \<or> k = s + of_nat n" for k
    using word_less_inc_iff [OF \<open>s + of_nat n \<noteq> - 1\<close>] by (simp add: add_ac)
  moreover have "s \<le> s + of_nat (Suc n)"
    using \<open>s \<le> s + of_nat n\<close> lt by (rule order.trans [OF _ less_imp_le])
  ultimately show ?case
    using \<open>s \<le> s + of_nat n\<close> s by (auto simp: snoc)
qed

section \<open>Lists\<close>

lemma map_filter_same:
  "(\<And>x. x \<in> set xs \<Longrightarrow> f x = g x) \<Longrightarrow> List.map_filter f xs = List.map_filter g xs"
  by (induction xs) (auto split: option.splits)

lemma set_map_filter_Some: "set (List.map_filter f xs) = {y. \<exists>x\<in>set xs. f x = Some y}"
  by (induction xs) (auto split: option.splits)

section \<open>Results\<close>

text \<open>\<open>Inl\<close> is a panic, \<open>Inr\<close> a value; \<open>and_then\<close> runs the rest only on a value.\<close>

definition and_then :: "'e + 'a \<Rightarrow> ('a \<Rightarrow> 'e + 'b) \<Rightarrow> 'e + 'b" where
  "and_then r f = (case r of Inl e \<Rightarrow> Inl e | Inr x \<Rightarrow> f x)"

lemma and_then_simps [simp]: "and_then (Inl e) f = Inl e" "and_then (Inr x) f = f x"
  by (simp_all add: and_then_def)

lemma and_then_Inr: "and_then r f = Inr y \<longleftrightarrow> (\<exists>x. r = Inr x \<and> f x = Inr y)"
  by (cases r) auto

end
