(* ===== verification/SockAddr.thy ===== *)
theory SockAddr
  imports Prelude "HOL-Library.Product_Lexorder"
begin

text \<open>
  \<open>std::net::SocketAddr\<close> as the standard library has it: an IPv4 address (four octets, read
  here as one big-endian \<open>u32\<close>) with a port, or an IPv6 address (sixteen octets, one \<open>u128\<close>)
  with port, flow info and scope id. Its derived order (V4 before V6, then the fields in
  order) is an instance of \<open>linorder\<close>; the router compares addresses with it.
\<close>

datatype sockaddr =
    V4 (v4_ip: u32) (v4_port: u16)
  | V6 (v6_ip: u128) (v6_port: u16) (v6_flowinfo: u32) (v6_scope_id: u32)

type_synonym addr_key = "bool \<times> u128 \<times> u16 \<times> u32 \<times> u32"

fun addr_key :: "sockaddr \<Rightarrow> addr_key" where
  "addr_key (V4 i p) = (False, ucast i, p, 0, 0)"
| "addr_key (V6 i p f s) = (True, i, p, f, s)"

lemma ucast_u32_u128_inj: "(ucast (a :: u32) :: u128) = ucast b \<Longrightarrow> a = b"
  by (auto simp: bit_eq_iff [where 'a = u128] bit_simps intro!: bit_word_eqI)

lemma addr_key_inj: "addr_key a = addr_key b \<Longrightarrow> a = b"
  by (cases a; cases b) (auto dest: ucast_u32_u128_inj)

instantiation sockaddr :: linorder
begin

definition less_eq_sockaddr :: "sockaddr \<Rightarrow> sockaddr \<Rightarrow> bool" where
  "less_eq_sockaddr a b \<longleftrightarrow> addr_key a \<le> addr_key b"

definition less_sockaddr :: "sockaddr \<Rightarrow> sockaddr \<Rightarrow> bool" where
  "less_sockaddr a b \<longleftrightarrow> addr_key a < addr_key b"

instance
  by standard
    (auto simp: less_eq_sockaddr_def less_sockaddr_def less_le_not_le
      intro: order_trans addr_key_inj antisym)

end

text \<open>The value of \<open>"0.0.0.0:0".parse().unwrap()\<close>, the fallback address of the relay.\<close>

definition unspecified_addr :: sockaddr where
  "unspecified_addr = V4 0 0"

text \<open>IPv4 addresses from their octets, for concrete instances.\<close>

definition ip4 :: "u8 \<Rightarrow> u8 \<Rightarrow> u8 \<Rightarrow> u8 \<Rightarrow> u16 \<Rightarrow> sockaddr" where
  "ip4 a b c d p = V4 (of_be32 a b c d) p"

end
