(* ===== verification/Queues.thy ===== *)
theory Queues
  imports Prelude
begin

text \<open>
  The bounded queues between the threads of the relay: the single-producer queue of the
  \<open>heapless\<close> crate and the \<open>mpsc\<close> channels of \<open>tokio\<close>, neither of which is part of this
  repository. Their operations are a record the relay's definitions take as an argument; the
  promises of their documentation are the locale \<open>fifo\<close> (first in first out, a refused
  element leaves the queue alone) and, for a fixed capacity, \<open>bounded_fifo\<close>.
\<close>

record ('q, 'a) queue_ops =
  q_enqueue :: "'a \<Rightarrow> 'q \<Rightarrow> 'q \<times> bool"  \<comment> \<open>\<open>False\<close>: refused, the queue is full\<close>
  q_dequeue :: "'q \<Rightarrow> 'a option \<times> 'q"

locale fifo =
  fixes Q :: "('q, 'a) queue_ops"
    and contents :: "'q \<Rightarrow> 'a list"
  assumes enqueue_contents:
      "contents (fst (q_enqueue Q x q)) = (if snd (q_enqueue Q x q) then contents q @ [x] else contents q)"
    and dequeue_result: "fst (q_dequeue Q q) = (case contents q of [] \<Rightarrow> None | x # _ \<Rightarrow> Some x)"
    and dequeue_contents: "contents (snd (q_dequeue Q q)) = tl (contents q)"
begin

lemma dequeue_empty: "q_dequeue Q q = (None, q') \<Longrightarrow> contents q = [] \<and> contents q' = []"
  using dequeue_result [of q] dequeue_contents [of q] by (auto split: list.splits)

lemma dequeue_some: "q_dequeue Q q = (Some x, q') \<Longrightarrow> contents q = x # contents q'"
  using dequeue_result [of q] dequeue_contents [of q] by (auto split: list.splits)

lemma dequeue_cons: "contents q = x # xs \<Longrightarrow> \<exists>q'. q_dequeue Q q = (Some x, q') \<and> contents q' = xs"
  using dequeue_result [of q] dequeue_contents [of q] by (cases "q_dequeue Q q") auto

lemma enqueue_cases:
  obtains (accepted) q' where "q_enqueue Q x q = (q', True)" "contents q' = contents q @ [x]"
    | (refused) q' where "q_enqueue Q x q = (q', False)" "contents q' = contents q"
  using enqueue_contents [of x q] by (cases "q_enqueue Q x q"; cases "snd (q_enqueue Q x q)") auto

end

locale bounded_fifo = fifo +
  fixes capacity :: nat
  assumes accepts: "snd (q_enqueue Q x q) \<longleftrightarrow> length (contents q) < capacity"

section \<open>A queue that keeps the contract\<close>

definition list_queue :: "nat \<Rightarrow> ('a list, 'a) queue_ops" where
  "list_queue cap =
     \<lparr>q_enqueue = (\<lambda>x q. if length q < cap then (q @ [x], True) else (q, False)),
      q_dequeue = (\<lambda>q. case q of [] \<Rightarrow> (None, []) | x # xs \<Rightarrow> (Some x, xs))\<rparr>"

interpretation list_queue: bounded_fifo "list_queue cap" "\<lambda>q. q" cap
  by unfold_locales (auto simp: list_queue_def split: list.splits)

lemmas list_queue_fifo = list_queue.fifo_axioms

end
