(* ===== verification/TurnShard.thy ===== *)
theory TurnShard
  imports SockAddr Queues
begin

text \<open>
  The relay's sessions and shards (\<open>turn_server/src/lib.rs\<close>): a shard owns a table of sessions
  keyed by a random id, an index from endpoint addresses to ids, the consuming end of its
  message queue and a sender to the ring loop.
\<close>

section \<open>Sessions and packets\<close>

record Session =
  host_addr :: sockaddr
  peer_addr :: sockaddr

record RelayPacket =
  buf_idx :: u16
  len :: nat
  src :: sockaddr

datatype MessageType = AddSession Session | Transmit RelayPacket

text \<open>A request of a shard to the ring loop: destination, length, buffer.\<close>

type_synonym SqeType = "sockaddr \<times> nat \<times> u16"

definition route_to :: "Session \<Rightarrow> sockaddr \<Rightarrow> sockaddr option" where
  "route_to s a =
     (if a = host_addr s then Some (peer_addr s)
      else if a = peer_addr s then Some (host_addr s)
      else None)"

section \<open>The shard\<close>

text \<open>Session ids are UUIDs of the \<open>uuid\<close> crate, an arbitrary type \<open>'sid\<close> here; each
  \<open>Uuid::new_v4\<close> is an argument.\<close>

record 'sid Shard =
  shard_id :: nat
  session_table :: "'sid \<rightharpoonup> Session"
  session_id :: "sockaddr \<rightharpoonup> 'sid"

definition Shard_new :: "nat \<Rightarrow> 'sid Shard" where
  "Shard_new i = \<lparr>shard_id = i, session_table = Map.empty, session_id = Map.empty\<rparr>"

definition add_session :: "'sid \<Rightarrow> Session \<Rightarrow> 'sid Shard \<Rightarrow> 'sid Shard" where
  "add_session sid s sh =
     sh\<lparr>session_id := (session_id sh)(host_addr s \<mapsto> sid, peer_addr s \<mapsto> sid),
        session_table := (session_table sh)(sid \<mapsto> s)\<rparr>"

text \<open>\<open>None\<close>: nothing is sent to the ring loop.\<close>

definition handle_packet :: "'sid Shard \<Rightarrow> RelayPacket \<Rightarrow> SqeType option" where
  "handle_packet sh p =
     (case session_id sh (src p) of
        None \<Rightarrow> None
      | Some sid \<Rightarrow>
          (case session_table sh sid of
             None \<Rightarrow> None
           | Some s \<Rightarrow>
               (case route_to s (src p) of
                  None \<Rightarrow> None
                | Some dst \<Rightarrow> Some (dst, len p, buf_idx p))))"

text \<open>One message taken off the queue; \<open>sid\<close> is the id drawn if the message needs one.\<close>

fun shard_message :: "'sid \<Rightarrow> MessageType \<Rightarrow> 'sid Shard \<Rightarrow> 'sid Shard \<times> SqeType option" where
  "shard_message sid (AddSession s) sh = (add_session sid s sh, None)"
| "shard_message sid (Transmit p) sh = (sh, handle_packet sh p)"

text \<open>The panics the relay's code can reach.\<close>

datatype turn_panic =
    IndexOutOfBounds | RemainderByZero | UnwrapNone | ArithmeticOverflow | RegistrationFailed

text \<open>
  One turn of the loop of \<open>run\<close>: dequeue, handle, and \<open>try_send\<close> the request, whose refusal is
  only logged. An empty queue counts an idle turn, in an \<open>i32\<close> (\<open>oc\<close>: with overflow checks),
  and spins or, from 10000 on, sleeps 50 microseconds.
\<close>

datatype turn_end = Handled | SpinLoop | Sleep nat

type_synonym i32 = "32 word"  \<comment> \<open>read by \<open>sint\<close>\<close>

type_synonym ('sid, 'q, 'c) shard_thread = "'sid Shard \<times> 'q \<times> 'c \<times> i32"

definition shard_turn ::
  "('q, MessageType) queue_ops \<Rightarrow> ('c, SqeType) queue_ops \<Rightarrow> bool \<Rightarrow> 'sid
    \<Rightarrow> ('sid, 'q, 'c) shard_thread \<Rightarrow> turn_panic + ('sid, 'q, 'c) shard_thread \<times> turn_end"
where
  "shard_turn Q C oc sid st =
     (case st of (sh, q, c, idle_loops) \<Rightarrow>
        (case q_dequeue Q q of
           (Some msg, q') \<Rightarrow>
             (case shard_message sid msg sh of
                (sh', None) \<Rightarrow> Inr ((sh', q', c, 0), Handled)
              | (sh', Some sqe) \<Rightarrow> Inr ((sh', q', fst (q_enqueue C sqe c), 0), Handled))
         | (None, q') \<Rightarrow>
             (if oc \<and> sint idle_loops = 2 ^ 31 - 1 then Inl ArithmeticOverflow
              else Inr ((sh, q', c, idle_loops + 1),
                        if sint (idle_loops + 1) < 10000 then SpinLoop else Sleep 50000))))"

text \<open>\<open>run\<close> for as many turns as ids are given.\<close>

fun shard_run ::
  "('q, MessageType) queue_ops \<Rightarrow> ('c, SqeType) queue_ops \<Rightarrow> bool \<Rightarrow> 'sid list
    \<Rightarrow> ('sid, 'q, 'c) shard_thread \<Rightarrow> turn_panic + ('sid, 'q, 'c) shard_thread"
where
  "shard_run Q C oc [] st = Inr st"
| "shard_run Q C oc (sid # sids) st =
     and_then (shard_turn Q C oc sid st) (\<lambda>(st', _). shard_run Q C oc sids st')"

text \<open>
  \<open>run_n\<close>: stop after \<open>n\<close> transmitted packets or when five seconds have passed; each turn of the
  loop is given the time elapsed and an id.
\<close>

definition run_n_timeout :: nat where
  "run_n_timeout = 5000000000"

fun run_n ::
  "('q, MessageType) queue_ops \<Rightarrow> ('c, SqeType) queue_ops \<Rightarrow> nat \<Rightarrow> (nat \<times> 'sid) list
    \<Rightarrow> 'sid Shard \<times> 'q \<times> 'c \<Rightarrow> nat \<Rightarrow> ('sid Shard \<times> 'q \<times> 'c) \<times> nat"
where
  "run_n Q C n [] st finished = (st, finished)"
| "run_n Q C n ((elapsed, sid) # turns) (sh, q, c) finished =
     (if n \<le> finished \<or> run_n_timeout < elapsed then ((sh, q, c), finished)
      else case q_dequeue Q q of
             (Some (AddSession s), q') \<Rightarrow>
               run_n Q C n turns (add_session sid s sh, q', c) finished
           | (Some (Transmit p), q') \<Rightarrow>
               run_n Q C n turns
                 (sh, q', case handle_packet sh p of None \<Rightarrow> c | Some sqe \<Rightarrow> fst (q_enqueue C sqe c))
                 (finished + 1)
           | (None, q') \<Rightarrow> run_n Q C n turns (sh, q', c) finished)"

section \<open>The table a shard implements\<close>

text \<open>
  What a shard promises is a map from addresses to addresses: registering a session connects
  its two ends, and a packet goes to the address its source is connected to.
\<close>

definition connect :: "Session \<Rightarrow> (sockaddr \<rightharpoonup> sockaddr) \<Rightarrow> (sockaddr \<rightharpoonup> sockaddr)" where
  "connect s m = m(peer_addr s \<mapsto> host_addr s, host_addr s \<mapsto> peer_addr s)"

definition lookup_peer :: "'sid Shard \<Rightarrow> sockaddr \<rightharpoonup> sockaddr" where
  "lookup_peer sh a =
     Option.bind (session_id sh a) (\<lambda>sid. Option.bind (session_table sh sid) (\<lambda>s. route_to s a))"

fun forwarded :: "(sockaddr \<rightharpoonup> sockaddr) \<Rightarrow> MessageType list \<Rightarrow> SqeType list" where
  "forwarded m [] = []"
| "forwarded m (AddSession s # ms) = forwarded (connect s m) ms"
| "forwarded m (Transmit p # ms) =
     (case m (src p) of None \<Rightarrow> [] | Some d \<Rightarrow> [(d, len p, buf_idx p)]) @ forwarded m ms"

fun promised :: "(sockaddr \<rightharpoonup> sockaddr) \<Rightarrow> MessageType list \<Rightarrow> (sockaddr \<rightharpoonup> sockaddr)" where
  "promised m [] = m"
| "promised m (AddSession s # ms) = promised (connect s m) ms"
| "promised m (Transmit p # ms) = promised m ms"

lemma promised_append [simp]: "promised m (xs @ ys) = promised (promised m xs) ys"
  by (induction m xs rule: promised.induct) auto

lemma forwarded_append [simp]:
  "forwarded m (xs @ ys) = forwarded m xs @ forwarded (promised m xs) ys"
  by (induction m xs rule: forwarded.induct) auto

lemma lookup_peer_new [simp]: "lookup_peer (Shard_new i) = Map.empty"
  by (simp add: lookup_peer_def Shard_new_def fun_eq_iff)

lemma lookup_peer_add:
  assumes "sid \<notin> dom (session_table sh)"
  shows "lookup_peer (add_session sid s sh) = connect s (lookup_peer sh)"
proof (rule ext)
  fix a
  show "lookup_peer (add_session sid s sh) a = connect s (lookup_peer sh) a"
  proof (cases "a = host_addr s \<or> a = peer_addr s")
    case True
    then show ?thesis by (auto simp: lookup_peer_def add_session_def connect_def route_to_def)
  next
    case False
    with assms show ?thesis
      by (cases "session_id sh a")
        (auto simp: lookup_peer_def add_session_def connect_def route_to_def domIff)
  qed
qed

lemma dom_add_session [simp]:
  "dom (session_table (add_session sid s sh)) = insert sid (dom (session_table sh))"
  by (simp add: add_session_def)

lemma handle_packet_lookup:
  "handle_packet sh p = map_option (\<lambda>d. (d, len p, buf_idx p)) (lookup_peer sh (src p))"
  by (simp add: handle_packet_def lookup_peer_def split: option.split)

text \<open>Every indexed address belongs to the session its id names.\<close>

definition shard_inv :: "'sid Shard \<Rightarrow> bool" where
  "shard_inv sh \<longleftrightarrow>
     (\<forall>a sid. session_id sh a = Some sid \<longrightarrow>
       (\<exists>s. session_table sh sid = Some s \<and> a \<in> {host_addr s, peer_addr s}))"

lemma shard_inv_add:
  assumes "shard_inv sh" and "sid \<notin> dom (session_table sh)"
  shows "shard_inv (add_session sid s sh)"
  unfolding shard_inv_def
proof (intro allI impI)
  fix a sid' assume a: "session_id (add_session sid s sh) a = Some sid'"
  show "\<exists>s'. session_table (add_session sid s sh) sid' = Some s' \<and> a \<in> {host_addr s', peer_addr s'}"
  proof (cases "a \<in> {host_addr s, peer_addr s}")
    case True
    with a have "sid' = sid" by (auto simp: add_session_def split: if_splits)
    with True show ?thesis by (simp add: add_session_def)
  next
    case False
    with a have "session_id sh a = Some sid'" by (auto simp: add_session_def split: if_splits)
    with assms(1) obtain s' where s': "session_table sh sid' = Some s'"
      "a \<in> {host_addr s', peer_addr s'}" unfolding shard_inv_def by blast
    with assms(2) have "sid' \<noteq> sid" by auto
    with s' show ?thesis by (simp add: add_session_def)
  qed
qed

lemma shard_inv_routes:
  assumes "shard_inv sh" and "session_id sh a = Some sid"
  shows "\<exists>s d. session_table sh sid = Some s \<and> route_to s a = Some d \<and> lookup_peer sh a = Some d"
  using assms by (fastforce simp: shard_inv_def route_to_def lookup_peer_def)

section \<open>The thread implements the table\<close>

lemma shard_message_spec:
  assumes "shard_message sid msg sh = (sh', out)" and "sid \<notin> dom (session_table sh)"
  shows "lookup_peer sh' = promised (lookup_peer sh) [msg]
    \<and> (case out of None \<Rightarrow> [] | Some x \<Rightarrow> [x]) = forwarded (lookup_peer sh) [msg]
    \<and> dom (session_table sh') \<subseteq> insert sid (dom (session_table sh))
    \<and> (shard_inv sh \<longrightarrow> shard_inv sh')"
proof (cases msg)
  case (AddSession s)
  with assms(1) have "sh' = add_session sid s sh" "out = None" by auto
  with AddSession show ?thesis
    using lookup_peer_add [OF assms(2)] shard_inv_add [OF _ assms(2)]
    by (simp add: subset_insertI)
next
  case (Transmit p)
  with assms(1) show ?thesis by (auto simp: handle_packet_lookup split: option.splits)
qed

text \<open>The queue of a shard, and its channel to the ring loop with room for \<open>cap\<close> requests.\<close>

locale shard_queues = rx: fifo Q msgs + tx: bounded_fifo C sqes cap
  for Q :: "('q, MessageType) queue_ops" and msgs :: "'q \<Rightarrow> MessageType list"
    and C :: "('c, SqeType) queue_ops" and sqes :: "'c \<Rightarrow> SqeType list" and cap :: nat
begin

lemma send_room:
  assumes "length (sqes c) < cap"
  shows "sqes (fst (q_enqueue C x c)) = sqes c @ [x]"
  using tx.enqueue_contents [of x c] tx.accepts [of x c] assms by simp

lemma shard_turn_message:
  assumes q: "msgs q = msg # ms" and fresh: "sid \<notin> dom (session_table sh)"
    and room: "length (sqes c) < cap"
  shows "\<exists>sh' q' c'. shard_turn Q C oc sid (sh, q, c, n) = Inr ((sh', q', c', 0), Handled)
    \<and> msgs q' = ms \<and> sqes c' = sqes c @ forwarded (lookup_peer sh) [msg]
    \<and> lookup_peer sh' = promised (lookup_peer sh) [msg]
    \<and> dom (session_table sh') \<subseteq> insert sid (dom (session_table sh))
    \<and> (shard_inv sh \<longrightarrow> shard_inv sh')"
proof -
  from rx.dequeue_cons [OF q] obtain q' where d: "q_dequeue Q q = (Some msg, q')" "msgs q' = ms" by blast
  obtain sh' out where m: "shard_message sid msg sh = (sh', out)" by (cases "shard_message sid msg sh")
  from shard_message_spec [OF m fresh] d m send_room [OF room] show ?thesis
    by (cases out) (auto simp: shard_turn_def)
qed

text \<open>
  Given room in the channel and fresh ids, a shard that works through its queue emits exactly
  what the table it implements says.
\<close>

lemma shard_run_spec:
  assumes "msgs q = ms" and "length sids = length ms"
    and "distinct sids" and "set sids \<inter> dom (session_table sh) = {}"
    and "length (sqes c) + length ms \<le> cap"
  shows "\<exists>sh' q' c' n'. shard_run Q C oc sids (sh, q, c, n) = Inr (sh', q', c', n')
    \<and> msgs q' = [] \<and> sqes c' = sqes c @ forwarded (lookup_peer sh) ms
    \<and> lookup_peer sh' = promised (lookup_peer sh) ms
    \<and> (shard_inv sh \<longrightarrow> shard_inv sh')"
  using assms
proof (induction ms arbitrary: sids sh q c n)
  case Nil
  then show ?case by simp
next
  case (Cons msg ms)
  then obtain sid sids' where sids: "sids = sid # sids'" "length sids' = length ms"
    by (cases sids) auto
  with Cons.prems have fresh: "sid \<notin> dom (session_table sh)" and room: "length (sqes c) < cap" by auto
  from shard_turn_message [OF Cons.prems(1) fresh room, of oc n] obtain sh1 q1 c1
    where t: "shard_turn Q C oc sid (sh, q, c, n) = Inr ((sh1, q1, c1, 0), Handled)"
      and q1: "msgs q1 = ms" and c1: "sqes c1 = sqes c @ forwarded (lookup_peer sh) [msg]"
      and l1: "lookup_peer sh1 = promised (lookup_peer sh) [msg]"
      and d1: "dom (session_table sh1) \<subseteq> insert sid (dom (session_table sh))"
      and i1: "shard_inv sh \<longrightarrow> shard_inv sh1"
    by blast
  have "length (forwarded (lookup_peer sh) [msg]) \<le> 1"
    by (cases msg) (auto split: option.split)
  then have "length (sqes c1) + length ms \<le> cap" using Cons.prems(5) c1 by simp
  moreover have "set sids' \<inter> dom (session_table sh1) = {}" using Cons.prems d1 sids by auto
  ultimately obtain sh2 q2 c2 n2
    where r: "shard_run Q C oc sids' (sh1, q1, c1, 0) = Inr (sh2, q2, c2, n2)"
      and e: "msgs q2 = []" "sqes c2 = sqes c1 @ forwarded (lookup_peer sh1) ms"
        "lookup_peer sh2 = promised (lookup_peer sh1) ms" "shard_inv sh1 \<longrightarrow> shard_inv sh2"
    using Cons.IH [OF q1 sids(2), of sh1 c1 0] Cons.prems(3) sids by auto
  have "forwarded (lookup_peer sh) (msg # ms) =
      forwarded (lookup_peer sh) [msg] @ forwarded (promised (lookup_peer sh) [msg]) ms"
    using forwarded_append [of _ "[msg]" ms] by simp
  moreover have "promised (lookup_peer sh) (msg # ms) = promised (promised (lookup_peer sh) [msg]) ms"
    using promised_append [of _ "[msg]" ms] by simp
  ultimately show ?case using t r e i1 c1 l1 sids by auto
qed

end

interpretation list_shard: shard_queues "list_queue n" "\<lambda>q. q" "list_queue cap" "\<lambda>q. q" cap
  by unfold_locales

lemmas list_shard_queues = list_shard.shard_queues_axioms


section \<open>Who receives what\<close>

text \<open>
  A session table only holds sessions that were registered, under whatever ids: even colliding
  ids cannot send a packet to an address its source shares no session with.
\<close>

definition only_sessions :: "Session set \<Rightarrow> 'sid Shard \<Rightarrow> bool" where
  "only_sessions S sh \<longleftrightarrow> ran (session_table sh) \<subseteq> S"

definition partners :: "Session set \<Rightarrow> sockaddr \<Rightarrow> sockaddr \<Rightarrow> bool" where
  "partners S a d \<longleftrightarrow> (\<exists>s\<in>S. {a, d} = {host_addr s, peer_addr s})"

definition sessions_of :: "MessageType list \<Rightarrow> Session set" where
  "sessions_of ms = {s. AddSession s \<in> set ms}"

definition requests_of :: "Session set \<Rightarrow> MessageType list \<Rightarrow> SqeType set" where
  "requests_of S ms = {(d, len p, buf_idx p) |d p. Transmit p \<in> set ms \<and> partners S (src p) d}"

lemma route_to_partners: "route_to s a = Some d \<Longrightarrow> s \<in> S \<Longrightarrow> partners S a d"
  by (auto simp: route_to_def partners_def split: if_splits)

lemma requests_of_mono:
  "S \<subseteq> S' \<Longrightarrow> set ms \<subseteq> set ms' \<Longrightarrow> requests_of S ms \<subseteq> requests_of S' ms'"
  by (fastforce simp: requests_of_def partners_def)

lemma only_sessions_new [simp]: "only_sessions S (Shard_new i)"
  by (simp add: only_sessions_def Shard_new_def)

lemma shard_message_only_sessions:
  assumes "shard_message sid msg sh = (sh', out)" and "only_sessions S sh"
  shows "only_sessions (S \<union> sessions_of [msg]) sh'
    \<and> set_option out \<subseteq> requests_of (S \<union> sessions_of [msg]) [msg]"
proof (cases msg)
  case (AddSession s)
  with assms(1) have "sh' = add_session sid s sh" "out = None" by auto
  moreover from assms(2) have "ran ((session_table sh)(sid \<mapsto> s)) \<subseteq> insert s S"
    by (auto simp: only_sessions_def ran_def split: if_splits)
  ultimately show ?thesis
    using AddSession by (auto simp: only_sessions_def add_session_def sessions_of_def)
next
  case (Transmit p)
  with assms(1) have sh': "sh' = sh" and out: "handle_packet sh p = out" by auto
  have "x \<in> requests_of S [msg]" if "out = Some x" for x
  proof -
    from out that obtain sid s d where "session_table sh sid = Some s" "route_to s (src p) = Some d"
      and x: "x = (d, len p, buf_idx p)"
      by (auto simp: handle_packet_def split: option.splits)
    with assms(2) have "partners S (src p) d"
      by (auto simp: only_sessions_def intro: route_to_partners ranI)
    with x Transmit show ?thesis by (auto simp: requests_of_def)
  qed
  with requests_of_mono [of S "S \<union> sessions_of [msg]" "[msg]" "[msg]"] sh' assms(2) show ?thesis
    by (auto simp: only_sessions_def)
qed

lemma sessions_of_Cons: "sessions_of (m # ms) = sessions_of [m] \<union> sessions_of ms"
  by (auto simp: sessions_of_def)

context shard_queues
begin

lemma shard_turn_cases:
  assumes "shard_turn Q C oc sid (sh, q, c, n) = Inr ((sh', q', c', n'), e)"
  obtains (message) msg out where "msgs q = msg # msgs q'" "shard_message sid msg sh = (sh', out)"
      "c' = (case out of None \<Rightarrow> c | Some x \<Rightarrow> fst (q_enqueue C x c))" "n' = 0" "e = Handled"
    | (idle) "msgs q = []" "msgs q' = []" "sh' = sh" "c' = c" "n' = n + 1"
proof (cases "q_dequeue Q q")
  case (Pair m q1)
  show ?thesis
  proof (cases m)
    case None
    with Pair rx.dequeue_empty have "msgs q = []" "msgs q1 = []" by auto
    with assms Pair None show ?thesis by (intro idle) (auto simp: shard_turn_def split: if_splits)
  next
    case (Some msg)
    with Pair rx.dequeue_some have q: "msgs q = msg # msgs q1" by simp
    obtain sh1 out where sm: "shard_message sid msg sh = (sh1, out)" by (cases "shard_message sid msg sh")
    from assms Pair Some sm q show ?thesis
      by (intro message [of msg out]) (auto simp: shard_turn_def split: option.splits)
  qed
qed

lemma sqes_after_send:
  "set (sqes (case out of None \<Rightarrow> c | Some x \<Rightarrow> fst (q_enqueue C x c))) \<subseteq> set (sqes c) \<union> set_option out"
  using tx.enqueue_contents [of _ c] by (cases out) auto

lemma shard_run_only_sessions:
  assumes "shard_run Q C oc sids (sh, q, c, n) = Inr (sh', q', c', n')" and "only_sessions S sh"
  shows "set (sqes c') \<subseteq> set (sqes c) \<union> requests_of (S \<union> sessions_of (msgs q)) (msgs q)"
  using assms
proof (induction sids arbitrary: sh q c n S)
  case Nil
  then show ?case by simp
next
  case (Cons sid sids)
  then obtain sh1 q1 c1 n1 e where t: "shard_turn Q C oc sid (sh, q, c, n) = Inr ((sh1, q1, c1, n1), e)"
    and r: "shard_run Q C oc sids (sh1, q1, c1, n1) = Inr (sh', q', c', n')"
    by (auto simp: and_then_Inr)
  from t show ?case
  proof (cases rule: shard_turn_cases)
    case (message msg out)
    let ?S = "S \<union> sessions_of [msg]" and ?T = "S \<union> sessions_of (msgs q)"
    from shard_message_only_sessions [OF message(2) Cons.prems(2)]
    have S: "only_sessions ?S sh1" and o: "set_option out \<subseteq> requests_of ?S [msg]" by auto
    have ms: "msgs q = msg # msgs q1" using message(1) by simp
    have T: "sessions_of (msgs q) = sessions_of [msg] \<union> sessions_of (msgs q1)"
      using ms sessions_of_Cons [of msg "msgs q1"] by simp
    have sub: "?S \<subseteq> ?T" "?S \<union> sessions_of (msgs q1) \<subseteq> ?T" using T by blast+
    have tail: "set (msgs q1) \<subseteq> set (msgs q)" and hd: "set [msg] \<subseteq> set (msgs q)" using ms by auto
    have "set (sqes c') \<subseteq> set (sqes c1) \<union> requests_of (?S \<union> sessions_of (msgs q1)) (msgs q1)"
      by (rule Cons.IH [OF r S])
    moreover have "requests_of (?S \<union> sessions_of (msgs q1)) (msgs q1) \<subseteq> requests_of ?T (msgs q)"
      by (rule requests_of_mono [OF sub(2) tail])
    moreover have "set (sqes c1) \<subseteq> set (sqes c) \<union> set_option out"
      using sqes_after_send [where out = out and c = c] message(3) by simp
    moreover have "requests_of ?S [msg] \<subseteq> requests_of ?T (msgs q)"
      by (rule requests_of_mono [OF sub(1) hd])
    ultimately show ?thesis using o by blast
  next
    case idle
    with Cons.prems(2) have "only_sessions S sh1" by simp
    from Cons.IH [OF r this] idle show ?thesis by simp
  qed
qed

lemma idle_turn:
  assumes "msgs q = []"
  shows "\<exists>q'. msgs q' = [] \<and> q_dequeue Q q = (None, q')"
  using rx.dequeue_result [of q] rx.dequeue_contents [of q] assms
  by (cases "q_dequeue Q q") auto

lemma idle_run:
  assumes "msgs q = []" and "unat n + length sids < 2 ^ 31"
  shows "\<exists>q'. msgs q' = []
    \<and> shard_run Q C oc sids (sh, q, c, n) = Inr (sh, q', c, n + of_nat (length sids))"
  using assms
proof (induction sids arbitrary: q n)
  case Nil
  then show ?case by auto
next
  case (Cons sid sids)
  from idle_turn [OF Cons.prems(1)] obtain q1 where q1: "msgs q1 = []" "q_dequeue Q q = (None, q1)"
    by blast
  from Cons.prems(2) have lt: "unat n + 1 < 2 ^ 31" by simp
  then have n1: "unat (n + 1) = unat n + 1" by (intro unat_inc_lt) simp
  from lt have "sint n = int (unat n)" by (intro sint_of_small) simp
  moreover have "unat n < 2147483647" using lt by simp
  ultimately have "sint n \<noteq> 2147483647" by linarith
  then have "sint n \<noteq> 2 ^ 31 - 1" by simp
  with q1(2) obtain e where "shard_turn Q C oc sid (sh, q, c, n) = Inr ((sh, q1, c, n + 1), e)"
    by (auto simp: shard_turn_def)
  with Cons.IH [OF q1(1), of "n + 1"] Cons.prems(2) n1 show ?case by (auto simp: add_ac)
qed

end

section \<open>The bounded run\<close>

text \<open>The messages up to the \<open>n\<close>-th packet.\<close>

fun up_to_packets :: "nat \<Rightarrow> MessageType list \<Rightarrow> MessageType list" where
  "up_to_packets 0 ms = []"
| "up_to_packets n [] = []"
| "up_to_packets n (AddSession s # ms) = AddSession s # up_to_packets n ms"
| "up_to_packets (Suc n) (Transmit p # ms) = Transmit p # up_to_packets n ms"

fun packets_in :: "MessageType list \<Rightarrow> nat" where
  "packets_in [] = 0"
| "packets_in (AddSession s # ms) = packets_in ms"
| "packets_in (Transmit p # ms) = Suc (packets_in ms)"

lemma up_to_add: "0 < n \<Longrightarrow> up_to_packets n (AddSession s # ms) = AddSession s # up_to_packets n ms"
  by (cases n) simp_all

lemma up_to_replicate: "up_to_packets n (replicate m (Transmit p)) = replicate (min n m) (Transmit p)"
proof (induction n arbitrary: m)
  case (Suc n)
  then show ?case by (cases m) simp_all
qed simp

lemma packets_replicate: "packets_in (replicate n (Transmit p)) = n"
  by (induction n) simp_all

lemma forwarded_replicate:
  "m (src p) = Some d \<Longrightarrow> forwarded m (replicate n (Transmit p)) = replicate n (d, len p, buf_idx p)"
  by (induction n) simp_all

context shard_queues
begin

lemma run_n_spec:
  assumes "\<forall>x\<in>set turns. fst x \<le> run_n_timeout" and "late = [] \<or> run_n_timeout < fst (hd late)"
    and "distinct (map snd turns)" and "set (map snd turns) \<inter> dom (session_table sh) = {}"
    and "length (sqes c) + length (msgs q) \<le> cap" and "k \<le> n"
    and "ms = take (length turns) (up_to_packets (n - k) (msgs q))"
  shows "\<exists>sh' q' c'. run_n Q C n (turns @ late) (sh, q, c) k = ((sh', q', c'), k + packets_in ms)
    \<and> msgs q' = drop (length ms) (msgs q) \<and> sqes c' = sqes c @ forwarded (lookup_peer sh) ms
    \<and> lookup_peer sh' = promised (lookup_peer sh) ms"
  using assms
proof (induction turns arbitrary: sh q c k ms)
  case Nil
  then show ?case by (cases late) auto
next
  case (Cons turn turns)
  obtain t sid where turn: "turn = (t, sid)" by (cases turn)
  with Cons.prems have t: "\<not> run_n_timeout < t" and fresh: "sid \<notin> dom (session_table sh)"
    and fresh': "set (map snd turns) \<inter> insert sid (dom (session_table sh)) = {}" by auto
  show ?case
  proof (cases "n \<le> k")
    case True
    with Cons.prems(6,7) show ?thesis by (simp add: turn)
  next
    case False
    then obtain m where m: "n - k = Suc m" by (metis Suc_diff_Suc not_le)
    show ?thesis
    proof (cases "msgs q")
      case Nil
      from idle_turn [OF Nil] obtain q1 where q1: "msgs q1 = []" "q_dequeue Q q = (None, q1)" by blast
      with Cons.IH [of sh c q1 k "[]"] Cons.prems Nil m fresh' False t show ?thesis
        by (auto simp: turn)
    next
      case (Cons msg rest)
      from rx.dequeue_cons [OF Cons] obtain q1 where q1: "q_dequeue Q q = (Some msg, q1)" "msgs q1 = rest" by blast
      show ?thesis
      proof (cases msg)
        case (AddSession s)
        define ms1 where "ms1 = take (length turns) (up_to_packets (n - k) rest)"
        have ms: "ms = AddSession s # ms1" using Cons.prems(7) Cons AddSession m by (simp add: ms1_def)
        have "\<exists>sh' q' c'. run_n Q C n (turns @ late) (add_session sid s sh, q1, c) k = ((sh', q', c'), k + packets_in ms1)
            \<and> msgs q' = drop (length ms1) (msgs q1) \<and> sqes c' = sqes c @ forwarded (lookup_peer (add_session sid s sh)) ms1
            \<and> lookup_peer sh' = promised (lookup_peer (add_session sid s sh)) ms1"
          by (rule Cons.IH) (use Cons.prems fresh' q1 Cons in \<open>auto simp: ms1_def\<close>)
        with ms q1 t False AddSession Cons lookup_peer_add [OF fresh, of s] show ?thesis
          by (auto simp: turn)
      next
        case (Transmit p)
        define ms1 where "ms1 = take (length turns) (up_to_packets m rest)"
        define c1 where "c1 = (case handle_packet sh p of None \<Rightarrow> c | Some sqe \<Rightarrow> fst (q_enqueue C sqe c))"
        have c1: "sqes c1 = sqes c @ forwarded (lookup_peer sh) [Transmit p]"
          using Cons.prems(5) Cons send_room [of c]
          by (auto simp: c1_def handle_packet_lookup split: option.split)
        then have l1: "length (sqes c1) \<le> Suc (length (sqes c))" by (auto split: option.split)
        have m1: "n - (k + 1) = m" using m by simp
        have ms: "ms = Transmit p # ms1" using Cons.prems(7) Cons Transmit m by (simp add: ms1_def)
        have "\<exists>sh' q' c'. run_n Q C n (turns @ late) (sh, q1, c1) (k + 1) = ((sh', q', c'), k + 1 + packets_in ms1)
            \<and> msgs q' = drop (length ms1) (msgs q1) \<and> sqes c' = sqes c1 @ forwarded (lookup_peer sh) ms1
            \<and> lookup_peer sh' = promised (lookup_peer sh) ms1"
          by (rule Cons.IH) (use Cons.prems fresh' q1 Cons l1 False m1 in \<open>auto simp: ms1_def\<close>)
        with ms q1 t False Transmit Cons c1 show ?thesis by (auto simp: turn c1_def)
      qed
    qed
  qed
qed

end

section \<open>Properties of a shard\<close>

abbreviation example_host :: sockaddr where "example_host \<equiv> V4 0xC0A8012A 9001"
abbreviation example_client :: sockaddr where "example_client \<equiv> V4 0xC0A8012A 9002"
abbreviation example_stranger :: sockaddr where "example_stranger \<equiv> V4 0x08080808 53"

abbreviation example_session :: Session where
  "example_session \<equiv> \<lparr>host_addr = example_host, peer_addr = example_client\<rparr>"

abbreviation example_packet :: "u16 \<Rightarrow> sockaddr \<Rightarrow> RelayPacket" where
  "example_packet i a \<equiv> \<lparr>buf_idx = i, len = 100, src = a\<rparr>"

abbreviation example_msgs :: "MessageType list" where
  "example_msgs \<equiv>
     [Transmit (example_packet 7 example_client), AddSession example_session,
      Transmit (example_packet 8 example_host), Transmit (example_packet 9 example_stranger),
      Transmit (example_packet 10 example_client)]"

text \<open>Property C18: a shard that works through its queue implements the connection table: with
  fresh ids and room in its channel it emits, in order, exactly the requests of the packets
  whose source is connected at that point, to the address it is connected to, and ends with
  the table those messages promise. Packets of strangers, or ahead of their session, are
  dropped.\<close>

theorem shard_forwards:
  assumes "shard_queues Q msgs C sqes cap"
    and "length sids = length (msgs q)" and "distinct sids"
    and "length (sqes c) + length (msgs q) \<le> cap"
  shows "\<exists>sh q' c' n. shard_run Q C oc sids (Shard_new i, q, c, 0) = Inr (sh, q', c', n)
    \<and> msgs q' = [] \<and> sqes c' = sqes c @ forwarded Map.empty (msgs q)
    \<and> lookup_peer sh = promised Map.empty (msgs q) \<and> shard_inv sh"
proof -
  have "shard_inv (Shard_new i)" by (simp add: shard_inv_def Shard_new_def)
  moreover have "set sids \<inter> dom (session_table (Shard_new i)) = {}" by (simp add: Shard_new_def)
  ultimately show ?thesis
    using shard_queues.shard_run_spec [OF assms(1) refl assms(2,3) _ assms(4), of "Shard_new i" oc 0]
    by auto
qed

theorem shard_forwards_witness:
  "\<exists>sh q' c' n. shard_run (list_queue 1499) (list_queue 2048) True [0, 1, 2, 3, 4::nat]
      (Shard_new 0, example_msgs, [], 0) = Inr (sh, q', c', n)
    \<and> c' = [(example_client, 100, 8), (example_host, 100, 10)]"
  using shard_forwards [OF list_shard_queues [of 1499 2048],
      of "[0, 1, 2, 3, 4::nat]" example_msgs "[]" True 0]
  by (auto simp: connect_def)

text \<open>Whatever the ids, the room in the channel and the number of turns, a shard
  never sends a packet anywhere but to the other end of a session its source was registered
  in.\<close>

lemma shard_isolation:
  assumes "shard_queues Q msgs C sqes cap"
    and "shard_run Q C oc sids (Shard_new i, q, c, 0) = Inr (sh, q', c', n)"
  shows "set (sqes c') \<subseteq> set (sqes c) \<union> requests_of (sessions_of (msgs q)) (msgs q)"
  using shard_queues.shard_run_only_sessions [OF assms, of "{}"] by simp

text \<open>Property C21: the bounded run handles exactly the messages up to the \<open>n\<close>-th packet, or as many of
  them as it is given turns before the first that finds five seconds passed: it sends what the table
  those messages build up calls for, counts the packets, and leaves the rest in the queue.\<close>

theorem run_n_forwards:
  assumes "shard_queues Q msgs C sqes cap"
    and "\<forall>x\<in>set turns. fst x \<le> run_n_timeout" and "late = [] \<or> run_n_timeout < fst (hd late)"
    and "distinct (map snd turns)" and "length (sqes c) + length (msgs q) \<le> cap"
    and "ms = take (length turns) (up_to_packets n (msgs q))"
  shows "\<exists>sh q' c'. run_n Q C n (turns @ late) (Shard_new i, q, c) 0 = ((sh, q', c'), packets_in ms)
    \<and> msgs q' = drop (length ms) (msgs q) \<and> sqes c' = sqes c @ forwarded Map.empty ms
    \<and> lookup_peer sh = promised Map.empty ms"
  using shard_queues.run_n_spec [OF assms(1-4), of "Shard_new i" c q 0 n ms] assms(5,6)
  by (simp add: Shard_new_def [of i, THEN arg_cong [of _ _ session_table]])

text \<open>Ten packets and an eleventh that is left in the queue.\<close>

theorem run_n_forwards_witness:
  "\<exists>sh q' c'. run_n (list_queue 1499) (list_queue 2048) 10
      (zip (replicate 12 1000) [0..<12] @ [(6000000000, 12)])
      (Shard_new 0, AddSession example_session # replicate 11 (Transmit (example_packet 3 example_host)), []) 0
    = ((sh, q', c'), 10)
    \<and> q' = [Transmit (example_packet 3 example_host)] \<and> c' = replicate 10 (example_client, 100, 3)"
proof -
  let ?q = "AddSession example_session # replicate 11 (Transmit (example_packet 3 example_host))"
  let ?turns = "zip (replicate 12 1000) [0..<12 :: nat]"
  have up: "up_to_packets 10 ?q = AddSession example_session # replicate 10 (Transmit (example_packet 3 example_host))"
    using up_to_replicate [of 10 11] up_to_add [of 10] by simp
  have ms: "AddSession example_session # replicate 10 (Transmit (example_packet 3 example_host))
      = take (length ?turns) (up_to_packets 10 ?q)"
    unfolding up by simp
  have t: "\<forall>x\<in>set ?turns. fst x \<le> run_n_timeout"
    by (auto simp: run_n_timeout_def dest!: set_zip_leftD)
  have d: "distinct (map snd ?turns)" by simp
  have s: "forwarded (connect example_session Map.empty) (replicate 10 (Transmit (example_packet 3 example_host)))
      = replicate 10 (example_client, 100, 3)"
    using forwarded_replicate [of "connect example_session Map.empty" "example_packet 3 example_host" example_client 10]
    by (simp add: connect_def)
  have late: "[(6000000000, 12)] = [] \<or> run_n_timeout < fst (hd [(6000000000, 12 :: nat)])"
    by (simp add: run_n_timeout_def)
  have room: "length ([] :: SqeType list) + length ?q \<le> 2048" by simp
  from run_n_forwards [OF list_shard_queues [of 1499 2048] t late d room ms, of 0]
  show ?thesis by (auto simp: packets_replicate s)
qed

text \<open>Property C40: an idle shard does not survive for ever in a build with overflow checks: its
  \<open>i32\<close> counter of idle turns panics the thread on the turn after \<open>2 ^ 31 - 1\<close> idle ones,
  before which it only waits; without the checks the counter wraps to \<open>- 2 ^ 31\<close> and the
  thread spins again instead of sleeping.\<close>

theorem idle_shard_panics:
  assumes "shard_queues Q msgs C sqes cap" and "msgs q = []" and "length sids = 2 ^ 31 - 1"
  shows "\<exists>q'. msgs q' = []
    \<and> shard_run Q C oc sids (sh, q, c, 0) = Inr (sh, q', c, 0x7FFFFFFF)
    \<and> shard_turn Q C True sid (sh, q', c, 0x7FFFFFFF) = Inl ArithmeticOverflow
    \<and> (\<exists>q''. shard_turn Q C False sid (sh, q', c, 0x7FFFFFFF) = Inr ((sh, q'', c, 0x80000000), SpinLoop)
        \<and> sint (0x80000000 :: i32) = - (2 ^ 31))"
proof -
  have *: "of_nat (length sids) = (0x7FFFFFFF :: i32)" using assms(3) by simp
  with shard_queues.idle_run [OF assms(1,2), of 0 sids oc sh c] assms(3)
  obtain q' where q': "msgs q' = []" "shard_run Q C oc sids (sh, q, c, 0) = Inr (sh, q', c, 0x7FFFFFFF)"
    by auto
  from shard_queues.idle_turn [OF assms(1) q'(1)] obtain q'' where "q_dequeue Q q' = (None, q'')" by blast
  with q' show ?thesis by (auto simp: shard_turn_def)
qed

theorem idle_shard_panics_witness:
  "\<exists>q'. shard_run (list_queue 1499) (list_queue 2048) True (replicate (2 ^ 31 - 1) ())
      (Shard_new 0, [], [], 0) = Inr (Shard_new 0, q', [], 0x7FFFFFFF)
    \<and> shard_turn (list_queue 1499) (list_queue 2048) True () (Shard_new 0, q', [], 0x7FFFFFFF)
      = Inl ArithmeticOverflow"
proof -
  have "length (replicate (2 ^ 31 - 1) ()) = 2 ^ 31 - 1" by (rule length_replicate)
  from idle_shard_panics [OF list_shard_queues [of 1499 2048] refl this] show ?thesis by blast
qed

end
