(* ===== verification/TurnToken.thy ===== *)
theory TurnToken
  imports SockAddr
begin

text \<open>
  The two encodings at the boundary to the kernel (\<open>turn_server/src/lib.rs\<close>): the completion
  token, an operation and a buffer index in a \<open>u64\<close>, and the socket address in a
  \<open>sockaddr_storage\<close>. The C structures are those of the \<open>libc\<close> crate, a parameter.
\<close>

section \<open>Completion tokens\<close>

datatype OpType = Recv | Send | SendNotif

definition encode_token :: "OpType \<Rightarrow> u16 \<Rightarrow> u64" where
  "encode_token op buf_idx =
     (let op_bits = (case op of Recv \<Rightarrow> 0 | Send \<Rightarrow> 1 | SendNotif \<Rightarrow> 2) :: u64
      in push_bit 16 op_bits OR ucast buf_idx)"

definition decode_token :: "u64 \<Rightarrow> OpType \<times> u16" where
  "decode_token token =
     (let t = drop_bit 16 token
      in (if t = 0 then Recv else if t = 1 then Send else if t = 2 then SendNotif else Send,
          ucast (token AND 0xFFFF)))"

lemma token_index: "ucast ((push_bit 16 w OR ucast b :: u64) AND 0xFFFF) = (b :: u16)"
proof (rule bit_word_eqI)
  fix n assume "n < LENGTH(16)"
  moreover have "bit (0xFFFF :: u64) n \<longleftrightarrow> n < 16"
    using bit_mask_iff [of 16 n, where 'a = u64] by (auto simp: mask_eq_exp_minus_1)
  ultimately show "bit (ucast ((push_bit 16 w OR ucast b :: u64) AND 0xFFFF) :: u16) n \<longleftrightarrow> bit b n"
    by (auto simp: bit_simps)
qed

lemma token_op: "drop_bit 16 (push_bit 16 w OR ucast (b :: u16)) = (take_bit 48 w :: u64)"
  by (rule bit_word_eqI) (auto simp: bit_simps)

lemma decode_encode: "decode_token (encode_token op b) = (op, b)"
  unfolding decode_token_def encode_token_def Let_def token_index token_op
  by (cases op) simp_all

lemma encode_token_inj: "encode_token op b = encode_token op' b' \<longleftrightarrow> op = op' \<and> b = b'"
  by (metis decode_encode prod.inject)

section \<open>Byte order\<close>

text \<open>\<open>to_be\<close> and \<open>from_be\<close> on a little-endian (\<open>le\<close>) or big-endian target.\<close>

definition swap_bytes16 :: "u16 \<Rightarrow> u16" where
  "swap_bytes16 w = (case be16 w of [a, b] \<Rightarrow> of_be16 b a | _ \<Rightarrow> 0)"

definition swap_bytes32 :: "u32 \<Rightarrow> u32" where
  "swap_bytes32 w = (case be32 w of [a, b, c, d] \<Rightarrow> of_be32 d c b a | _ \<Rightarrow> 0)"

lemma swap_bytes_swap [simp]: "swap_bytes16 (swap_bytes16 w) = w" "swap_bytes32 (swap_bytes32 v) = v"
proof -
  obtain a b where w: "be16 w = [a, b]" by (simp add: be16_def)
  then have "w = of_be16 a b" by (auto simp: be16_def codec_simps)
  with w show "swap_bytes16 (swap_bytes16 w) = w" by (simp add: swap_bytes16_def codec_simps)
  obtain a b c d where v: "be32 v = [a, b, c, d]" by (simp add: be32_def)
  then have "v = of_be32 a b c d" by (auto simp: be32_def codec_simps)
  with v show "swap_bytes32 (swap_bytes32 v) = v" by (simp add: swap_bytes32_def codec_simps)
qed

definition to_be16 :: "bool \<Rightarrow> u16 \<Rightarrow> u16" where
  "to_be16 le w = (if le then swap_bytes16 w else w)"

definition to_be32 :: "bool \<Rightarrow> u32 \<Rightarrow> u32" where
  "to_be32 le w = (if le then swap_bytes32 w else w)"

abbreviation from_be16 :: "bool \<Rightarrow> u16 \<Rightarrow> u16" where "from_be16 \<equiv> to_be16"
abbreviation from_be32 :: "bool \<Rightarrow> u32 \<Rightarrow> u32" where "from_be32 \<equiv> to_be32"

lemma from_to_be [simp]: "from_be16 le (to_be16 le p) = p" "from_be32 le (to_be32 le i) = i"
  by (simp_all add: to_be16_def to_be32_def)

section \<open>The C structures\<close>

record sockaddr_in =
  sin_family :: u16
  sin_port :: u16
  s_addr :: u32
  sin_zero :: "u8 list"

record sockaddr_in6 =
  sin6_family :: u16
  sin6_port :: u16
  sin6_flowinfo :: u32
  s6_addr :: u128  \<comment> \<open>the sixteen octets, the first one highest\<close>
  sin6_scope_id :: u32

record 'st libc_ops =
  AF_INET :: u32
  AF_INET6 :: u32
  zeroed :: 'st                                   \<comment> \<open>an all-zero \<open>sockaddr_storage\<close>\<close>
  ss_family :: "'st \<Rightarrow> u16"
  as_in :: "'st \<Rightarrow> sockaddr_in"                   \<comment> \<open>the storage read as one of the structures\<close>
  as_in6 :: "'st \<Rightarrow> sockaddr_in6"
  write_in :: "sockaddr_in \<Rightarrow> 'st \<Rightarrow> 'st"        \<comment> \<open>\<open>ptr::write\<close> through the cast pointer\<close>
  write_in6 :: "sockaddr_in6 \<Rightarrow> 'st \<Rightarrow> 'st"
  sizeof_in :: nat
  sizeof_in6 :: nat
  sizeof_storage :: nat

locale libc =
  fixes L :: "'st libc_ops"
  assumes families: "AF_INET L \<noteq> AF_INET6 L" "AF_INET L \<noteq> 0" "AF_INET6 L \<noteq> 0"
      "ucast (ucast (AF_INET L) :: u16) = AF_INET L" "ucast (ucast (AF_INET6 L) :: u16) = AF_INET6 L"
    and family_zeroed: "ss_family L (zeroed L) = 0"
    and family_in: "ss_family L (write_in L x st) = sin_family x"
    and family_in6: "ss_family L (write_in6 L y st) = sin6_family y"
    and read_in: "as_in L (write_in L x st) = x"
    and read_in6: "as_in6 L (write_in6 L y st) = y"

section \<open>Socket addresses in storage\<close>

text \<open>\<open>extract_src_addr\<close> of a storage; \<open>write_socket_addr\<close> with the length it returns.\<close>

definition extract_src_addr :: "'st libc_ops \<Rightarrow> bool \<Rightarrow> 'st \<Rightarrow> sockaddr" where
  "extract_src_addr L le addr =
     (let family = ucast (ss_family L addr) :: u32
      in if family = AF_INET L then
           (let sin = as_in L addr in V4 (from_be32 le (s_addr sin)) (from_be16 le (sin_port sin)))
         else if family = AF_INET6 L then
           (let sin6 = as_in6 L addr in V6 (s6_addr sin6) (from_be16 le (sin6_port sin6)) 0 0)
         else unspecified_addr)"

fun write_socket_addr :: "'st libc_ops \<Rightarrow> bool \<Rightarrow> 'st \<Rightarrow> sockaddr \<Rightarrow> 'st \<times> nat" where
  "write_socket_addr L le storage (V4 i p) =
     (write_in L \<lparr>sin_family = ucast (AF_INET L), sin_port = to_be16 le p, s_addr = to_be32 le i,
        sin_zero = replicate 8 0\<rparr> storage, sizeof_in L)"
| "write_socket_addr L le storage (V6 i p f z) =
     (write_in6 L \<lparr>sin6_family = ucast (AF_INET6 L), sin6_port = to_be16 le p, sin6_flowinfo = f,
        s6_addr = i, sin6_scope_id = z\<rparr> storage, sizeof_in6 L)"

text \<open>What is left of an address read back: an IPv6 address loses flow info and scope.\<close>

fun plain_addr :: "sockaddr \<Rightarrow> sockaddr" where
  "plain_addr (V4 i p) = V4 i p"
| "plain_addr (V6 i p f z) = V6 i p 0 0"

context libc
begin

lemma extract_write: "extract_src_addr L le (fst (write_socket_addr L le st a)) = plain_addr a"
  using families
  by (cases a) (auto simp: extract_src_addr_def family_in family_in6 read_in read_in6 Let_def)

lemma extract_zeroed: "extract_src_addr L le (zeroed L) = unspecified_addr"
  using families by (simp add: extract_src_addr_def family_zeroed)

end

section \<open>A storage that keeps the contract\<close>

text \<open>The constants of Linux; the storage holds whichever structure was written last.\<close>

datatype storage = Zeroed | In sockaddr_in | In6 sockaddr_in6

definition linux :: "storage libc_ops" where
  "linux =
     \<lparr>AF_INET = 2, AF_INET6 = 10, zeroed = Zeroed,
      ss_family = (\<lambda>st. case st of Zeroed \<Rightarrow> 0 | In x \<Rightarrow> sin_family x | In6 y \<Rightarrow> sin6_family y),
      as_in = (\<lambda>st. case st of In x \<Rightarrow> x
        | _ \<Rightarrow> \<lparr>sin_family = 0, sin_port = 0, s_addr = 0, sin_zero = replicate 8 0\<rparr>),
      as_in6 = (\<lambda>st. case st of In6 y \<Rightarrow> y
        | _ \<Rightarrow> \<lparr>sin6_family = 0, sin6_port = 0, sin6_flowinfo = 0, s6_addr = 0, sin6_scope_id = 0\<rparr>),
      write_in = (\<lambda>x _. In x), write_in6 = (\<lambda>y _. In6 y),
      sizeof_in = 16, sizeof_in6 = 28, sizeof_storage = 128\<rparr>"

interpretation linux: libc linux
  by unfold_locales (auto simp: linux_def)

lemmas linux_libc = linux.libc_axioms

section \<open>Properties of the encodings\<close>

text \<open>Property C36: a token gives back its operation and its buffer index, so that different
  operations or buffers never share a token.\<close>

theorem token_round_trip:
  "decode_token (encode_token op b) = (op, b)
   \<and> (encode_token op b = encode_token op' b' \<longleftrightarrow> op = op' \<and> b = b')"
  by (simp add: decode_encode encode_token_inj)

text \<open>Property C24: an address written to a \<open>sockaddr_storage\<close> for a send is read back from it,
  on targets of either byte order, without flow info and scope id if it is an IPv6 address; an
  untouched storage reads as \<open>0.0.0.0:0\<close>.\<close>

theorem storage_round_trip:
  assumes "libc L"
  shows "extract_src_addr L le (fst (write_socket_addr L le st a)) = plain_addr a
    \<and> extract_src_addr L le (zeroed L) = unspecified_addr"
  using libc.extract_write [OF assms] libc.extract_zeroed [OF assms] by blast

theorem storage_round_trip_witness:
  "extract_src_addr linux True (fst (write_socket_addr linux True Zeroed (ip4 10 0 0 1 9001)))
    = ip4 10 0 0 1 9001"
  using storage_round_trip [OF linux_libc, of True Zeroed "ip4 10 0 0 1 9001"] by (simp add: ip4_def)

end
