(* ===== verification/TurnPool.thy ===== *)
theory TurnPool
  imports TurnShard TurnToken
begin

text \<open>
  The buffer pool of the relay (\<open>turn_server/src/lib.rs\<close>): one slab of memory cut into buffers
  of \<open>BUFFER_SIZE\<close> bytes, their free list, the message headers of operations in flight and the
  timing of packets. The rings shared with the kernel belong to the \<open>io_uring\<close> crate; the
  operations used are a parameter.
\<close>

definition BUFFER_SIZE :: nat where "BUFFER_SIZE = 1500"
definition POOL_SIZE :: nat where "POOL_SIZE = 1024"

section \<open>State\<close>

type_synonym instant = nat

record PacketTiming =
  recv_cqe_at :: instant
  shard_done_at :: "instant option"
  send_sqe_at :: "instant option"

text \<open>A message header with its one buffer vector and its address storage; pointers into the
  slab are offsets.\<close>

record 'st MsgHdrSlot =
  iov_base :: nat
  iov_len :: nat
  msg_iovlen :: nat
  msg_namelen :: nat
  slot_addr :: 'st

record 'st BufferPool =
  memory :: "u8 list"
  in_flight :: nat
  registered :: bool
  free_list :: "u16 list"
  timestamp :: "u16 \<rightharpoonup> PacketTiming"
  live_slots :: "u16 \<rightharpoonup> 'st MsgHdrSlot"

definition BufferPool_default :: "'st BufferPool" where
  "BufferPool_default =
     \<lparr>memory = replicate (POOL_SIZE * BUFFER_SIZE) 0, in_flight = 0, registered = False,
      free_list = [], timestamp = Map.empty, live_slots = Map.empty\<rparr>"

text \<open>A submission: its header is the live slot of the buffer in \<open>sqe_msghdr\<close>.\<close>

datatype opcode = RecvMsg | SendMsgZc

record Entry =
  sqe_opcode :: opcode
  sqe_fd :: int
  sqe_msghdr :: u16
  user_data :: u64

record 'k ring_ops =
  register_buffers :: "(nat \<times> nat) list \<Rightarrow> 'k \<Rightarrow> 'k \<times> bool"
  sq_push :: "Entry \<Rightarrow> 'k \<Rightarrow> 'k \<times> bool"   \<comment> \<open>\<open>False\<close>: the queue is full\<close>
  sq_sync :: "'k \<Rightarrow> 'k"
  ring_submit :: "'k \<Rightarrow> 'k \<times> bool"
  ring_take :: "'k \<Rightarrow> Entry option \<times> 'k"  \<comment> \<open>the kernel's side: the next published entry\<close>

section \<open>Operations\<close>

text \<open>\<open>slice\<close> and \<open>slice_mut\<close>: offset and length of a part of the slab.\<close>

definition slice_range :: "'st BufferPool \<Rightarrow> nat \<Rightarrow> nat \<Rightarrow> turn_panic + nat \<times> nat" where
  "slice_range pool start n =
     (if start + n \<le> length (memory pool) then Inr (start, n) else Inl IndexOutOfBounds)"

definition slice :: "'st BufferPool \<Rightarrow> u16 \<Rightarrow> nat \<Rightarrow> turn_panic + u8 list" where
  "slice pool idx n =
     and_then (slice_range pool (unat idx * BUFFER_SIZE) n)
       (\<lambda>(start, n). Inr (take n (drop start (memory pool))))"

definition slice_mut :: "'st BufferPool \<Rightarrow> u16 \<Rightarrow> turn_panic + nat \<times> nat" where
  "slice_mut pool idx = slice_range pool (unat idx * BUFFER_SIZE) BUFFER_SIZE"

definition MsgHdrSlot_new :: "'st libc_ops \<Rightarrow> bool \<Rightarrow> nat \<Rightarrow> sockaddr option \<Rightarrow> 'st MsgHdrSlot" where
  "MsgHdrSlot_new L le buf addr =
     (case addr of
        Some a \<Rightarrow>
          (case write_socket_addr L le (zeroed L) a of (storage, n) \<Rightarrow>
             \<lparr>iov_base = buf, iov_len = BUFFER_SIZE, msg_iovlen = 1, msg_namelen = n, slot_addr = storage\<rparr>)
      | None \<Rightarrow>
          \<lparr>iov_base = buf, iov_len = BUFFER_SIZE, msg_iovlen = 1, msg_namelen = sizeof_storage L,
           slot_addr = zeroed L\<rparr>)"

definition msghdr_ptr_for ::
  "'st libc_ops \<Rightarrow> bool \<Rightarrow> u16 \<Rightarrow> sockaddr option \<Rightarrow> 'st BufferPool \<Rightarrow> turn_panic + 'st MsgHdrSlot"
where
  "msghdr_ptr_for L le idx addr pool =
     and_then (slice_mut pool idx) (\<lambda>(buf, _). Inr (MsgHdrSlot_new L le buf addr))"

text \<open>\<open>register_buffer_kernel\<close>: all buffers, in order, are announced and become free.\<close>

fun register_list :: "nat list \<Rightarrow> 'st BufferPool \<Rightarrow> (nat \<times> nat) list \<Rightarrow> turn_panic + 'st BufferPool \<times> (nat \<times> nat) list" where
  "register_list [] pool iovs = Inr (pool, iovs)"
| "register_list (i # is) pool iovs =
     and_then (slice_range pool (i * BUFFER_SIZE) BUFFER_SIZE) (\<lambda>(start, _).
       register_list is (pool\<lparr>free_list := free_list pool @ [of_nat i]\<rparr>) (iovs @ [(start, BUFFER_SIZE)]))"

definition register_buffer_kernel :: "'k ring_ops \<Rightarrow> 'st BufferPool \<Rightarrow> 'k \<Rightarrow> turn_panic + 'st BufferPool \<times> 'k" where
  "register_buffer_kernel K pool ring =
     and_then (register_list [0..<POOL_SIZE] pool []) (\<lambda>(pool, iovs).
       case register_buffers K iovs ring of
         (ring, True) \<Rightarrow> Inr (pool\<lparr>registered := True\<rparr>, ring)
       | (ring, False) \<Rightarrow> Inl RegistrationFailed)"

text \<open>\<open>post_recv_sqe\<close> and \<open>post_send_sqe\<close>; a full submission queue is only logged.\<close>

definition post_recv_sqe ::
  "'st libc_ops \<Rightarrow> 'k ring_ops \<Rightarrow> bool \<Rightarrow> int \<Rightarrow> u16 \<Rightarrow> sockaddr option
    \<Rightarrow> 'st BufferPool \<times> 'k \<Rightarrow> turn_panic + 'st BufferPool \<times> 'k"
where
  "post_recv_sqe L K le listen_fd idx addr pr =
     (case pr of (pool, sqe) \<Rightarrow>
        and_then (msghdr_ptr_for L le idx addr pool) (\<lambda>slot.
          Inr (pool\<lparr>live_slots := (live_slots pool)(idx \<mapsto> slot)\<rparr>,
               fst (sq_push K \<lparr>sqe_opcode = RecvMsg, sqe_fd = listen_fd, sqe_msghdr = idx,
                               user_data = encode_token Recv idx\<rparr> sqe))))"

definition post_send_sqe ::
  "'st libc_ops \<Rightarrow> 'k ring_ops \<Rightarrow> bool \<Rightarrow> int \<Rightarrow> nat \<Rightarrow> u16 \<Rightarrow> sockaddr
    \<Rightarrow> 'st BufferPool \<times> 'k \<Rightarrow> turn_panic + 'st BufferPool \<times> 'k"
where
  "post_send_sqe L K le listen_fd n idx dest pr =
     (case pr of (pool, sqe) \<Rightarrow>
        and_then (msghdr_ptr_for L le idx (Some dest) pool) (\<lambda>slot.
          Inr (pool\<lparr>live_slots := (live_slots pool)(idx \<mapsto> slot)\<rparr>,
               fst (sq_push K \<lparr>sqe_opcode = SendMsgZc, sqe_fd = listen_fd, sqe_msghdr = idx,
                               user_data = encode_token Send idx\<rparr> sqe))))"

text \<open>\<open>free_list.pop()\<close> takes the last element of the vector.\<close>

definition acquire :: "'st BufferPool \<Rightarrow> u16 option \<times> 'st BufferPool" where
  "acquire pool =
     (if free_list pool = [] then (None, pool)
      else (Some (last (free_list pool)), pool\<lparr>free_list := butlast (free_list pool)\<rparr>))"

definition release ::
  "'st libc_ops \<Rightarrow> 'k ring_ops \<Rightarrow> bool \<Rightarrow> int \<Rightarrow> u16 \<Rightarrow> 'st BufferPool \<times> 'k \<Rightarrow> turn_panic + 'st BufferPool \<times> 'k"
where
  "release L K le listen_fd idx pr = post_recv_sqe L K le listen_fd idx None pr"

definition mark_recv_for :: "u16 \<Rightarrow> instant \<Rightarrow> 'st BufferPool \<Rightarrow> 'st BufferPool" where
  "mark_recv_for idx t pool =
     pool\<lparr>timestamp := (timestamp pool)(idx \<mapsto>
       \<lparr>recv_cqe_at = t, shard_done_at = None, send_sqe_at = None\<rparr>)\<rparr>"

definition mark_shard_done_at :: "u16 \<Rightarrow> instant \<Rightarrow> 'st BufferPool \<Rightarrow> 'st BufferPool" where
  "mark_shard_done_at idx t pool =
     (case timestamp pool idx of
        None \<Rightarrow> pool
      | Some s \<Rightarrow> pool\<lparr>timestamp := (timestamp pool)(idx \<mapsto> s\<lparr>shard_done_at := Some t\<rparr>)\<rparr>)"

definition mark_send_sqe_at :: "u16 \<Rightarrow> instant \<Rightarrow> 'st BufferPool \<Rightarrow> 'st BufferPool" where
  "mark_send_sqe_at idx t pool =
     (case timestamp pool idx of
        None \<Rightarrow> pool
      | Some s \<Rightarrow> pool\<lparr>timestamp := (timestamp pool)(idx \<mapsto> s\<lparr>send_sqe_at := Some t\<rparr>)\<rparr>)"

definition take_recv_for :: "u16 \<Rightarrow> 'st BufferPool \<Rightarrow> PacketTiming option \<times> 'st BufferPool" where
  "take_recv_for idx pool = (timestamp pool idx, pool\<lparr>timestamp := (timestamp pool)(idx := None)\<rparr>)"

definition get_peer_addr :: "'st libc_ops \<Rightarrow> bool \<Rightarrow> u16 \<Rightarrow> 'st BufferPool \<Rightarrow> sockaddr" where
  "get_peer_addr L le idx pool =
     (case live_slots pool idx of
        None \<Rightarrow> unspecified_addr
      | Some s \<Rightarrow> extract_src_addr L le (slot_addr s))"

text \<open>The seeding of the ring: \<open>POOL_SIZE\<close> times a free buffer is posted for receiving.\<close>

fun seed ::
  "'st libc_ops \<Rightarrow> 'k ring_ops \<Rightarrow> bool \<Rightarrow> int \<Rightarrow> nat \<Rightarrow> nat \<Rightarrow> 'st BufferPool \<times> 'k
    \<Rightarrow> turn_panic + ('st BufferPool \<times> 'k) \<times> nat"
where
  "seed L K le fd 0 seeded pr = Inr (pr, seeded)"
| "seed L K le fd (Suc n) seeded (pool, ring) =
     (case acquire pool of
        (None, pool) \<Rightarrow> seed L K le fd n seeded (pool, ring)
      | (Some idx, pool) \<Rightarrow>
          and_then (post_recv_sqe L K le fd idx None (pool, ring)) (seed L K le fd n (seeded + 1)))"

section \<open>The ring\<close>

text \<open>
  What the documentation of the submission queue promises: a push appends to the entries not yet
  published or, when no slot is left, changes nothing; \<open>sync\<close> publishes them all and can only
  free slots; the kernel takes published entries in order, and the slots it leaves are seen free
  only by the next \<open>sync\<close>.
\<close>

locale uring =
  fixes K :: "'k ring_ops"
    and unsynced :: "'k \<Rightarrow> Entry list"
    and synced :: "'k \<Rightarrow> Entry list"
    and slots :: "'k \<Rightarrow> nat"
  assumes push_accepted: "snd (sq_push K e k) \<longleftrightarrow> 0 < slots k"
    and push_unsynced: "unsynced (fst (sq_push K e k)) = (if 0 < slots k then unsynced k @ [e] else unsynced k)"
    and push_synced: "synced (fst (sq_push K e k)) = synced k"
    and push_slots: "slots (fst (sq_push K e k)) = slots k - 1"
    and sync_unsynced: "unsynced (sq_sync K k) = []"
    and sync_synced: "synced (sq_sync K k) = synced k @ unsynced k"
    and sync_slots: "slots k \<le> slots (sq_sync K k)"
    and register_keeps: "unsynced (fst (register_buffers K iovs k)) = unsynced k"
      "synced (fst (register_buffers K iovs k)) = synced k" "slots (fst (register_buffers K iovs k)) = slots k"
    and submit_keeps: "unsynced (fst (ring_submit K k)) = unsynced k"
      "synced (fst (ring_submit K k)) = synced k"
    and take_result: "fst (ring_take K k) = (case synced k of [] \<Rightarrow> None | e # _ \<Rightarrow> Some e)"
    and take_keeps: "synced (snd (ring_take K k)) = tl (synced k)"
      "unsynced (snd (ring_take K k)) = unsynced k"
    and slots_seen: "slots (snd (ring_take K k)) = slots k" "slots (fst (ring_submit K k)) = slots k"

text \<open>A ring that keeps the contract: entries not yet published, published ones, free slots
  (which this one never gets back).\<close>

type_synonym list_ring = "Entry list \<times> Entry list \<times> nat"

definition list_ring_ops :: "list_ring ring_ops" where
  "list_ring_ops =
     \<lparr>register_buffers = (\<lambda>_ k. (k, True)),
      sq_push = (\<lambda>e (u, s, n). if 0 < n then ((u @ [e], s, n - 1), True) else ((u, s, n), False)),
      sq_sync = (\<lambda>(u, s, n). ([], s @ u, n)),
      ring_submit = (\<lambda>k. (k, True)),
      ring_take = (\<lambda>(u, s, n). (case s of [] \<Rightarrow> None | e # _ \<Rightarrow> Some e, (u, tl s, n)))\<rparr>"

interpretation list_ring: uring list_ring_ops fst "\<lambda>k. fst (snd k)" "\<lambda>k. snd (snd k)"
  by unfold_locales (auto simp: list_ring_ops_def split: if_splits list.splits)

lemmas list_ring_uring = list_ring.uring_axioms

section \<open>Buffers\<close>

definition pool_ok :: "'st BufferPool \<Rightarrow> bool" where
  "pool_ok pool \<longleftrightarrow> length (memory pool) = POOL_SIZE * BUFFER_SIZE"

lemma pool_ok_default: "pool_ok BufferPool_default"
  by (simp add: pool_ok_def BufferPool_default_def)

lemma slice_range_ok:
  assumes "pool_ok pool" and "i < POOL_SIZE" and "n \<le> BUFFER_SIZE"
  shows "slice_range pool (i * BUFFER_SIZE) n = Inr (i * BUFFER_SIZE, n)"
proof -
  have "i * BUFFER_SIZE + BUFFER_SIZE \<le> POOL_SIZE * BUFFER_SIZE"
    using mult_le_mono1 [of "Suc i" POOL_SIZE BUFFER_SIZE] assms(2) by simp
  with assms show ?thesis by (simp add: slice_range_def pool_ok_def)
qed

lemma slice_range_out:
  assumes "pool_ok pool" and "POOL_SIZE \<le> i"
  shows "slice_range pool (i * BUFFER_SIZE) BUFFER_SIZE = Inl IndexOutOfBounds"
proof -
  have "POOL_SIZE * BUFFER_SIZE \<le> i * BUFFER_SIZE" by (rule mult_le_mono1 [OF assms(2)])
  then have "\<not> i * BUFFER_SIZE + BUFFER_SIZE \<le> POOL_SIZE * BUFFER_SIZE" by (simp add: BUFFER_SIZE_def)
  with assms(1) show ?thesis by (simp add: slice_range_def pool_ok_def)
qed

lemma msghdr_ptr_ok:
  "pool_ok pool \<Longrightarrow> unat idx < POOL_SIZE \<Longrightarrow>
    msghdr_ptr_for L le idx addr pool = Inr (MsgHdrSlot_new L le (unat idx * BUFFER_SIZE) addr)"
  by (simp add: msghdr_ptr_for_def slice_mut_def slice_range_ok)

lemma msghdr_ptr_out:
  "pool_ok pool \<Longrightarrow> POOL_SIZE \<le> unat idx \<Longrightarrow> msghdr_ptr_for L le idx addr pool = Inl IndexOutOfBounds"
  by (simp add: msghdr_ptr_for_def slice_mut_def slice_range_out)

lemma slot_new_simps [simp]:
  "iov_base (MsgHdrSlot_new L le buf a) = buf" "iov_len (MsgHdrSlot_new L le buf a) = BUFFER_SIZE"
  "msg_iovlen (MsgHdrSlot_new L le buf a) = 1"
  by (auto simp: MsgHdrSlot_new_def split: option.split prod.split)

abbreviation recv_entry :: "int \<Rightarrow> u16 \<Rightarrow> Entry" where
  "recv_entry fd i \<equiv>
     \<lparr>sqe_opcode = RecvMsg, sqe_fd = fd, sqe_msghdr = i, user_data = encode_token Recv i\<rparr>"

abbreviation send_entry :: "int \<Rightarrow> u16 \<Rightarrow> Entry" where
  "send_entry fd i \<equiv>
     \<lparr>sqe_opcode = SendMsgZc, sqe_fd = fd, sqe_msghdr = i, user_data = encode_token Send i\<rparr>"

lemma post_recv_ok:
  assumes "pool_ok pool" and "unat idx < POOL_SIZE"
  shows "post_recv_sqe L K le fd idx addr (pool, k) =
    Inr (pool\<lparr>live_slots := (live_slots pool)(idx \<mapsto> MsgHdrSlot_new L le (unat idx * BUFFER_SIZE) addr)\<rparr>,
         fst (sq_push K (recv_entry fd idx) k))"
  by (simp add: post_recv_sqe_def msghdr_ptr_ok [OF assms])

lemma post_send_ok:
  assumes "pool_ok pool" and "unat idx < POOL_SIZE"
  shows "post_send_sqe L K le fd n idx dest (pool, k) =
    Inr (pool\<lparr>live_slots := (live_slots pool)(idx \<mapsto> MsgHdrSlot_new L le (unat idx * BUFFER_SIZE) (Some dest))\<rparr>,
         fst (sq_push K (send_entry fd idx) k))"
  by (simp add: post_send_sqe_def msghdr_ptr_ok [OF assms])

section \<open>Seeding\<close>

lemma register_list_ok:
  assumes "pool_ok pool" and "\<forall>i\<in>set ns. i < POOL_SIZE"
  shows "register_list ns pool iovs =
    Inr (pool\<lparr>free_list := free_list pool @ map of_nat ns\<rparr>, iovs @ map (\<lambda>i. (i * BUFFER_SIZE, BUFFER_SIZE)) ns)"
  using assms
proof (induction ns arbitrary: pool iovs)
  case (Cons i ns)
  then show ?case by (simp add: slice_range_ok pool_ok_def)
qed simp

context uring
begin

lemma seed_ok:
  assumes "pool_ok pool" and "length (free_list pool) \<le> n"
    and "\<forall>i\<in>set (free_list pool). unat i < POOL_SIZE" and "length (free_list pool) \<le> slots k"
  shows "\<exists>pool' k'. seed L K le fd n m (pool, k) = Inr ((pool', k'), m + length (free_list pool))
    \<and> pool_ok pool' \<and> free_list pool' = [] \<and> timestamp pool' = timestamp pool \<and> synced k' = synced k
    \<and> unsynced k' = unsynced k @ map (recv_entry fd) (rev (free_list pool))
    \<and> (\<forall>i. live_slots pool' i = (if i \<in> set (free_list pool)
          then Some (MsgHdrSlot_new L le (unat i * BUFFER_SIZE) None) else live_slots pool i))
    \<and> slots k' = slots k - length (free_list pool)"
  using assms
proof (induction n arbitrary: pool k m)
  case 0
  then show ?case by simp
next
  case (Suc n)
  show ?case
  proof (cases "free_list pool" rule: rev_cases)
    case Nil
    then show ?thesis using Suc.IH [of pool k m] Suc.prems by (simp add: acquire_def)
  next
    case (snoc ns i)
    define p1 where "p1 = pool\<lparr>free_list := ns, live_slots := (live_slots pool)(i \<mapsto> MsgHdrSlot_new L le (unat i * BUFFER_SIZE) None)\<rparr>"
    define k1 where "k1 = fst (sq_push K (recv_entry fd i) k)"
    have "pool_ok (pool\<lparr>free_list := ns\<rparr>)" "unat i < POOL_SIZE" using Suc.prems snoc by (auto simp: pool_ok_def)
    then have s: "seed L K le fd (Suc n) m (pool, k) = seed L K le fd n (m + 1) (p1, k1)"
      using snoc by (simp add: acquire_def post_recv_ok p1_def k1_def)
    have k1: "unsynced k1 = unsynced k @ [recv_entry fd i]" "synced k1 = synced k" "slots k1 = slots k - 1"
      using Suc.prems(4) snoc by (auto simp: k1_def push_unsynced push_synced push_slots)
    have "pool_ok p1" "free_list p1 = ns" "timestamp p1 = timestamp pool"
      using Suc.prems(1) by (simp_all add: p1_def pool_ok_def)
    moreover have "length ns \<le> slots k1" "length ns \<le> n" using Suc.prems(2,4) snoc k1(3) by simp_all
    ultimately obtain pool' k'
      where "seed L K le fd n (m + 1) (p1, k1) = Inr ((pool', k'), m + length (free_list pool))"
        "pool_ok pool'" "free_list pool' = []" "timestamp pool' = timestamp pool" "synced k' = synced k"
        "unsynced k' = unsynced k @ map (recv_entry fd) (rev (free_list pool))"
        and l: "\<forall>j. live_slots pool' j = (if j \<in> set ns
          then Some (MsgHdrSlot_new L le (unat j * BUFFER_SIZE) None) else live_slots p1 j)"
        and sl: "slots k' = slots k1 - length ns"
      using Suc.IH [of p1 k1 "m + 1"] Suc.prems(3) snoc k1 by auto
    moreover from l have "\<forall>j. live_slots pool' j = (if j \<in> set (free_list pool)
          then Some (MsgHdrSlot_new L le (unat j * BUFFER_SIZE) None) else live_slots pool j)"
      using snoc by (auto simp: p1_def)
    moreover have "slots k' = slots k - length (free_list pool)" using sl k1(3) snoc by simp
    ultimately show ?thesis using s by auto
  qed
qed

lemma start_ok:
  fixes L :: "'st libc_ops"
  assumes "snd (register_buffers K (map (\<lambda>i. (i * BUFFER_SIZE, BUFFER_SIZE)) [0..<POOL_SIZE]) k)"
    and "POOL_SIZE \<le> slots k"
  shows "\<exists>pool k1 pool' k'. register_buffer_kernel K BufferPool_default k = Inr (pool, k1)
    \<and> seed L K le fd POOL_SIZE 0 (pool, k1) = Inr ((pool', k'), POOL_SIZE)
    \<and> pool_ok pool' \<and> free_list pool' = [] \<and> registered pool \<and> timestamp pool' = Map.empty
    \<and> synced k' = synced k
    \<and> unsynced k' = unsynced k @ map (recv_entry fd) (rev (map of_nat [0..<POOL_SIZE]))
    \<and> (\<forall>i. live_slots pool' i = (if unat i < POOL_SIZE
          then Some (MsgHdrSlot_new L le (unat i * BUFFER_SIZE) None) else None))
    \<and> slots k' = slots k - POOL_SIZE"
proof -
  let ?iovs = "map (\<lambda>i. (i * BUFFER_SIZE, BUFFER_SIZE)) [0..<POOL_SIZE]"
  let ?fl = "map of_nat [0..<POOL_SIZE] :: u16 list"
  obtain k1 where k1: "register_buffers K ?iovs k = (k1, True)"
    using assms(1) by (cases "register_buffers K ?iovs k") simp
  define p :: "'st BufferPool" where "p = BufferPool_default\<lparr>free_list := ?fl, registered := True\<rparr>"
  have "free_list (BufferPool_default :: 'st BufferPool) = []" by (simp add: BufferPool_default_def)
  with register_list_ok [OF pool_ok_default [where ?'a = 'st], of "[0..<POOL_SIZE]" "[]"]
  have r: "register_buffer_kernel K BufferPool_default k = Inr (p, k1)"
    by (simp add: register_buffer_kernel_def k1 p_def)
  have i: "(i :: u16) \<in> set ?fl \<longleftrightarrow> unat i < POOL_SIZE" for i
  proof
    assume "unat i < POOL_SIZE"
    then have "i \<in> of_nat ` {0..<POOL_SIZE}" by (intro image_eqI [of _ _ "unat i"]) simp_all
    then show "i \<in> set ?fl" by simp
  next
    assume "i \<in> set ?fl"
    then obtain n where "n < POOL_SIZE" "i = of_nat n" by auto
    then show "unat i < POOL_SIZE" by (simp add: POOL_SIZE_def unat_of_nat)
  qed
  have "pool_ok p" "free_list p = ?fl" "registered p" "timestamp p = Map.empty" "live_slots p = Map.empty"
    by (simp_all add: p_def pool_ok_def BufferPool_default_def)
  moreover have "slots k1 = slots k" "unsynced k1 = unsynced k" "synced k1 = synced k"
    using register_keeps [of ?iovs k] by (simp_all add: k1)
  moreover have "length ?fl = POOL_SIZE" by simp
  moreover have "\<forall>i\<in>set ?fl. unat i < POOL_SIZE" using i by blast
  ultimately show ?thesis
    using seed_ok [of p POOL_SIZE k1 L le fd 0] r i assms(2) by auto
qed

end

section \<open>What the kernel is given\<close>

text \<open>The datagram a send transmits: the bytes its header points to.\<close>

definition datagram :: "'st BufferPool \<Rightarrow> u16 \<Rightarrow> u8 list option" where
  "datagram pool idx =
     map_option (\<lambda>s. take (iov_len s) (drop (iov_base s) (memory pool))) (live_slots pool idx)"

definition slot_bytes :: "'st MsgHdrSlot \<Rightarrow> nat set" where
  "slot_bytes s = {iov_base s..<iov_base s + iov_len s}"

lemma buffers_apart: "(i::nat) \<noteq> j \<Longrightarrow> {i * n..<i * n + n} \<inter> {j * n..<j * n + n} = {}"
proof -
  assume "i \<noteq> j"
  then consider "Suc i \<le> j" | "Suc j \<le> i" by linarith
  then show ?thesis
    by cases (use mult_le_mono1 [of "Suc i" j n] mult_le_mono1 [of "Suc j" i n] in auto)
qed

section \<open>Properties of the pool\<close>

text \<open>The headers of different buffers point to disjoint parts of the slab, each
  within it, for receiving and sending alike; an index beyond the pool panics.\<close>

lemma buffers_disjoint:
  assumes "length (memory pool) = POOL_SIZE * BUFFER_SIZE"
  shows "case (msghdr_ptr_for L le i a pool, msghdr_ptr_for L le j b pool) of
      (Inr s, Inr t) \<Rightarrow> unat i < POOL_SIZE \<and> slot_bytes s \<subseteq> {..<length (memory pool)}
        \<and> (i = j \<or> slot_bytes s \<inter> slot_bytes t = {})
    | (Inl e, _) \<Rightarrow> POOL_SIZE \<le> unat i \<and> e = IndexOutOfBounds
    | (_, Inl e) \<Rightarrow> POOL_SIZE \<le> unat j \<and> e = IndexOutOfBounds"
proof -
  have ok: "pool_ok pool" using assms by (simp add: pool_ok_def)
  have sb: "slot_bytes (MsgHdrSlot_new L le (unat x * BUFFER_SIZE) y)
      = {unat x * BUFFER_SIZE..<unat x * BUFFER_SIZE + BUFFER_SIZE}" for x :: u16 and y
    by (simp add: slot_bytes_def)
  have inside: "{unat x * BUFFER_SIZE..<unat x * BUFFER_SIZE + BUFFER_SIZE} \<subseteq> {..<length (memory pool)}"
    if "unat x < POOL_SIZE" for x :: u16
    using mult_le_mono1 [of "Suc (unat x)" POOL_SIZE BUFFER_SIZE] that assms by auto
  have apart: "i = j \<or> {unat i * BUFFER_SIZE..<unat i * BUFFER_SIZE + BUFFER_SIZE} \<inter>
      {unat j * BUFFER_SIZE..<unat j * BUFFER_SIZE + BUFFER_SIZE} = {}"
  proof (cases "i = j")
    case False
    then have "unat i \<noteq> unat j" by (simp add: word_unat_eq_iff)
    from buffers_apart [OF this, of BUFFER_SIZE] show ?thesis by blast
  qed simp
  show ?thesis
  proof (cases "unat i < POOL_SIZE \<and> unat j < POOL_SIZE")
    case True
    then show ?thesis using inside [of i] apart by (simp add: msghdr_ptr_ok [OF ok] sb)
  next
    case False
    then show ?thesis
      using msghdr_ptr_ok [OF ok, of i L le a] msghdr_ptr_out [OF ok, of i L le a]
        msghdr_ptr_out [OF ok, of j L le b]
      by (cases "unat i < POOL_SIZE") (simp_all add: not_less)
  qed
qed

text \<open>The start of the loop posts every buffer of the pool for receiving, each once,
  from the last to the first, with nothing left on the free list.\<close>

lemma pool_seeded:
  assumes "uring K unsynced synced slots" and "POOL_SIZE \<le> slots k"
    and "snd (register_buffers K (map (\<lambda>i. (i * BUFFER_SIZE, BUFFER_SIZE)) [0..<POOL_SIZE]) k)"
  shows "\<exists>pool k1 pool' k'. register_buffer_kernel K BufferPool_default k = Inr (pool, k1)
    \<and> seed L K le fd POOL_SIZE 0 (pool, k1) = Inr ((pool', k'), POOL_SIZE)
    \<and> free_list pool' = [] \<and> dom (live_slots pool') = {i. unat i < POOL_SIZE}
    \<and> unsynced k' = unsynced k @ map (recv_entry fd) (rev (map of_nat [0..<POOL_SIZE]))"
  using uring.start_ok [OF assms(1,3,2), of L le fd] by (auto simp: dom_def split: if_splits)

text \<open>The length of a packet does not matter when it is sent: the same header is
  posted whatever the length, and the datagram is the whole buffer of 1500 bytes, that is the
  packet followed by whatever the buffer held before.\<close>

lemma send_ignores_length:
  assumes "length (memory pool) = POOL_SIZE * BUFFER_SIZE" and "unat idx < POOL_SIZE" and "n \<le> BUFFER_SIZE"
  shows "\<exists>pool' k'. post_send_sqe L K le fd n idx dest (pool, k) = Inr (pool', k')
    \<and> post_send_sqe L K le fd m idx dest (pool, k) = Inr (pool', k')
    \<and> (\<exists>d packet. datagram pool' idx = Some d \<and> length d = 1500
        \<and> slice pool idx n = Inr packet \<and> take n d = packet
        \<and> drop n d = take (1500 - n) (drop (unat idx * BUFFER_SIZE + n) (memory pool)))"
proof -
  have ok: "pool_ok pool" using assms(1) by (simp add: pool_ok_def)
  let ?d = "take BUFFER_SIZE (drop (unat idx * BUFFER_SIZE) (memory pool))"
  have "length ?d = 1500"
    using mult_le_mono1 [of "Suc (unat idx)" POOL_SIZE BUFFER_SIZE] assms by (simp add: BUFFER_SIZE_def)
  moreover have "slice pool idx n = Inr (take n ?d)"
    using slice_range_ok [OF ok assms(2,3)] assms(3) by (simp add: slice_def min_absorb1)
  moreover have "drop n ?d = take (1500 - n) (drop (unat idx * BUFFER_SIZE + n) (memory pool))"
    by (simp add: drop_take BUFFER_SIZE_def add.commute)
  ultimately show ?thesis
    by (simp add: post_send_ok [OF ok assms(2)] datagram_def)
qed

end
