(* ===== verification/AddrText.thy ===== *)
theory AddrText
  imports SockAddr
begin

text \<open>
  The textual form of socket addresses as the Rust standard library prints and parses it
  (\<open>Display\<close> and \<open>FromStr\<close> of \<open>std::net::SocketAddr\<close>): \<open>a.b.c.d:port\<close> for IPv4, and
  \<open>[groups]:port\<close> or \<open>[groups%scope]:port\<close> for IPv6. A parser takes a text and returns a
  value with the text behind it; where it fails nothing is consumed.
\<close>

section \<open>Numbers\<close>

definition digit_char :: "nat \<Rightarrow> char" where
  "digit_char d = (if d < 10 then char_of (48 + d) else char_of (87 + d))"

definition to_digit :: "nat \<Rightarrow> char \<Rightarrow> nat option" where
  "to_digit radix c =
     (let n = of_char c :: nat;
          d = (if 48 \<le> n \<and> n \<le> 57 then n - 48
               else if 97 \<le> n \<and> n \<le> 122 then n - 87
               else if 65 \<le> n \<and> n \<le> 90 then n - 55 else radix)
      in if d < radix then Some d else None)"

fun digits :: "nat \<Rightarrow> nat \<Rightarrow> nat list" where
  "digits b n = (if n < b \<or> b < 2 then [n] else digits b (n div b) @ [n mod b])"

declare digits.simps [simp del]

definition show_number :: "nat \<Rightarrow> nat \<Rightarrow> string" where
  "show_number b n = map digit_char (digits b n)"

text \<open>
  \<open>read_number\<close>: with a digit limit the value is checked against the type's range at the end,
  without one every step is checked. A leading zero is refused unless allowed.
\<close>

fun number_loop ::
  "nat \<Rightarrow> nat option \<Rightarrow> nat \<Rightarrow> string \<Rightarrow> nat \<Rightarrow> nat \<Rightarrow> (nat \<times> nat \<times> string) option"
where
  "number_loop radix limit bound [] r k = Some (r, k, [])"
| "number_loop radix limit bound (c # cs) r k =
     (case to_digit radix c of
        None \<Rightarrow> Some (r, k, c # cs)
      | Some d \<Rightarrow>
          (case limit of
             Some m \<Rightarrow>
               (if m < k + 1 then None
                else number_loop radix limit bound cs (r * radix + d) (k + 1))
           | None \<Rightarrow>
               (if bound \<le> r * radix + d then None
                else number_loop radix limit bound cs (r * radix + d) (k + 1))))"

definition read_number ::
  "nat \<Rightarrow> nat option \<Rightarrow> bool \<Rightarrow> nat \<Rightarrow> string \<Rightarrow> (nat \<times> string) option"
where
  "read_number radix limit allow_zero_prefix bound s =
     (case number_loop radix limit bound s 0 0 of
        None \<Rightarrow> None
      | Some (r, k, rest) \<Rightarrow>
          (if k = 0 then None
           else if \<not> allow_zero_prefix \<and> hd s = CHR ''0'' \<and> 1 < k then None
           else if r < bound then Some (r, rest) else None))"

definition read_char :: "char \<Rightarrow> string \<Rightarrow> string option" where
  "read_char c s = (case s of x # xs \<Rightarrow> if x = c then Some xs else None | [] \<Rightarrow> None)"

section \<open>IPv4\<close>

definition octets4 :: "u32 \<Rightarrow> u8 list" where
  "octets4 i = be32 i"

definition show_ipv4 :: "u32 \<Rightarrow> string" where
  "show_ipv4 i =
     (case octets4 i of
        [a, b, c, d] \<Rightarrow>
          show_number 10 (unat a) @ ''.'' @ show_number 10 (unat b) @ ''.'' @
          show_number 10 (unat c) @ ''.'' @ show_number 10 (unat d)
      | _ \<Rightarrow> [])"

definition read_octet :: "string \<Rightarrow> (u8 \<times> string) option" where
  "read_octet s = map_option (\<lambda>(n, r). (of_nat n, r)) (read_number 10 (Some 3) False 256 s)"

definition read_ipv4 :: "string \<Rightarrow> (u32 \<times> string) option" where
  "read_ipv4 s =
     Option.bind (read_octet s) (\<lambda>(a, s).
     Option.bind (read_char CHR ''.'' s) (\<lambda>s.
     Option.bind (read_octet s) (\<lambda>(b, s).
     Option.bind (read_char CHR ''.'' s) (\<lambda>s.
     Option.bind (read_octet s) (\<lambda>(c, s).
     Option.bind (read_char CHR ''.'' s) (\<lambda>s.
     Option.bind (read_octet s) (\<lambda>(d, s).
     Some (of_be32 a b c d, s))))))))"

section \<open>IPv6\<close>

definition segments :: "u128 \<Rightarrow> u16 list" where
  "segments i = map (\<lambda>k. ucast (drop_bit (16 * k) i)) (rev [0..<8])"

definition of_segments :: "u16 list \<Rightarrow> u128" where
  "of_segments ss = foldl (\<lambda>acc s. push_bit 16 acc OR ucast s) 0 ss"

text \<open>The longest run of zero groups, the first of several, as start and length.\<close>

fun longest_zeros :: "u16 list \<Rightarrow> nat \<Rightarrow> nat \<times> nat \<Rightarrow> nat \<times> nat \<Rightarrow> nat \<times> nat" where
  "longest_zeros [] i current longest = longest"
| "longest_zeros (s # ss) i current longest =
     (if s = 0 then
        (let cur = (if snd current = 0 then (i, 1) else (fst current, snd current + 1))
         in longest_zeros ss (i + 1) cur (if snd longest < snd cur then cur else longest))
      else longest_zeros ss (i + 1) (0, 0) longest)"

fun show_groups :: "u16 list \<Rightarrow> string" where
  "show_groups [] = []"
| "show_groups [s] = show_number 16 (unat s)"
| "show_groups (s # ss) = show_number 16 (unat s) @ '':'' @ show_groups ss"

definition show_ipv6 :: "u128 \<Rightarrow> string" where
  "show_ipv6 i =
     (let ss = segments i
      in if take 6 ss = [0, 0, 0, 0, 0, 0xFFFF]
         then ''::ffff:'' @ show_ipv4 (ucast i)
         else case longest_zeros ss 0 (0, 0) (0, 0) of
                (start, n) \<Rightarrow>
                  (if 1 < n
                   then show_groups (take start ss) @ ''::'' @ show_groups (drop (start + n) ss)
                   else show_groups ss))"

text \<open>
  \<open>read_groups\<close>: group \<open>i\<close> of at most \<open>limit\<close>, each behind a colon but the first; where two
  groups are left, an embedded IPv4 address may stand for them.
\<close>

definition read_sep :: "nat \<Rightarrow> string \<Rightarrow> string option" where
  "read_sep i s = (if 0 < i then read_char CHR '':'' s else Some s)"

function read_groups :: "nat \<Rightarrow> nat \<Rightarrow> string \<Rightarrow> u16 list \<times> bool \<times> string" where
  "read_groups i limit s =
     (if limit \<le> i then ([], False, s)
      else case (if i + 1 < limit then Option.bind (read_sep i s) read_ipv4 else None) of
             Some (v4, rest) \<Rightarrow> ([ucast (drop_bit 16 v4), ucast v4], True, rest)
           | None \<Rightarrow>
               (case Option.bind (read_sep i s) (read_number 16 (Some 4) True 65536) of
                  None \<Rightarrow> ([], False, s)
                | Some (g, rest) \<Rightarrow>
                    (case read_groups (i + 1) limit rest of
                       (gs, v4, rest') \<Rightarrow> (of_nat g # gs, v4, rest'))))"
  by pat_completeness auto
termination
  by (relation "measure (\<lambda>(i, limit, s). limit - i)") auto

declare read_groups.simps [simp del]

definition read_ipv6 :: "string \<Rightarrow> (u128 \<times> string) option" where
  "read_ipv6 s =
     (case read_groups 0 8 s of
        (head, v4, s1) \<Rightarrow>
          (if length head = 8 then Some (of_segments head, s1)
           else if v4 then None
           else Option.bind (read_char CHR '':'' s1) (\<lambda>s2.
                Option.bind (read_char CHR '':'' s2) (\<lambda>s3.
                (case read_groups 0 (8 - (length head + 1)) s3 of
                   (tail, _, s4) \<Rightarrow>
                     Some (of_segments (head @ replicate (8 - length head - length tail) 0 @ tail), s4))))))"

section \<open>Socket addresses\<close>

definition read_port :: "string \<Rightarrow> (u16 \<times> string) option" where
  "read_port s =
     Option.bind (read_char CHR '':'' s) (\<lambda>s.
     map_option (\<lambda>(n, r). (of_nat n, r)) (read_number 10 None True 65536 s))"

definition read_scope_id :: "string \<Rightarrow> (u32 \<times> string) option" where
  "read_scope_id s =
     Option.bind (read_char CHR ''%'' s) (\<lambda>s.
     map_option (\<lambda>(n, r). (of_nat n, r)) (read_number 10 None True (2 ^ 32) s))"

definition read_socket_addr_v4 :: "string \<Rightarrow> (sockaddr \<times> string) option" where
  "read_socket_addr_v4 s =
     Option.bind (read_ipv4 s) (\<lambda>(i, s).
     Option.bind (read_port s) (\<lambda>(p, s). Some (V4 i p, s)))"

definition read_socket_addr_v6 :: "string \<Rightarrow> (sockaddr \<times> string) option" where
  "read_socket_addr_v6 s =
     Option.bind (read_char CHR ''['' s) (\<lambda>s.
     Option.bind (read_ipv6 s) (\<lambda>(i, s).
     (case (case read_scope_id s of Some (z, r) \<Rightarrow> (z, r) | None \<Rightarrow> (0, s)) of
        (scope, s) \<Rightarrow>
          Option.bind (read_char CHR '']'' s) (\<lambda>s.
          Option.bind (read_port s) (\<lambda>(p, s). Some (V6 i p 0 scope, s))))))"

definition parse_sockaddr :: "string \<Rightarrow> sockaddr option" where
  "parse_sockaddr s =
     (case (case read_socket_addr_v4 s of Some r \<Rightarrow> Some r | None \<Rightarrow> read_socket_addr_v6 s) of
        Some (a, []) \<Rightarrow> Some a
      | _ \<Rightarrow> None)"

fun show_sockaddr :: "sockaddr \<Rightarrow> string" where
  "show_sockaddr (V4 i p) = show_ipv4 i @ '':'' @ show_number 10 (unat p)"
| "show_sockaddr (V6 i p f z) =
     ''['' @ show_ipv6 i @ (if z = 0 then [] else ''%'' @ show_number 10 (unat z))
       @ '']:'' @ show_number 10 (unat p)"

section \<open>Numbers come back\<close>

abbreviation number_of :: "nat \<Rightarrow> nat \<Rightarrow> nat list \<Rightarrow> nat" where
  "number_of b \<equiv> foldl (\<lambda>r d. r * b + d)"

lemma number_of_digits: "2 \<le> b \<Longrightarrow> number_of b 0 (digits b n) = n"
  by (induction b n rule: digits.induct) (subst digits.simps, auto)

lemma digits_less: "2 \<le> b \<Longrightarrow> d \<in> set (digits b n) \<Longrightarrow> d < b"
  by (induction b n rule: digits.induct) (subst (asm) (2) digits.simps, auto split: if_splits)

lemma digits_nonempty [simp]: "digits b n \<noteq> []"
  by (subst digits.simps) auto

lemma digits_length: "2 \<le> b \<Longrightarrow> 0 < k \<Longrightarrow> n < b ^ k \<Longrightarrow> length (digits b n) \<le> k"
proof (induction b n arbitrary: k rule: digits.induct)
  case (1 b n)
  show ?case
  proof (cases "n < b")
    case True
    with 1 show ?thesis by (subst digits.simps) auto
  next
    case False
    with 1 have "1 < k" by (cases k; cases "k - 1") auto
    then obtain j where k: "k = Suc j" "0 < j" by (cases k) auto
    with 1(4) have "n div b < b ^ j" by (simp add: less_mult_imp_div_less mult.commute)
    with 1(1) [of j] 1(2) False k show ?thesis by (subst digits.simps) auto
  qed
qed

lemma digits_hd: "2 \<le> b \<Longrightarrow> hd (digits b n) = 0 \<Longrightarrow> length (digits b n) = 1"
proof (induction b n rule: digits.induct)
  case (1 b n)
  show ?case
  proof (cases "n < b")
    case True
    then show ?thesis by (subst digits.simps) simp
  next
    case False
    with 1(2) have d: "digits b n = digits b (n div b) @ [n mod b]" by (subst digits.simps) auto
    with 1(3) have "hd (digits b (n div b)) = 0" by simp
    with 1(1,2) False have "length (digits b (n div b)) = 1" by auto
    with \<open>hd (digits b (n div b)) = 0\<close> have "digits b (n div b) = [0]" by (cases "digits b (n div b)") auto
    with number_of_digits [OF 1(2), of "n div b"] have "n div b = 0" by simp
    with False 1(2) show ?thesis by (simp add: div_eq_0_iff)
  qed
qed

lemma to_digit_char: "d < b \<Longrightarrow> b \<le> 16 \<Longrightarrow> to_digit b (digit_char d) = Some d"
  by (auto simp: to_digit_def digit_char_def Let_def)

lemma digit_char_zero: "d < 16 \<Longrightarrow> digit_char d = CHR ''0'' \<longleftrightarrow> d = 0"
proof
  assume "d < 16" "digit_char d = CHR ''0''"
  then have "Some d = to_digit 16 (CHR ''0'')" using to_digit_char [of d 16] by simp
  also have "\<dots> = Some 0" by (simp add: to_digit_def)
  finally show "d = 0" by simp
qed (simp add: digit_char_def char_of_def bit_Suc_0_iff)

lemma number_of_mono: "2 \<le> b \<Longrightarrow> r \<le> number_of b r ds"
proof (induction ds arbitrary: r)
  case (Cons d ds)
  have "r \<le> r * b + d" using Cons.prems by (simp add: trans_le_add1)
  also have "\<dots> \<le> number_of b (r * b + d) ds" using Cons by blast
  finally show ?case by simp
qed simp

definition no_digit :: "nat \<Rightarrow> string \<Rightarrow> bool" where
  "no_digit b rest \<longleftrightarrow> (case rest of [] \<Rightarrow> True | c # _ \<Rightarrow> to_digit b c = None)"

lemma number_loop_digits:
  assumes "2 \<le> b" "b \<le> 16" "\<forall>d\<in>set ds. d < b" "no_digit b rest"
    and "case limit of Some m \<Rightarrow> k + length ds \<le> m | None \<Rightarrow> number_of b r ds < bound"
  shows "number_loop b limit bound (map digit_char ds @ rest) r k
    = Some (number_of b r ds, k + length ds, rest)"
  using assms(3,5)
proof (induction ds arbitrary: r k)
  case Nil
  with assms(4) show ?case by (cases rest) (auto simp: no_digit_def)
next
  case (Cons d ds)
  have "number_of b (r * b + d) ds < bound \<Longrightarrow> r * b + d < bound"
    using number_of_mono [OF assms(1), of "r * b + d" ds] by linarith
  with Cons to_digit_char [of d b] assms(2) show ?case by (auto split: option.splits)
qed

lemma read_show_number:
  assumes "2 \<le> b" "b \<le> 16" "n < bound" "no_digit b rest"
    and "case limit of Some m \<Rightarrow> n < b ^ m \<and> 0 < m | None \<Rightarrow> True"
  shows "read_number b limit z bound (show_number b n @ rest) = Some (n, rest)"
proof -
  have l: "number_loop b limit bound (show_number b n @ rest) 0 0
      = Some (n, length (digits b n), rest)"
    unfolding show_number_def
    using number_loop_digits [where ds = "digits b n" and k = 0 and r = 0, OF assms(1,2)] assms digits_length [OF assms(1)]
      digits_less [OF assms(1), of _ n] number_of_digits [OF assms(1), of n]
    by (auto split: option.splits)
  have "hd (show_number b n @ rest) = digit_char (hd (digits b n))"
    by (simp add: show_number_def hd_map)
  moreover have "hd (digits b n) < 16"
    using digits_less [OF assms(1), of "hd (digits b n)" n] assms(2) by simp
  ultimately have "hd (show_number b n @ rest) = CHR ''0'' \<Longrightarrow> length (digits b n) = 1"
    using digits_hd [OF assms(1), of n] by (simp add: digit_char_zero)
  with l assms(3) show ?thesis by (auto simp: read_number_def)
qed

lemma no_digit_simps [simp]:
  "no_digit b []" "b \<le> 16 \<Longrightarrow> no_digit b (CHR ''.'' # s)" "b \<le> 16 \<Longrightarrow> no_digit b (CHR '':'' # s)"
  "b \<le> 16 \<Longrightarrow> no_digit b (CHR '']'' # s)" "b \<le> 16 \<Longrightarrow> no_digit b (CHR ''%'' # s)"
  by (auto simp: no_digit_def to_digit_def)

lemma read_char_simps [simp]: "read_char c (c # s) = Some s" "d \<noteq> c \<Longrightarrow> read_char c (d # s) = None"
  "read_char c [] = None"
  by (auto simp: read_char_def)

section \<open>IPv4 addresses come back\<close>

lemma read_octet_show: "no_digit 10 rest \<Longrightarrow> read_octet (show_number 10 (unat a) @ rest) = Some (a, rest)"
  using read_show_number [of 10 "unat a" 256 rest "Some 3" False] unsigned_less [of a, where ?'a = nat]
  by (simp add: read_octet_def)

lemma read_show_ipv4:
  assumes "no_digit 10 rest"
  shows "read_ipv4 (show_ipv4 i @ rest) = Some (i, rest)"
proof -
  obtain a b c d where o: "octets4 i = [a, b, c, d]" by (simp add: octets4_def be32_def)
  then have "of_be32 a b c d = i" by (auto simp: octets4_def be32_def codec_simps)
  with o assms show ?thesis by (simp add: read_ipv4_def show_ipv4_def read_octet_show)
qed

lemma read_show_port:
  "no_digit 10 rest \<Longrightarrow> read_port (CHR '':'' # show_number 10 (unat p) @ rest) = Some (p, rest)"
  using read_show_number [of 10 "unat p" 65536 rest None True] unsigned_less [of p, where ?'a = nat]
  by (simp add: read_port_def)

lemma parse_show_v4: "parse_sockaddr (show_sockaddr (V4 i p)) = Some (V4 i p)"
proof -
  have "read_socket_addr_v4 (show_ipv4 i @ CHR '':'' # show_number 10 (unat p) @ []) = Some (V4 i p, [])"
    using read_show_port [of "[]" p]
    by (simp only: read_socket_addr_v4_def read_show_ipv4 no_digit_simps) simp
  then show ?thesis by (simp add: parse_sockaddr_def)
qed

section \<open>IPv6 addresses come back\<close>

lemma read_number_no_digit: "no_digit b s \<Longrightarrow> read_number b limit z bound s = None"
  by (cases s) (auto simp: read_number_def no_digit_def)

lemma no_digit_16_10: "no_digit 16 s \<Longrightarrow> no_digit 10 s"
  by (auto simp: no_digit_def to_digit_def Let_def split: list.splits if_splits)

lemma number_loop_suffix:
  assumes "number_loop b limit bound (xs @ ys) r k = Some (r', k', rest)" and "no_digit b ys"
  shows "\<exists>zs. rest = zs @ ys \<and> set zs \<subseteq> set xs"
  using assms(1)
proof (induction xs arbitrary: r k)
  case Nil
  with assms(2) show ?case by (cases ys) (auto simp: no_digit_def)
next
  case (Cons x xs)
  show ?case
  proof (cases "to_digit b x")
    case None
    with Cons.prems show ?thesis by (intro exI [of _ "x # xs"]) auto
  next
    case (Some d)
    with Cons.prems obtain r1 k1 where "number_loop b limit bound (xs @ ys) r1 k1 = Some (r', k', rest)"
      by (auto split: option.splits if_splits)
    from Cons.IH [OF this] show ?thesis by auto
  qed
qed

lemma hex_chars_no_dot: "CHR ''.'' \<notin> set (show_number 16 n)"
proof -
  have "digit_char d \<noteq> CHR ''.''" if "d < 16" for d
  proof
    assume "digit_char d = CHR ''.''"
    with that to_digit_char [of d 16] show False by (simp add: to_digit_def)
  qed
  with digits_less [of 16] show ?thesis by (force simp: show_number_def)
qed

definition no_dot :: "string \<Rightarrow> bool" where
  "no_dot s \<longleftrightarrow> read_char CHR ''.'' s = None"

lemma read_ipv4_group:
  assumes "no_digit 16 rest" and "no_dot rest"
  shows "read_ipv4 (show_number 16 n @ rest) = None"
proof (cases "read_octet (show_number 16 n @ rest)")
  case (Some x)
  obtain a s where x: "x = (a, s)" by (cases x)
  with Some obtain r k where
    "number_loop 10 (Some 3) 256 (show_number 16 n @ rest) 0 0 = Some (r, k, s)"
    by (auto simp: read_octet_def read_number_def split: option.splits if_splits)
  from number_loop_suffix [OF this no_digit_16_10 [OF assms(1)]] obtain zs
    where "s = zs @ rest" "set zs \<subseteq> set (show_number 16 n)" by blast
  with hex_chars_no_dot [of n] assms(2) have "read_char CHR ''.'' s = None"
    by (cases zs) (auto simp: no_dot_def read_char_def)
  with Some x show ?thesis by (simp add: read_ipv4_def)
qed (simp add: read_ipv4_def)

lemma read_ipv4_no_digit: "no_digit 16 s \<Longrightarrow> read_ipv4 s = None"
  by (simp add: read_ipv4_def read_octet_def read_number_no_digit no_digit_16_10)

text \<open>Where the reader of groups stops.\<close>

definition stops :: "string \<Rightarrow> bool" where
  "stops s \<longleftrightarrow> no_digit 16 s \<and> no_dot s \<and>
     (case s of c # r \<Rightarrow> c = CHR '':'' \<longrightarrow> no_digit 16 r | [] \<Rightarrow> True)"

lemma stops_simps [simp]:
  "stops (CHR '']'' # s)" "stops (CHR ''%'' # s)" "stops (CHR '':'' # CHR '':'' # s)"
  by (auto simp: stops_def no_dot_def)

lemma read_groups_stop:
  assumes "stops s"
  shows "read_groups i limit s = ([], False, s)"
proof -
  have "Option.bind (read_sep i s) read_ipv4 = None"
    and "Option.bind (read_sep i s) (read_number 16 (Some 4) True 65536) = None"
    using assms
    by (cases s; auto simp: stops_def read_sep_def read_ipv4_no_digit read_number_no_digit read_char_def)+
  then show ?thesis by (subst read_groups.simps) simp
qed

definition sep :: "nat \<Rightarrow> string" where
  "sep i = (if 0 < i then '':'' else [])"

lemma read_sep_sep [simp]: "read_sep i (sep i @ s) = Some s"
  by (simp add: read_sep_def sep_def)

lemma read_group:
  assumes "i < limit" and "no_digit 16 rest" and "no_dot rest"
    and "read_groups (i + 1) limit rest = (gs, v4, rest')"
  shows "read_groups i limit (sep i @ show_number 16 (unat (s :: u16)) @ rest) = (s # gs, v4, rest')"
  using assms read_show_number [of 16 "unat s" 65536 rest "Some 4" True] unsigned_less [of s, where ?'a = nat]
  by (subst read_groups.simps) (simp add: read_ipv4_group)

lemma read_show_groups:
  assumes "i + length ss \<le> limit" and "stops rest" and "ss = [] \<longrightarrow> i = 0"
  shows "read_groups i limit (sep i @ show_groups ss @ rest) = (ss, False, rest)"
  using assms(1,3)
proof (induction ss arbitrary: i rule: show_groups.induct)
  case 1
  with assms(2) show ?case by (simp add: read_groups_stop sep_def)
next
  case (2 s)
  with read_group [OF _ _ _ read_groups_stop [OF assms(2)], of i limit s] assms(2)
  show ?case by (simp add: stops_def)
next
  case (3 s t ss)
  let ?rest = "sep (i + 1) @ show_groups (t # ss) @ rest"
  from 3 have "read_groups (i + 1) limit ?rest = (t # ss, False, rest)" by simp
  from read_group [OF _ _ _ this, of s] 3(2) show ?case by (simp add: sep_def no_dot_def)
qed

text \<open>The longest run of zeros is a run of zeros.\<close>

definition zero_run :: "u16 list \<Rightarrow> nat \<times> nat \<Rightarrow> bool" where
  "zero_run ss r \<longleftrightarrow> fst r + snd r \<le> length ss \<and> take (snd r) (drop (fst r) ss) = replicate (snd r) 0"

lemma zero_run_append: "zero_run xs r \<Longrightarrow> zero_run (xs @ ys) r"
  by (auto simp: zero_run_def)

lemma longest_zeros_run:
  assumes "i = length pre" and "zero_run (pre @ ss) longest"
    and "zero_run pre current" and "snd current \<noteq> 0 \<longrightarrow> fst current + snd current = i"
  shows "zero_run (pre @ ss) (longest_zeros ss i current longest)"
  using assms
proof (induction ss i current longest arbitrary: pre rule: longest_zeros.induct)
  case (1 i current longest)
  then show ?case by simp
next
  case (2 s ss i current longest)
  show ?case
  proof (cases "s = 0")
    case False
    with 2(2)[of "pre @ [s]"] 2(3-) show ?thesis by (simp add: zero_run_def)
  next
    case True
    define cur where "cur = (if snd current = 0 then (i, 1) else (fst current, snd current + 1))"
    have c: "zero_run (pre @ [s]) cur" "fst cur + snd cur = i + 1"
      using 2(3,5,6) True by (auto simp: cur_def zero_run_def replicate_append_same)
    then have "zero_run ((pre @ [s]) @ ss) cur" by (intro zero_run_append [of "pre @ [s]"])
    then have "zero_run ((pre @ [s]) @ ss) (if snd longest < snd cur then cur else longest)"
      using 2(4) by simp
    with 2(1) [OF True cur_def, of "pre @ [s]"] c 2(3)
    have "zero_run ((pre @ [s]) @ ss) (longest_zeros ss (i + 1) cur (if snd longest < snd cur then cur else longest))"
      by simp
    moreover have "longest_zeros (s # ss) i current longest
        = longest_zeros ss (i + 1) cur (if snd longest < snd cur then cur else longest)"
      using True by (simp add: cur_def Let_def)
    ultimately show ?thesis by simp
  qed
qed

lemma zero_run_split:
  assumes "zero_run ss (start, n)"
  shows "ss = take start ss @ replicate n 0 @ drop (start + n) ss"
proof -
  have "ss = take start ss @ take n (drop start ss) @ drop n (drop start ss)"
    by (simp only: append_take_drop_id)
  with assms show ?thesis by (simp add: zero_run_def add.commute)
qed

lemma segments_eq:
  "segments i = [ucast (drop_bit 112 i), ucast (drop_bit 96 i), ucast (drop_bit 80 i), ucast (drop_bit 64 i),
     ucast (drop_bit 48 i), ucast (drop_bit 32 i), ucast (drop_bit 16 i), ucast i]"
  by (simp add: segments_def upt_rec)

lemma length_segments [simp]: "length (segments i) = 8"
  by (simp add: segments_def)

lemma of_segments_segments: "of_segments (segments i) = i"
proof (rule bit_word_eqI)
  fix n assume "n < LENGTH(128)"
  then consider "n < 16" | "16 \<le> n \<and> n < 32" | "32 \<le> n \<and> n < 48" | "48 \<le> n \<and> n < 64"
    | "64 \<le> n \<and> n < 80" | "80 \<le> n \<and> n < 96" | "96 \<le> n \<and> n < 112" | "112 \<le> n \<and> n < 128"
    by force
  then show "bit (of_segments (segments i)) n \<longleftrightarrow> bit i n"
    by cases (auto simp: of_segments_def segments_eq bit_simps)
qed

lemma read_ipv6_compressed:
  assumes "ss = hs @ replicate n 0 @ ts" and "length ss = 8" and "1 < n" and "stops rest"
    and "read_groups 0 (8 - (length hs + 1)) (t @ rest) = (ts, v4, rest)"
  shows "read_ipv6 (show_groups hs @ ''::'' @ t @ rest) = Some (of_segments ss, rest)"
proof -
  have "stops (''::'' @ t @ rest)" by simp
  from read_show_groups [of 0 hs 8, OF _ this] assms(1-3)
  have "read_groups 0 8 (show_groups hs @ ''::'' @ t @ rest) = (hs, False, ''::'' @ t @ rest)"
    by (simp add: sep_def)
  moreover have "8 - length hs - length ts = n" "length hs \<noteq> 8" using assms(1-3) by auto
  ultimately show ?thesis using assms by (simp add: read_ipv6_def)
qed

lemma read_show_ipv6:
  assumes "stops rest"
  shows "read_ipv6 (show_ipv6 i @ rest) = Some (i, rest)"
proof -
  let ?ss = "segments i"
  obtain start n where z: "longest_zeros ?ss 0 (0, 0) (0, 0) = (start, n)" by fastforce
  consider (mapped) "take 6 ?ss = [0, 0, 0, 0, 0, 0xFFFF]"
    | (zeros) "take 6 ?ss \<noteq> [0, 0, 0, 0, 0, 0xFFFF]" "1 < n"
    | (full) "take 6 ?ss \<noteq> [0, 0, 0, 0, 0, 0xFFFF]" "\<not> 1 < n" by blast
  then show ?thesis
  proof cases
    case mapped
    define v4 :: u32 where "v4 = ucast i"
    have low: "ucast (drop_bit 16 v4) = (ucast (drop_bit 16 i) :: u16)" "ucast v4 = (ucast i :: u16)"
      by (auto simp: v4_def bit_simps intro!: bit_word_eqI)
    have ip: "read_ipv4 (show_ipv4 v4 @ rest) = Some (v4, rest)"
      using read_show_ipv4 [OF no_digit_16_10] assms by (simp add: stops_def)
    have "read_groups 1 7 (sep 1 @ show_ipv4 v4 @ rest)
        = ([ucast (drop_bit 16 i), ucast i], True, rest)"
      by (subst read_groups.simps) (simp add: ip low)
    moreover have "sep 0 @ show_number 16 (unat (0xFFFF :: u16)) @ sep 1 @ s = ''ffff:'' @ s" for s
      by (simp add: sep_def show_number_def digits.simps digit_char_def char_of_def bit_Suc_0_iff)
    ultimately have g: "read_groups 0 7 (''ffff:'' @ show_ipv4 v4 @ rest)
        = ([0xFFFF, ucast (drop_bit 16 i), ucast i], True, rest)"
      using read_group [of 0 7 "sep 1 @ show_ipv4 v4 @ rest" _ _ _ "0xFFFF"]
      by (simp add: sep_def no_dot_def)
    have "?ss = [] @ replicate 5 0 @ [0xFFFF, ucast (drop_bit 16 i), ucast i]"
      using mapped by (simp add: segments_eq numeral_eq_Suc)
    from read_ipv6_compressed [OF this _ _ assms, of "''ffff:'' @ show_ipv4 v4" True] g mapped
    show ?thesis by (simp add: show_ipv6_def of_segments_segments v4_def Let_def)
  next
    case zeros
    have "zero_run ?ss (start, n)"
      using longest_zeros_run [of 0 "[]" ?ss "(0, 0)" "(0, 0)"] z by (simp add: zero_run_def)
    note split = zero_run_split [OF this]
    have l: "start + n \<le> 8" using \<open>zero_run ?ss (start, n)\<close> by (simp add: zero_run_def)
    have "read_groups 0 (8 - (length (take start ?ss) + 1)) (show_groups (drop (start + n) ?ss) @ rest)
        = (drop (start + n) ?ss, False, rest)"
      using read_show_groups [of 0 "drop (start + n) ?ss" "8 - (length (take start ?ss) + 1)" rest]
        assms zeros(2) l by (simp add: sep_def)
    from read_ipv6_compressed [OF split _ zeros(2) assms this] zeros z show ?thesis
      by (simp add: show_ipv6_def of_segments_segments Let_def)
  next
    case full
    with z have "show_ipv6 i = show_groups ?ss" by (simp add: show_ipv6_def Let_def)
    moreover have "read_groups 0 8 (show_groups ?ss @ rest) = (?ss, False, rest)"
      using read_show_groups [of 0 ?ss 8 rest] assms by (simp add: sep_def)
    ultimately show ?thesis by (simp add: read_ipv6_def of_segments_segments)
  qed
qed

lemma read_show_scope:
  "(case read_scope_id ((if z = 0 then [] else ''%'' @ show_number 10 (unat z)) @ '']'' @ s) of
      Some (z', r) \<Rightarrow> (z', r)
    | None \<Rightarrow> (0, (if z = 0 then [] else ''%'' @ show_number 10 (unat z)) @ '']'' @ s))
    = (z, '']'' @ s)"
  using read_show_number [of 10 "unat z" "2 ^ 32" "'']'' @ s" None True]
    unsigned_less [of z, where ?'a = nat]
  by (simp add: read_scope_id_def)

text \<open>The text of an address is parsed to the address, except that the flow info of an IPv6
  address, which the text leaves out, comes back as 0.\<close>

fun no_flowinfo :: "sockaddr \<Rightarrow> sockaddr" where
  "no_flowinfo (V4 i p) = V4 i p"
| "no_flowinfo (V6 i p f z) = V6 i p 0 z"

lemma parse_show_v6: "parse_sockaddr (show_sockaddr (V6 i p f z)) = Some (V6 i p 0 z)"
proof -
  let ?tail = "(if z = 0 then [] else ''%'' @ show_number 10 (unat z)) @ '']'' @ CHR '':'' # show_number 10 (unat p) @ []"
  have "stops ?tail" by simp
  then have "read_socket_addr_v6 (CHR ''['' # show_ipv6 i @ ?tail) = Some (V6 i p 0 z, [])"
    using read_show_scope [of z "CHR '':'' # show_number 10 (unat p) @ []"] read_show_port [of "[]" p]
    by (simp only: read_socket_addr_v6_def read_show_ipv6 read_char_simps Option.bind.simps
        prod.case append_Cons append_Nil no_digit_simps)
  moreover have "read_socket_addr_v4 (CHR ''['' # s) = None" for s
    by (simp add: read_socket_addr_v4_def read_ipv4_def read_octet_def read_number_no_digit
        no_digit_def to_digit_def)
  ultimately show ?thesis by (simp add: parse_sockaddr_def del: append_assoc)
qed

lemma parse_show_sockaddr: "parse_sockaddr (show_sockaddr a) = Some (no_flowinfo a)"
  by (cases a) (simp_all only: parse_show_v4 parse_show_v6 no_flowinfo.simps)

end
