(* ===== verification/TurnRouter.thy ===== *)
theory TurnRouter
  imports TurnShard AddrText
begin

text \<open>
  The shard router and the control plane of the relay (\<open>turn_server/src/lib.rs\<close>): the producing
  ends of the shards' queues, the map from endpoints to shards, the round-robin cursor, the
  handling of control messages in the ring loop, and the gRPC service that sends them.
\<close>

section \<open>The router\<close>

record 'q ShardRouter =
  senders :: "'q list"
  endpoint_to_shard :: "sockaddr \<rightharpoonup> nat"
  next_shard :: nat

definition ShardRouter_new :: "'q list \<Rightarrow> 'q ShardRouter" where
  "ShardRouter_new qs = \<lparr>senders = qs, endpoint_to_shard = Map.empty, next_shard = 0\<rparr>"

text \<open>\<open>senders[i].enqueue(msg)\<close>, whose refusal is only logged or ignored.\<close>

definition enqueue_at ::
  "('q, MessageType) queue_ops \<Rightarrow> nat \<Rightarrow> MessageType \<Rightarrow> 'q ShardRouter \<Rightarrow> turn_panic + 'q ShardRouter"
where
  "enqueue_at Q i msg r =
     (if i < length (senders r)
      then Inr (r\<lparr>senders := (senders r)[i := fst (q_enqueue Q msg (senders r ! i))]\<rparr>)
      else Inl IndexOutOfBounds)"

definition route ::
  "('q, MessageType) queue_ops \<Rightarrow> RelayPacket \<Rightarrow> 'q ShardRouter \<Rightarrow> turn_panic + 'q ShardRouter"
where
  "route Q p r =
     (case endpoint_to_shard r (src p) of
        None \<Rightarrow> Inr r
      | Some i \<Rightarrow> enqueue_at Q i (Transmit p) r)"

text \<open>\<open>next_shard\<close>: the cursor and its successor modulo the number of shards. The cursor stays
  below that number, so the sum does not overflow a \<open>usize\<close>.\<close>

definition take_next_shard :: "'q ShardRouter \<Rightarrow> turn_panic + nat \<times> 'q ShardRouter" where
  "take_next_shard r =
     (if senders r = [] then Inl RemainderByZero
      else Inr (next_shard r, r\<lparr>next_shard := (next_shard r + 1) mod length (senders r)\<rparr>))"

text \<open>
  \<open>shard_for\<close>: the hash of the two addresses in ascending order. The hasher of the \<open>ahash\<close> crate
  is the argument \<open>finish\<close>: the value it has after hashing the given addresses.
\<close>

definition shard_for ::
  "(sockaddr list \<Rightarrow> u64) \<Rightarrow> sockaddr \<Rightarrow> sockaddr \<Rightarrow> 'q ShardRouter \<Rightarrow> turn_panic + nat"
where
  "shard_for finish host peer r =
     (let h = (if host \<le> peer then finish [host, peer] else finish [peer, host])
      in if senders r = [] then Inl RemainderByZero
         else Inr (unat h mod length (senders r)))"

section \<open>Control messages\<close>

text \<open>The ring loop's treatment of one control message: register the session with the shard
  whose turn it is.\<close>

fun control_message ::
  "('q, MessageType) queue_ops \<Rightarrow> MessageType \<Rightarrow> 'q ShardRouter \<Rightarrow> turn_panic + 'q ShardRouter"
where
  "control_message Q (AddSession s) r =
     and_then (take_next_shard r) (\<lambda>(shard, r).
     and_then (enqueue_at Q shard (AddSession s) r) (\<lambda>r.
     Inr (r\<lparr>endpoint_to_shard :=
              (endpoint_to_shard r)(host_addr s \<mapsto> shard, peer_addr s \<mapsto> shard)\<rparr>)))"
| "control_message Q (Transmit p) r = Inr r"

text \<open>\<open>while let Ok(msg) = controller_rx.try_recv()\<close>: all messages that are there.\<close>

fun control_messages ::
  "('q, MessageType) queue_ops \<Rightarrow> MessageType list \<Rightarrow> 'q ShardRouter \<Rightarrow> turn_panic + 'q ShardRouter"
where
  "control_messages Q [] r = Inr r"
| "control_messages Q (m # ms) r = and_then (control_message Q m r) (control_messages Q ms)"

section \<open>The gRPC service\<close>

record CreateSessionRequest =
  req_host_addr :: string
  req_peer_addr :: string

datatype CreateSessionResponse = CreateSessionResponse (success: bool)

datatype Status = InvalidArgument string

definition addr_parse_error :: string where
  "addr_parse_error = ''invalid socket address syntax''"

definition parse_argument :: "string \<Rightarrow> Status + sockaddr" where
  "parse_argument s =
     (case parse_sockaddr s of None \<Rightarrow> Inl (InvalidArgument addr_parse_error) | Some a \<Rightarrow> Inr a)"

text \<open>
  \<open>create_session\<close> with the state of the control channel: \<open>None\<close> when the loop has dropped its
  end. \<open>send().await\<close> waits for room, so the call is given a channel with room (\<open>Waiting\<close>
  otherwise); its error is discarded.
\<close>

datatype 'c control_call = Waiting | Returned "'c option" "Status + CreateSessionResponse"

definition create_session ::
  "('c, MessageType) queue_ops \<Rightarrow> CreateSessionRequest \<Rightarrow> 'c option \<Rightarrow> 'c control_call"
where
  "create_session C req control_tx =
     (case and_then (parse_argument (req_host_addr req)) (\<lambda>h.
           and_then (parse_argument (req_peer_addr req)) (\<lambda>p.
           Inr \<lparr>host_addr = h, peer_addr = p\<rparr>)) of
        Inl e \<Rightarrow> Returned control_tx (Inl e)
      | Inr s \<Rightarrow>
          (case control_tx of
             None \<Rightarrow> Returned None (Inr (CreateSessionResponse True))
           | Some c \<Rightarrow>
               (case q_enqueue C (AddSession s) c of
                  (c', True) \<Rightarrow> Returned (Some c') (Inr (CreateSessionResponse True))
                | (_, False) \<Rightarrow> Waiting)))"

section \<open>Invariant of the router\<close>

definition router_inv :: "'q ShardRouter \<Rightarrow> bool" where
  "router_inv r \<longleftrightarrow> next_shard r < length (senders r) \<and> ran (endpoint_to_shard r) \<subseteq> {..<length (senders r)}"

lemma router_inv_new: "qs \<noteq> [] \<Longrightarrow> router_inv (ShardRouter_new qs)"
  by (simp add: router_inv_def ShardRouter_new_def)

lemma router_inv_endpoint: "router_inv r \<Longrightarrow> endpoint_to_shard r a = Some i \<Longrightarrow> i < length (senders r)"
  by (auto simp: router_inv_def dest: ranI)

lemma route_inv:
  assumes "router_inv r"
  shows "\<exists>r'. route Q p r = Inr r' \<and> router_inv r' \<and> length (senders r') = length (senders r)
    \<and> endpoint_to_shard r' = endpoint_to_shard r \<and> next_shard r' = next_shard r"
  using router_inv_endpoint [OF assms] assms
  by (cases "endpoint_to_shard r (src p)") (auto simp: route_def enqueue_at_def router_inv_def)

text \<open>A registered session, in full.\<close>

lemma control_add_session:
  assumes "router_inv r"
  shows "control_message Q (AddSession s) r = Inr (r\<lparr>
      senders := (senders r)[next_shard r := fst (q_enqueue Q (AddSession s) (senders r ! next_shard r))],
      endpoint_to_shard := (endpoint_to_shard r)(host_addr s \<mapsto> next_shard r, peer_addr s \<mapsto> next_shard r),
      next_shard := (next_shard r + 1) mod length (senders r)\<rparr>)"
  using assms by (auto simp: router_inv_def take_next_shard_def enqueue_at_def)

lemma control_message_inv:
  assumes "router_inv r"
  shows "\<exists>r'. control_message Q m r = Inr r' \<and> router_inv r' \<and> length (senders r') = length (senders r)"
proof (cases m)
  case (AddSession s)
  let ?m = "(endpoint_to_shard r)(host_addr s \<mapsto> next_shard r, peer_addr s \<mapsto> next_shard r)"
  from assms have n: "next_shard r < length (senders r)" by (simp add: router_inv_def)
  have "ran ?m \<subseteq> insert (next_shard r) (ran (endpoint_to_shard r))"
    by (auto simp: ran_def split: if_splits)
  with assms n have m: "ran ?m \<subseteq> {..<length (senders r)}" unfolding router_inv_def by blast
  have "(next_shard r + 1) mod length (senders r) < length (senders r)"
    by (rule mod_less_divisor) (use n in linarith)
  with m show ?thesis
    unfolding AddSession control_add_session [OF assms] by (simp add: router_inv_def)
qed (use assms in simp)

lemma control_messages_inv:
  assumes "router_inv r"
  shows "\<exists>r'. control_messages Q ms r = Inr r' \<and> router_inv r' \<and> length (senders r') = length (senders r)"
  using assms
proof (induction ms arbitrary: r)
  case (Cons m ms)
  from control_message_inv [OF Cons.prems, of Q m] obtain r1
    where "control_message Q m r = Inr r1" "router_inv r1" "length (senders r1) = length (senders r)"
    by blast
  with Cons.IH [of r1] show ?case by auto
qed simp

lemma control_messages_cursor:
  assumes "router_inv r" and "control_messages Q ms r = Inr r'"
  shows "next_shard r' = (next_shard r + length (filter (\<lambda>m. \<exists>s. m = AddSession s) ms)) mod length (senders r)"
  using assms
proof (induction ms arbitrary: r)
  case Nil
  then show ?case by (simp add: router_inv_def)
next
  case (Cons m ms)
  from control_message_inv [OF Cons.prems(1), of Q m] obtain r1
    where r1: "control_message Q m r = Inr r1" "router_inv r1" "length (senders r1) = length (senders r)"
    by blast
  with Cons.prems(2) have c: "control_messages Q ms r1 = Inr r'" by simp
  have "next_shard r1 = (next_shard r + (if \<exists>s. m = AddSession s then 1 else 0)) mod length (senders r)"
  proof (cases m)
    case (AddSession s)
    with r1(1) control_add_session [OF Cons.prems(1), of Q s] show ?thesis by auto
  next
    case (Transmit p)
    with r1(1) Cons.prems(1) show ?thesis by (simp add: router_inv_def)
  qed
  with Cons.IH [OF r1(2) c] r1(3) show ?case by (simp add: mod_add_left_eq add.assoc)
qed

lemma control_messages_append:
  "control_messages Q (xs @ ys) r = and_then (control_messages Q xs r) (control_messages Q ys)"
proof (induction xs arbitrary: r)
  case (Cons x xs)
  then show ?case by (cases "control_message Q x r") auto
qed simp

text \<open>The sessions that fall to shard \<open>i\<close> of \<open>n\<close> when the cursor is at 0.\<close>

definition share :: "nat \<Rightarrow> nat \<Rightarrow> Session list \<Rightarrow> Session list" where
  "share n i ss = map ((!) ss) (filter (\<lambda>k. k mod n = i) [0..<length ss])"

lemma share_snoc: "share n i (ss @ [s]) = share n i ss @ (if length ss mod n = i then [s] else [])"
  by (auto simp: share_def nth_append intro!: map_cong)

lemma length_share: "length (share n i ss) \<le> length ss"
  unfolding share_def by (metis diff_zero length_filter_le length_map length_upt)

text \<open>The queues of the shards, with room for \<open>cap\<close> messages each.\<close>

locale router_queues = bounded_fifo Q msgs cap
  for Q :: "('q, MessageType) queue_ops" and msgs :: "'q \<Rightarrow> MessageType list" and cap :: nat
begin

lemma queue_room: "length (msgs q) < cap \<Longrightarrow> msgs (fst (q_enqueue Q x q)) = msgs q @ [x]"
  using enqueue_contents [of x q] accepts [of x q] by simp

lemma round_robin:
  assumes "qs \<noteq> []" and "\<And>q. q \<in> set qs \<Longrightarrow> msgs q = []" and "length ss \<le> cap"
  shows "\<exists>r. control_messages Q (map AddSession ss) (ShardRouter_new qs) = Inr r \<and> router_inv r
    \<and> length (senders r) = length qs \<and> next_shard r = length ss mod length qs
    \<and> (\<forall>i < length qs. msgs (senders r ! i) = map AddSession (share (length qs) i ss))"
  using assms(3)
proof (induction ss rule: rev_induct)
  case Nil
  then show ?case
    using assms(1,2) router_inv_new [OF assms(1)] by (simp add: ShardRouter_new_def share_def)
next
  case (snoc s ss)
  then obtain r where r: "control_messages Q (map AddSession ss) (ShardRouter_new qs) = Inr r"
      "router_inv r" "length (senders r) = length qs" "next_shard r = length ss mod length qs"
    and share: "\<And>i. i < length qs \<Longrightarrow> msgs (senders r ! i) = map AddSession (share (length qs) i ss)"
    by auto
  let ?k = "length ss mod length qs"
  have k: "?k < length qs" using assms(1) by simp
  have "length (msgs (senders r ! ?k)) < cap"
    using share [OF k] length_share [of "length qs" ?k ss] snoc.prems by simp
  from queue_room [OF this] share [OF k]
  have q: "msgs (fst (q_enqueue Q (AddSession s) (senders r ! ?k)))
      = map AddSession (share (length qs) ?k (ss @ [s]))"
    by (simp add: share_snoc)
  from control_message_inv [OF r(2), of Q "AddSession s"] obtain r'
    where r': "control_message Q (AddSession s) r = Inr r'" "router_inv r'" "length (senders r') = length qs"
    using r(3) by auto
  with control_add_session [OF r(2), of Q s] r(3,4)
  have s: "senders r' = (senders r)[?k := fst (q_enqueue Q (AddSession s) (senders r ! ?k))]"
    "next_shard r' = length (ss @ [s]) mod length qs"
    by (auto simp: mod_Suc_eq)
  have "msgs (senders r' ! i) = map AddSession (share (length qs) i (ss @ [s]))" if "i < length qs" for i
    using that q share [OF that] r(3) by (cases "i = ?k") (auto simp: s share_snoc)
  with r r' s show ?case
    by (intro exI [of _ r']) (simp add: control_messages_append)
qed

end

interpretation list_router: router_queues "list_queue cap" "\<lambda>q. q" cap
  by unfold_locales

lemmas list_router_queues = list_router.router_queues_axioms

section \<open>Properties of the control plane\<close>

text \<open>A request whose two texts are the printed forms of two addresses puts exactly
  their session into the control channel, if it has room, and is answered with success (the
  flow info of an IPv6 address is not part of its printed form).\<close>

lemma create_session_registers:
  assumes "router_queues C msgs cap" and "length (msgs c) < cap"
  shows "\<exists>c'. create_session C \<lparr>req_host_addr = show_sockaddr a, req_peer_addr = show_sockaddr b\<rparr> (Some c)
      = Returned (Some c') (Inr (CreateSessionResponse True))
    \<and> msgs c' = msgs c @ [AddSession \<lparr>host_addr = no_flowinfo a, peer_addr = no_flowinfo b\<rparr>]"
proof -
  let ?m = "AddSession \<lparr>host_addr = no_flowinfo a, peer_addr = no_flowinfo b\<rparr>"
  from assms(1) have "bounded_fifo C msgs cap" by (simp add: router_queues_def)
  with assms(2) have "q_enqueue C ?m c = (fst (q_enqueue C ?m c), True)"
    using bounded_fifo.accepts [of C msgs cap ?m c] by (cases "q_enqueue C ?m c") simp
  with router_queues.queue_room [OF assms, of ?m] show ?thesis
    by (auto simp: create_session_def parse_argument_def parse_show_sockaddr split: prod.splits)
qed

text \<open>Property C34: a request with an unreadable address is refused as an invalid argument and
  registers nothing; every other answer is a success, also when the ring loop, which alone can
  register the session, is gone.\<close>

theorem create_session_answers:
  "(create_session C req tx = Returned tx (Inl (InvalidArgument addr_parse_error))
      \<longleftrightarrow> parse_sockaddr (req_host_addr req) = None \<or> parse_sockaddr (req_peer_addr req) = None)
   \<and> create_session C req None =
      Returned None
        (if parse_sockaddr (req_host_addr req) = None \<or> parse_sockaddr (req_peer_addr req) = None
         then Inl (InvalidArgument addr_parse_error) else Inr (CreateSessionResponse True))"
  by (auto simp: create_session_def parse_argument_def split: option.splits sum.splits prod.splits
      bool.splits)

text \<open>Property C33: sessions are dealt to the shards in turn: after registering a list of sessions
  with \<open>n\<close> shards, shard \<open>i\<close> has in its queue exactly the sessions at the positions congruent
  to \<open>i\<close> modulo \<open>n\<close>, in order, and the cursor is back in range.\<close>

theorem sessions_dealt_in_turn:
  assumes "router_queues Q msgs cap" and "qs \<noteq> []" and "\<forall>q\<in>set qs. msgs q = []" and "length ss \<le> cap"
  shows "\<exists>r. control_messages Q (map AddSession ss) (ShardRouter_new qs) = Inr r
    \<and> next_shard r = length ss mod length qs
    \<and> (\<forall>i < length qs. msgs (senders r ! i) = map AddSession (share (length qs) i ss))"
  using router_queues.round_robin [OF assms(1,2) _ assms(4)] assms(3) by blast

theorem sessions_dealt_in_turn_witness:
  "\<exists>r. control_messages (list_queue 1499) (map AddSession [example_session, example_session, example_session])
      (ShardRouter_new [[], []]) = Inr r
    \<and> next_shard r = 1 \<and> length (senders r ! 0) = 2 \<and> length (senders r ! 1) = 1"
proof -
  let ?ss = "[example_session, example_session, example_session]"
  from sessions_dealt_in_turn [OF list_router_queues, of "[[], []]" ?ss 1499]
  obtain r where r: "control_messages (list_queue 1499) (map AddSession ?ss) (ShardRouter_new [[], []]) = Inr r"
      and n: "next_shard r = length ?ss mod length [[], [] :: MessageType list]"
      and s: "\<forall>i < length [[], [] :: MessageType list].
        senders r ! i = map AddSession (share (length [[], [] :: MessageType list]) i ?ss)"
    by auto
  have "length (senders r ! 0) = 2" "length (senders r ! 1) = 1"
    using s [rule_format, of 0] s [rule_format, of 1] by (simp_all add: share_def upt_rec)
  moreover have "next_shard r = 1" using n by (simp add: mod_Suc)
  ultimately show ?thesis using r by blast
qed

text \<open>Property C35: a session that meets a full queue is lost without a trace: the queues stay as
  they are, while both its ends are mapped to the shard as if it had been registered.\<close>

theorem full_queue_loses_session:
  assumes "router_queues Q msgs cap" and "router_inv r"
    and "length (msgs (senders r ! next_shard r)) = cap"
  shows "\<exists>r'. control_message Q (AddSession s) r = Inr r'
    \<and> map msgs (senders r') = map msgs (senders r)
    \<and> endpoint_to_shard r' (host_addr s) = Some (next_shard r)
    \<and> endpoint_to_shard r' (peer_addr s) = Some (next_shard r)"
proof -
  from assms(1) have "bounded_fifo Q msgs cap" by (simp add: router_queues_def)
  then have "fifo Q msgs" and "\<not> snd (q_enqueue Q (AddSession s) (senders r ! next_shard r))"
    using assms(3) by (simp_all add: bounded_fifo_def bounded_fifo_axioms_def)
  then have "msgs (fst (q_enqueue Q (AddSession s) (senders r ! next_shard r))) = msgs (senders r ! next_shard r)"
    by (simp add: fifo.enqueue_contents)
  then have "map msgs ((senders r)[next_shard r := fst (q_enqueue Q (AddSession s) (senders r ! next_shard r))])
      = map msgs (senders r)"
    using assms(2) by (intro nth_equalityI) (auto simp: nth_list_update router_inv_def)
  then show ?thesis unfolding control_add_session [OF assms(2)] by simp
qed

theorem full_queue_loses_session_witness:
  "\<exists>r'. control_message (list_queue 1) (AddSession example_session)
      (ShardRouter_new [[Transmit (example_packet 8 example_host)]]) = Inr r'
    \<and> senders r' = [[Transmit (example_packet 8 example_host)]]
    \<and> endpoint_to_shard r' example_host = Some 0"
proof -
  let ?r = "ShardRouter_new [[Transmit (example_packet 8 example_host)]]"
  have "router_inv ?r" by (rule router_inv_new) simp
  from full_queue_loses_session [OF list_router_queues [of 1] this, of example_session]
  show ?thesis by (auto simp: ShardRouter_new_def simp del: control_message.simps)
qed

text \<open>The shard computed from two addresses does not depend on which of them is the
  host, and exists whenever there is a shard at all.\<close>

lemma shard_for_symmetric:
  "shard_for finish a b r = shard_for finish b a r
   \<and> (case shard_for finish a b r of
        Inl e \<Rightarrow> e = RemainderByZero \<and> senders r = []
      | Inr i \<Rightarrow> i < length (senders r))"
proof -
  have "shard_for finish a b r = shard_for finish b a r"
    by (cases "a = b") (auto simp: shard_for_def Let_def)
  then show ?thesis by (simp add: shard_for_def Let_def)
qed

end
