(* ===== verification/TurnLoop.thy ===== *)
theory TurnLoop
  imports TurnPool TurnRouter
begin

text \<open>
  The ring loop of the relay (\<open>io_uring_loop\<close> in \<open>turn_server/src/lib.rs\<close>): its start, the three
  phases of an iteration (control messages, send requests of the shards, completions) and the
  handling of one completion.
\<close>

section \<open>Environment and state\<close>

text \<open>What the loop is given from outside the repository: C structures, byte order, rings, queues,
  the \<open>more\<close> flag of completions, the socket, and a clock for the successive calls of
  \<open>Instant::now\<close>.\<close>

record ('st, 'k, 'q) Env =
  e_libc :: "'st libc_ops"
  e_le :: bool
  e_ring :: "'k ring_ops"
  e_queue :: "('q, MessageType) queue_ops"
  e_more :: "u32 \<Rightarrow> bool"
  e_fd :: int
  e_clock :: "nat \<Rightarrow> instant"

text \<open>The durations logged for a relayed packet: total, shard, handoff, kernel.\<close>

type_synonym timing_log = "(nat \<times> nat \<times> nat \<times> nat) list"

record ('st, 'k, 'q) LoopState =
  l_pool :: "'st BufferPool"
  l_ring :: 'k
  l_router :: "'q ShardRouter"
  l_calls :: nat   \<comment> \<open>calls of \<open>Instant::now\<close> so far\<close>
  l_log :: timing_log

definition instant_now ::
  "('st, 'k, 'q) Env \<Rightarrow> ('st, 'k, 'q) LoopState \<Rightarrow> instant \<times> ('st, 'k, 'q) LoopState"
where
  "instant_now E st = (e_clock E (l_calls st), st\<lparr>l_calls := l_calls st + 1\<rparr>)"

section \<open>Start\<close>

definition loop_start ::
  "('st, 'k, 'q) Env \<Rightarrow> 'st BufferPool \<Rightarrow> 'k \<Rightarrow> 'q ShardRouter \<Rightarrow> turn_panic + ('st, 'k, 'q) LoopState"
where
  "loop_start E pool ring router =
     and_then (register_buffer_kernel (e_ring E) pool ring) (\<lambda>pr.
     and_then (seed (e_libc E) (e_ring E) (e_le E) (e_fd E) POOL_SIZE 0 pr) (\<lambda>((pool, ring), seeded).
     (case ring_submit (e_ring E) (sq_sync (e_ring E) ring) of
        (ring, True) \<Rightarrow>
          Inr \<lparr>l_pool = pool, l_ring = ring, l_router = router, l_calls = 0, l_log = []\<rparr>
      | (_, False) \<Rightarrow> Inl UnwrapNone)))"

section \<open>Send requests\<close>

definition post_request ::
  "('st, 'k, 'q) Env \<Rightarrow> SqeType \<Rightarrow> ('st, 'k, 'q) LoopState \<Rightarrow> turn_panic + ('st, 'k, 'q) LoopState"
where
  "post_request E req st =
     (case req of (addr, n, idx) \<Rightarrow>
      let (t, st) = instant_now E st;
          pool = mark_shard_done_at idx t (l_pool st)
      in and_then (post_send_sqe (e_libc E) (e_ring E) (e_le E) (e_fd E) n idx addr (pool, l_ring st))
           (\<lambda>(pool, ring).
             let (t, st) = instant_now E st
             in Inr (st\<lparr>l_pool := mark_send_sqe_at idx t pool, l_ring := ring\<rparr>)))"

text \<open>The requests \<open>try_recv\<close> yields before it finds the channel empty, and the number posted.\<close>

fun post_requests ::
  "('st, 'k, 'q) Env \<Rightarrow> SqeType list \<Rightarrow> ('st, 'k, 'q) LoopState \<Rightarrow> nat
    \<Rightarrow> turn_panic + ('st, 'k, 'q) LoopState \<times> nat"
where
  "post_requests E [] st pushed = Inr (st, pushed)"
| "post_requests E (r # rs) st pushed =
     and_then (post_request E r st) (\<lambda>st. post_requests E rs st (pushed + 1))"

definition sync_pushed :: "('st, 'k, 'q) Env \<Rightarrow> nat \<Rightarrow> ('st, 'k, 'q) LoopState \<Rightarrow> ('st, 'k, 'q) LoopState" where
  "sync_pushed E pushed st =
     (if 0 < pushed then st\<lparr>l_ring := sq_sync (e_ring E) (l_ring st)\<rparr> else st)"

section \<open>Completions\<close>

record Cqe =
  cqe_user_data :: u64
  cqe_result :: int
  cqe_flags :: u32

definition handle_recv ::
  "('st, 'k, 'q) Env \<Rightarrow> u16 \<Rightarrow> nat \<Rightarrow> ('st, 'k, 'q) LoopState \<Rightarrow> turn_panic + ('st, 'k, 'q) LoopState"
where
  "handle_recv E idx n st =
     (let (t, st) = instant_now E st;
          pool = mark_recv_for idx t (l_pool st);
          a = get_peer_addr (e_libc E) (e_le E) idx pool;
          (t, st) = instant_now E st;
          pool = mark_recv_for idx t pool
      in and_then (route (e_queue E) \<lparr>buf_idx = idx, len = n, src = a\<rparr> (l_router st)) (\<lambda>r.
           Inr (st\<lparr>l_pool := pool, l_router := r\<rparr>)))"

definition loop_release ::
  "('st, 'k, 'q) Env \<Rightarrow> u16 \<Rightarrow> ('st, 'k, 'q) LoopState \<Rightarrow> turn_panic + ('st, 'k, 'q) LoopState"
where
  "loop_release E idx st =
     and_then (release (e_libc E) (e_ring E) (e_le E) (e_fd E) idx (l_pool st, l_ring st))
       (\<lambda>(pool, ring). Inr (st\<lparr>l_pool := pool, l_ring := ring\<rparr>))"

text \<open>The durations saturate at zero; each \<open>unwrap\<close> panics on a stamp that was not set.\<close>

definition log_timing ::
  "('st, 'k, 'q) Env \<Rightarrow> PacketTiming \<Rightarrow> ('st, 'k, 'q) LoopState \<Rightarrow> turn_panic + ('st, 'k, 'q) LoopState"
where
  "log_timing E t st =
     (let (send_cqe_at, st) = instant_now E st
      in case (shard_done_at t, send_sqe_at t) of
           (Some d, Some s) \<Rightarrow>
             Inr (st\<lparr>l_log := l_log st @
               [(send_cqe_at - recv_cqe_at t, d - recv_cqe_at t, s - d, send_cqe_at - s)]\<rparr>)
         | _ \<Rightarrow> Inl UnwrapNone)"

definition handle_send ::
  "('st, 'k, 'q) Env \<Rightarrow> u16 \<Rightarrow> u32 \<Rightarrow> ('st, 'k, 'q) LoopState \<Rightarrow> turn_panic + ('st, 'k, 'q) LoopState"
where
  "handle_send E idx flags st =
     (if e_more E flags then Inr st
      else and_then (loop_release E idx st) (\<lambda>st.
        case take_recv_for idx (l_pool st) of
          (None, pool) \<Rightarrow> Inr (st\<lparr>l_pool := pool\<rparr>)
        | (Some t, pool) \<Rightarrow> log_timing E t (st\<lparr>l_pool := pool\<rparr>)))"

definition handle_cqe ::
  "('st, 'k, 'q) Env \<Rightarrow> Cqe \<Rightarrow> ('st, 'k, 'q) LoopState \<Rightarrow> turn_panic + ('st, 'k, 'q) LoopState"
where
  "handle_cqe E cqe st =
     (case decode_token (cqe_user_data cqe) of
        (Recv, idx) \<Rightarrow> handle_recv E idx (nat (max 0 (cqe_result cqe))) st
      | (Send, idx) \<Rightarrow> handle_send E idx (cqe_flags cqe) st
      | (SendNotif, idx) \<Rightarrow> loop_release E idx st)"

fun handle_cqes ::
  "('st, 'k, 'q) Env \<Rightarrow> Cqe list \<Rightarrow> ('st, 'k, 'q) LoopState \<Rightarrow> turn_panic + ('st, 'k, 'q) LoopState"
where
  "handle_cqes E [] st = Inr st"
| "handle_cqes E (c # cs) st = and_then (handle_cqe E c st) (handle_cqes E cs)"

section \<open>The loop\<close>

text \<open>
  One iteration, given what \<open>try_recv\<close> yields on the control channel and on the request channel
  before it finds them empty, and the completions visible after \<open>cq.sync\<close>; without any the
  iteration spins and starts over.
\<close>

definition loop_iteration ::
  "('st, 'k, 'q) Env \<Rightarrow> MessageType list \<times> SqeType list \<times> Cqe list
    \<Rightarrow> ('st, 'k, 'q) LoopState \<Rightarrow> turn_panic + ('st, 'k, 'q) LoopState"
where
  "loop_iteration E input st =
     (case input of (controls, requests, completions) \<Rightarrow>
        and_then (control_messages (e_queue E) controls (l_router st)) (\<lambda>router.
        and_then (post_requests E requests (st\<lparr>l_router := router\<rparr>) 0) (\<lambda>(st, pushed).
        handle_cqes E completions (sync_pushed E pushed st))))"

text \<open>The loop has no exit but a panic; it is followed for as many iterations as inputs.\<close>

fun io_uring_loop ::
  "('st, 'k, 'q) Env \<Rightarrow> (MessageType list \<times> SqeType list \<times> Cqe list) list
    \<Rightarrow> ('st, 'k, 'q) LoopState \<Rightarrow> turn_panic + ('st, 'k, 'q) LoopState"
where
  "io_uring_loop E [] st = Inr st"
| "io_uring_loop E (x # xs) st = and_then (loop_iteration E x st) (io_uring_loop E xs)"

end
