(* ===== verification/TurnRelay.thy ===== *)
theory TurnRelay
  imports TurnRouter "HOL-Library.Multiset"
begin

text \<open>
  The relay's router, its shards and their channel to the ring loop running together
  (\<open>turn_server/src/main.rs\<close>, \<open>turn_server/src/lib.rs\<close>): the loop registers sessions and routes
  packets, the shard threads take turns in any order, the loop collects their requests. The
  whole is shown to implement one connection table for all shards.
\<close>

section \<open>The relay\<close>

record ('sid, 'q, 'c) Relay =
  relay_router :: "'q ShardRouter"
  relay_shards :: "('sid Shard \<times> i32) list"  \<comment> \<open>a shard and its idle counter\<close>
  relay_channel :: 'c

text \<open>Shard \<open>id\<close> consumes the queue whose producer is \<open>senders[id]\<close>; all shards share one channel.\<close>

definition Relay_new :: "'q list \<Rightarrow> 'c \<Rightarrow> ('sid, 'q, 'c) Relay" where
  "Relay_new qs c =
     \<lparr>relay_router = ShardRouter_new qs,
      relay_shards = map (\<lambda>i. (Shard_new i, 0)) [0..<length qs],
      relay_channel = c\<rparr>"

datatype 'sid relay_event =
    Control MessageType   \<comment> \<open>the loop takes a control message\<close>
  | Arrive RelayPacket    \<comment> \<open>a receive completes\<close>
  | Turn nat 'sid         \<comment> \<open>a shard thread makes a turn\<close>
  | Collect               \<comment> \<open>the loop takes a request\<close>

datatype relay_obs = Silent | Sent nat SqeType | Collected SqeType

text \<open>The request a turn gives to \<open>try_send\<close>, for observation.\<close>

definition turn_request :: "('q, MessageType) queue_ops \<Rightarrow> 'sid \<Rightarrow> 'sid Shard \<Rightarrow> 'q \<Rightarrow> SqeType option" where
  "turn_request Q sid sh q =
     (case fst (q_dequeue Q q) of None \<Rightarrow> None | Some m \<Rightarrow> snd (shard_message sid m sh))"

fun relay_step ::
  "('q, MessageType) queue_ops \<Rightarrow> ('c, SqeType) queue_ops \<Rightarrow> bool \<Rightarrow> 'sid relay_event
    \<Rightarrow> ('sid, 'q, 'c) Relay \<Rightarrow> turn_panic + ('sid, 'q, 'c) Relay \<times> relay_obs"
where
  "relay_step Q C oc (Control m) st =
     and_then (control_message Q m (relay_router st)) (\<lambda>r. Inr (st\<lparr>relay_router := r\<rparr>, Silent))"
| "relay_step Q C oc (Arrive p) st =
     and_then (route Q p (relay_router st)) (\<lambda>r. Inr (st\<lparr>relay_router := r\<rparr>, Silent))"
| "relay_step Q C oc (Turn i sid) st =
     (if i < length (relay_shards st) then
        (let (sh, n) = relay_shards st ! i; r = relay_router st; q = senders r ! i
         in and_then (shard_turn Q C oc sid (sh, q, relay_channel st, n)) (\<lambda>((sh', q', c', n'), _).
            Inr (st\<lparr>relay_shards := (relay_shards st)[i := (sh', n')],
                    relay_router := r\<lparr>senders := (senders r)[i := q']\<rparr>,
                    relay_channel := c'\<rparr>,
                 case turn_request Q sid sh q of None \<Rightarrow> Silent | Some x \<Rightarrow> Sent i x)))
      else Inr (st, Silent))"
| "relay_step Q C oc Collect st =
     (case q_dequeue C (relay_channel st) of
        (None, c) \<Rightarrow> Inr (st\<lparr>relay_channel := c\<rparr>, Silent)
      | (Some x, c) \<Rightarrow> Inr (st\<lparr>relay_channel := c\<rparr>, Collected x))"

fun relay_run ::
  "('q, MessageType) queue_ops \<Rightarrow> ('c, SqeType) queue_ops \<Rightarrow> bool \<Rightarrow> 'sid relay_event list
    \<Rightarrow> ('sid, 'q, 'c) Relay \<Rightarrow> turn_panic + ('sid, 'q, 'c) Relay \<times> ('sid relay_event \<times> relay_obs) list"
where
  "relay_run Q C oc [] st = Inr (st, [])"
| "relay_run Q C oc (ev # evs) st =
     and_then (relay_step Q C oc ev st) (\<lambda>(st', ob).
     and_then (relay_run Q C oc evs st') (\<lambda>(st'', tr). Inr (st'', (ev, ob) # tr)))"

section \<open>What the relay promises\<close>

text \<open>
  The specification knows the events only. One table for the whole relay holds, for each
  address, the address it is connected to and the shard that serves it; the registrations alone
  change it, dealing the sessions to the \<open>n\<close> shards in turn. A packet is promised the address
  its source is connected to when it arrives, through the shard that serves the source; a packet
  of an address that is not connected is promised nothing.
\<close>

type_synonym route_table = "sockaddr \<rightharpoonup> sockaddr \<times> nat"

fun table_after :: "nat \<Rightarrow> 'sid relay_event \<Rightarrow> nat \<times> route_table \<Rightarrow> nat \<times> route_table" where
  "table_after n (Control (AddSession s)) (j, m) =
     (Suc j mod n, m(peer_addr s \<mapsto> (host_addr s, j), host_addr s \<mapsto> (peer_addr s, j)))"
| "table_after n _ (j, m) = (j, m)"

fun promise :: "route_table \<Rightarrow> 'sid relay_event \<Rightarrow> (nat \<times> SqeType) list" where
  "promise m (Arrive p) =
     (case m (src p) of None \<Rightarrow> [] | Some (d, i) \<Rightarrow> [(i, (d, len p, buf_idx p))])"
| "promise m _ = []"

fun promised_by :: "nat \<Rightarrow> 'sid relay_event list \<Rightarrow> nat \<times> route_table \<Rightarrow> (nat \<times> SqeType) list" where
  "promised_by n [] t = []"
| "promised_by n (ev # evs) t = promise (snd t) ev @ promised_by n evs (table_after n ev t)"

fun sent_of :: "relay_obs \<Rightarrow> (nat \<times> SqeType) list" where
  "sent_of (Sent i x) = [(i, x)]"
| "sent_of _ = []"

definition sent_in :: "('sid relay_event \<times> relay_obs) list \<Rightarrow> (nat \<times> SqeType) list" where
  "sent_in tr = concat (map (\<lambda>x. sent_of (snd x)) tr)"

definition via :: "nat \<Rightarrow> (nat \<times> SqeType) list \<Rightarrow> SqeType list" where
  "via i xs = map snd (filter (\<lambda>x. fst x = i) xs)"

fun collected_of :: "relay_obs \<Rightarrow> SqeType list" where
  "collected_of (Collected x) = [x]"
| "collected_of _ = []"

definition collected_in :: "('sid relay_event \<times> relay_obs) list \<Rightarrow> SqeType list" where
  "collected_in tr = concat (map (\<lambda>x. collected_of (snd x)) tr)"

lemma collected_in_simps [simp]:
  "collected_in [] = []" "collected_in (x # xs) = collected_of (snd x) @ collected_in xs"
  by (auto simp: collected_in_def)

lemma via_simps [simp]: "via i [] = []" "via i (xs @ ys) = via i xs @ via i ys"
  "via i ((j, x) # xs) = (if i = j then x # via i xs else via i xs)"
  by (auto simp: via_def)

lemma sent_in_simps [simp]: "sent_in [] = []" "sent_in (x # xs) = sent_of (snd x) @ sent_in xs"
  by (auto simp: sent_in_def)

lemma via_all: "\<forall>x\<in>set xs. fst x = i \<Longrightarrow> map (Pair i) (via i xs) = xs"
  by (induction xs) auto

text \<open>The ids drawn by the turns of a trace.\<close>

fun ids_of :: "'sid relay_event list \<Rightarrow> 'sid list" where
  "ids_of [] = []"
| "ids_of (Turn i sid # evs) = sid # ids_of evs"
| "ids_of (_ # evs) = ids_of evs"

text \<open>How many of the events put something into a queue, and how many are turns of shard \<open>i\<close>.\<close>

fun messages :: "'sid relay_event list \<Rightarrow> nat" where
  "messages [] = 0"
| "messages (Control _ # evs) = Suc (messages evs)"
| "messages (Arrive _ # evs) = Suc (messages evs)"
| "messages (_ # evs) = messages evs"

fun turns :: "nat \<Rightarrow> 'sid relay_event list \<Rightarrow> nat" where
  "turns i [] = 0"
| "turns i (Turn j _ # evs) = (if j = i then Suc (turns i evs) else turns i evs)"
| "turns i (_ # evs) = turns i evs"

section \<open>The shards of promises and requests\<close>

lemma mset_via:
  assumes "\<And>i. i < n \<Longrightarrow> via i xs = via i ys"
    and "\<And>x. x \<in> set xs \<union> set ys \<Longrightarrow> fst x < n"
  shows "mset xs = mset ys"
proof (rule multiset_eqI)
  have via: "count (mset zs) (i, x) = count (mset (via i zs)) x" for zs :: "(nat \<times> SqeType) list" and i x
  proof (induction zs)
    case (Cons z zs)
    then show ?case by (cases z; cases "fst z = i") auto
  qed simp
  have none: "count (mset zs) (i, x) = 0" if "\<not> i < n" "set zs \<subseteq> set xs \<union> set ys" for zs i x
    using assms(2) [of "(i, x)"] that by (force simp: count_mset_0_iff)
  fix p :: "nat \<times> SqeType"
  obtain i x where p: "p = (i, x)" by (cases p)
  show "count (mset xs) p = count (mset ys) p"
  proof (cases "i < n")
    case True
    with assms(1) show ?thesis by (simp add: p via)
  next
    case False
    have "count (mset xs) (i, x) = 0" "count (mset ys) (i, x) = 0"
      by (rule none [OF False], blast)+
    then show ?thesis unfolding p by (simp only:)
  qed
qed

lemma promised_by_shard:
  assumes "x \<in> set (promised_by n evs (j, m))" and "j < n" and "\<And>a d i. m a = Some (d, i) \<Longrightarrow> i < n"
  shows "fst x < n"
  using assms
proof (induction evs arbitrary: j m)
  case (Cons ev evs)
  obtain j' m' where t: "table_after n ev (j, m) = (j', m')" by fastforce
  have "j' < n" "\<And>a d i. m' a = Some (d, i) \<Longrightarrow> i < n"
    using t Cons.prems(2,3) by (cases "(n, ev, (j, m))" rule: table_after.cases; force split: if_splits)+
  moreover have "fst x < n" if "x \<in> set (promise m ev)"
    using that Cons.prems(3) by (cases "(m, ev)" rule: promise.cases) (auto split: option.splits dest: sym)
  ultimately show ?case using Cons.IH [of j' m'] Cons.prems(1) t by auto
qed simp

lemma promised_by_append_turns:
  "messages later = 0 \<Longrightarrow> promised_by n (evs @ later) t = promised_by n evs t"
proof (induction evs arbitrary: t)
  case Nil
  then show ?case
  proof (induction later arbitrary: t)
    case (Cons ev later)
    then show ?case by (cases ev; cases t) auto
  qed simp
qed simp

lemma sent_in_shard:
  assumes "relay_run Q C oc evs st = Inr (st', tr)" and "x \<in> set (sent_in tr)"
  shows "fst x < length (relay_shards st)"
  using assms
proof (induction evs arbitrary: st tr)
  case (Cons ev evs)
  from Cons.prems(1) obtain st1 ob tr1 where s: "relay_step Q C oc ev st = Inr (st1, ob)"
    and r: "relay_run Q C oc evs st1 = Inr (st', tr1)" "tr = (ev, ob) # tr1"
    by (auto simp: and_then_Inr simp del: relay_step.simps)
  have "length (relay_shards st1) = length (relay_shards st)" "\<And>x. x \<in> set (sent_of ob) \<Longrightarrow> fst x < length (relay_shards st)"
    using s by (cases ev; force simp: and_then_Inr Let_def split: if_splits prod.splits option.splits)+
  with Cons.IH [OF r(1)] Cons.prems(2) r(2) show ?case by (cases x) auto
qed simp

section \<open>Refinement\<close>

text \<open>What shard \<open>i\<close> will have promised once its queue is worked off, and still has to send.\<close>

definition shard_view ::
  "('q \<Rightarrow> MessageType list) \<Rightarrow> ('sid, 'q, 'c) Relay \<Rightarrow> nat \<Rightarrow> (sockaddr \<rightharpoonup> sockaddr)"
where
  "shard_view msgs st i =
     promised (lookup_peer (fst (relay_shards st ! i))) (msgs (senders (relay_router st) ! i))"

definition pending ::
  "('q \<Rightarrow> MessageType list) \<Rightarrow> ('sid, 'q, 'c) Relay \<Rightarrow> nat \<Rightarrow> SqeType list"
where
  "pending msgs st i =
     forwarded (lookup_peer (fst (relay_shards st ! i))) (msgs (senders (relay_router st) ! i))"

text \<open>The invariant: the endpoint map, the shards' views and the router's next shard together
  are the table of the specification; \<open>ids\<close> holds the session ids drawn so far.\<close>

definition views_agree ::
  "('q \<Rightarrow> MessageType list) \<Rightarrow> route_table \<Rightarrow> ('sid, 'q, 'c) Relay \<Rightarrow> bool"
where
  "views_agree msgs m st \<longleftrightarrow>
     (\<forall>a. m a = Option.bind (endpoint_to_shard (relay_router st) a)
                  (\<lambda>i. map_option (\<lambda>d. (d, i)) (shard_view msgs st i a)))
     \<and> dom (endpoint_to_shard (relay_router st)) \<subseteq> dom m"

definition ids_drawn :: "'sid set \<Rightarrow> ('sid, 'q, 'c) Relay \<Rightarrow> bool" where
  "ids_drawn ids st \<longleftrightarrow> (\<forall>x\<in>set (relay_shards st). dom (session_table (fst x)) \<subseteq> ids)"

definition relay_inv ::
  "('q \<Rightarrow> MessageType list) \<Rightarrow> nat \<times> route_table \<Rightarrow> 'sid set \<Rightarrow> ('sid, 'q, 'c) Relay \<Rightarrow> bool"
where
  "relay_inv msgs t ids st \<longleftrightarrow>
     router_inv (relay_router st)
     \<and> length (relay_shards st) = length (senders (relay_router st))
     \<and> next_shard (relay_router st) = fst t
     \<and> views_agree msgs (snd t) st \<and> ids_drawn ids st"

lemma relay_inv_new:
  assumes "qs \<noteq> []" and "\<forall>q\<in>set qs. msgs q = []"
  shows "relay_inv msgs (0, Map.empty) {} (Relay_new qs c)"
  using assms router_inv_new [OF assms(1)]
  by (auto simp: relay_inv_def views_agree_def ids_drawn_def Relay_new_def ShardRouter_new_def
      Shard_new_def)

lemma relay_inv_ids: "relay_inv msgs t ids st \<Longrightarrow> ids \<subseteq> ids' \<Longrightarrow> relay_inv msgs t ids' st"
  by (fastforce simp: relay_inv_def ids_drawn_def)

lemma views_agree_router:
  assumes "views_agree msgs m st" and "endpoint_to_shard r = endpoint_to_shard (relay_router st)"
    and "\<And>i. i \<in> ran (endpoint_to_shard r) \<Longrightarrow> shard_view msgs st' i = shard_view msgs st i"
    and "relay_router st' = r"
  shows "views_agree msgs m st'"
proof -
  have "Option.bind (endpoint_to_shard r a) (\<lambda>i. map_option (\<lambda>d. (d, i)) (shard_view msgs st' i a))
      = Option.bind (endpoint_to_shard r a) (\<lambda>i. map_option (\<lambda>d. (d, i)) (shard_view msgs st i a))" for a
    using assms(3) by (cases "endpoint_to_shard r a") (auto dest: ranI)
  with assms show ?thesis by (simp add: views_agree_def)
qed

text \<open>An event finds room: the queue it is put into is not full, and neither is the channel
  when a shard takes its turn, nor has the shard been idle for \<open>i32::MAX\<close> turns.\<close>

fun room ::
  "('q \<Rightarrow> MessageType list) \<Rightarrow> nat \<Rightarrow> ('c \<Rightarrow> SqeType list) \<Rightarrow> nat \<Rightarrow> 'sid relay_event
    \<Rightarrow> ('sid, 'q, 'c) Relay \<Rightarrow> bool"
where
  "room msgs qcap sqes cap (Control (AddSession s)) st =
     (length (msgs (senders (relay_router st) ! next_shard (relay_router st))) < qcap)"
| "room msgs qcap sqes cap (Arrive p) st =
     (case endpoint_to_shard (relay_router st) (src p) of None \<Rightarrow> True
      | Some i \<Rightarrow> length (msgs (senders (relay_router st) ! i)) < qcap)"
| "room msgs qcap sqes cap (Turn i sid) st =
     (i < length (relay_shards st) \<longrightarrow>
        length (sqes (relay_channel st)) < cap \<and> sint (snd (relay_shards st ! i)) < 2 ^ 31 - 1)"
| "room msgs qcap sqes cap _ st = True"

fun always_room ::
  "('q, MessageType) queue_ops \<Rightarrow> ('q \<Rightarrow> MessageType list) \<Rightarrow> nat
    \<Rightarrow> ('c, SqeType) queue_ops \<Rightarrow> ('c \<Rightarrow> SqeType list) \<Rightarrow> nat \<Rightarrow> bool
    \<Rightarrow> 'sid relay_event list \<Rightarrow> ('sid, 'q, 'c) Relay \<Rightarrow> bool"
where
  "always_room Q msgs qcap C sqes cap oc [] st = True"
| "always_room Q msgs qcap C sqes cap oc (ev # evs) st =
     (room msgs qcap sqes cap ev st
      \<and> (case relay_step Q C oc ev st of
           Inl e \<Rightarrow> True
         | Inr (st', ob) \<Rightarrow> always_room Q msgs qcap C sqes cap oc evs st'))"

definition relay_step_spec ::
  "('q \<Rightarrow> MessageType list) \<Rightarrow> ('c \<Rightarrow> SqeType list) \<Rightarrow> nat \<times> route_table \<Rightarrow> 'sid set
    \<Rightarrow> 'sid relay_event \<Rightarrow> ('sid, 'q, 'c) Relay \<Rightarrow> ('sid, 'q, 'c) Relay \<times> relay_obs \<Rightarrow> bool"
where
  "relay_step_spec msgs sqes t ids ev st res \<longleftrightarrow> (case res of (st', ob) \<Rightarrow>
     relay_inv msgs (table_after (length (relay_shards st)) ev t) (ids \<union> set (ids_of [ev])) st'
     \<and> (\<forall>i < length (relay_shards st).
          pending msgs st i @ via i (promise (snd t) ev) = via i (sent_of ob) @ pending msgs st' i)
     \<and> sqes (relay_channel st) @ map snd (sent_of ob) = collected_of ob @ sqes (relay_channel st')
     \<and> length (relay_shards st') = length (relay_shards st))"

locale relay_queues = shard_queues Q msgs C sqes cap + router: router_queues Q msgs qcap
  for Q :: "('q, MessageType) queue_ops" and msgs and qcap :: nat
    and C :: "('c, SqeType) queue_ops" and sqes and cap :: nat
begin

lemma register_step:
  assumes "relay_inv msgs t ids st" and room: "room msgs qcap sqes cap (Control (AddSession s)) st"
  shows "\<exists>res. relay_step Q C oc (Control (AddSession s)) st = Inr res
    \<and> relay_step_spec msgs sqes t ids (Control (AddSession s)) st res"
proof -
  define r where "r = relay_router st"
  define j where "j = next_shard r"
  define q' where "q' = fst (q_enqueue Q (AddSession s) (senders r ! j))"
  define E where "E = (endpoint_to_shard r)(host_addr s \<mapsto> j, peer_addr s \<mapsto> j)"
  define m where "m = snd t"
  from assms(1) have inv: "router_inv r" and va: "views_agree msgs m st" and t: "t = (j, m)"
    and sb: "ids_drawn ids st" and len: "length (relay_shards st) = length (senders r)"
    by (auto simp: relay_inv_def r_def j_def m_def)
  then have j: "j < length (senders r)" by (simp add: router_inv_def j_def)
  from room have q': "msgs q' = msgs (senders r ! j) @ [AddSession s]"
    unfolding q'_def by (intro router.queue_room) (simp add: r_def j_def)
  obtain r' where r': "control_message Q (AddSession s) r = Inr r'" "router_inv r'"
    using control_message_inv [OF inv] by blast
  with control_add_session [OF inv, of Q s]
  have r'_eq: "senders r' = (senders r)[j := q']" "endpoint_to_shard r' = E"
    "next_shard r' = Suc j mod length (senders r)"
    by (auto simp: j_def q'_def E_def)
  let ?st = "st\<lparr>relay_router := r'\<rparr>"
  let ?m = "m(peer_addr s \<mapsto> (host_addr s, j), host_addr s \<mapsto> (peer_addr s, j))"
  have view: "shard_view msgs ?st i = (if i = j then connect s (shard_view msgs st i) else shard_view msgs st i)" for i
    using j q' by (auto simp: shard_view_def r'_eq r_def [symmetric])
  have "Option.bind (E a) (\<lambda>i. map_option (\<lambda>d. (d, i)) (shard_view msgs ?st i a)) = ?m a" for a
    using va by (auto simp: E_def view connect_def views_agree_def r_def split: option.split bind_splits)
  moreover have "dom E \<subseteq> dom ?m"
    using va by (auto simp: E_def views_agree_def r_def)
  ultimately have "views_agree msgs ?m ?st" by (simp add: views_agree_def r'_eq)
  moreover have "pending msgs ?st i = pending msgs st i" for i
    using j q' by (cases "i = j") (auto simp: pending_def r'_eq r_def [symmetric])
  ultimately show ?thesis
    using r' len sb by (simp add: t relay_step_spec_def relay_inv_def ids_drawn_def r_def [symmetric] r'_eq)
qed

lemma control_step:
  assumes "relay_inv msgs t ids st" and "room msgs qcap sqes cap (Control msg) st"
  shows "\<exists>res. relay_step Q C oc (Control msg) st = Inr res
    \<and> relay_step_spec msgs sqes t ids (Control msg) st res"
proof (cases msg)
  case (AddSession s)
  with register_step assms show ?thesis by simp
next
  case (Transmit p)
  with assms(1) show ?thesis by (cases t) (simp add: relay_step_spec_def)
qed

lemma arrive_step:
  assumes "relay_inv msgs t ids st" and room: "room msgs qcap sqes cap (Arrive p) st"
  shows "\<exists>res. relay_step Q C oc (Arrive p) st = Inr res
    \<and> relay_step_spec msgs sqes t ids (Arrive p) st res"
proof (cases "endpoint_to_shard (relay_router st) (src p)")
  case None
  with assms(1) have "snd t (src p) = None" by (simp add: relay_inv_def views_agree_def)
  with None assms(1) show ?thesis by (cases t) (auto simp: relay_step_spec_def route_def)
next
  case (Some j)
  define r where "r = relay_router st"
  define q' where "q' = fst (q_enqueue Q (Transmit p) (senders r ! j))"
  define m where "m = snd t"
  let ?r' = "r\<lparr>senders := (senders r)[j := q']\<rparr>"
  let ?st = "st\<lparr>relay_router := ?r'\<rparr>"
  from assms(1) have inv: "router_inv r" and va: "views_agree msgs m st"
    and t: "t = (next_shard r, m)"
    and sb: "ids_drawn ids st" and len: "length (relay_shards st) = length (senders r)"
    by (auto simp: relay_inv_def r_def m_def)
  have j: "j < length (senders r)" using router_inv_endpoint [OF inv] Some by (simp add: r_def)
  from room Some have q': "msgs q' = msgs (senders r ! j) @ [Transmit p]"
    unfolding q'_def by (intro router.queue_room) (simp add: r_def)
  have "shard_view msgs ?st i = shard_view msgs st i" for i
    using j q' by (cases "i = j") (auto simp: shard_view_def r_def [symmetric])
  then have va': "views_agree msgs m ?st" using views_agree_router [OF va, of ?r' ?st] by (simp add: r_def)
  have inv': "router_inv ?r'" using inv by (simp add: router_inv_def)
  from va Some have m: "m (src p) = map_option (\<lambda>d. (d, j)) (shard_view msgs st j (src p))" "m (src p) \<noteq> None"
    by (auto simp: views_agree_def)
  then obtain d where d: "shard_view msgs st j (src p) = Some d" "m (src p) = Some (d, j)" by auto
  have pend: "pending msgs ?st i = pending msgs st i @ via i (promise m (Arrive p))" for i
    using j q' d by (cases "i = j") (auto simp: pending_def shard_view_def r_def [symmetric])
  have "relay_step Q C oc (Arrive p) st = Inr (?st, Silent)"
    using j Some by (simp add: route_def enqueue_at_def q'_def r_def [symmetric])
  moreover have "relay_step_spec msgs sqes t ids (Arrive p) st (?st, Silent)"
    using va' sb inv' pend len by (simp add: t relay_step_spec_def relay_inv_def ids_drawn_def r_def [symmetric])
  ultimately show ?thesis by blast
qed

text \<open>A turn replaces the shard, its queue and the channel; what the shard still has to do is
  what it had to do less what it sent.\<close>

lemma turn_update:
  assumes "relay_inv msgs t ids st" and i: "i < length (relay_shards st)"
    and sh: "relay_shards st ! i = (sh, n)" and q: "q = senders (relay_router st) ! i"
    and view: "promised (lookup_peer sh') (msgs q') = promised (lookup_peer sh) (msgs q)"
    and pend: "forwarded (lookup_peer sh) (msgs q) = out @ forwarded (lookup_peer sh') (msgs q')"
    and ids: "dom (session_table sh') \<subseteq> insert sid ids"
    and ob: "sent_of ob = map (Pair i) out" "collected_of ob = []"
    and c: "sqes c' = sqes (relay_channel st) @ out"
    and st': "st' = st\<lparr>relay_shards := (relay_shards st)[i := (sh', n')],
      relay_router := (relay_router st)\<lparr>senders := (senders (relay_router st))[i := q']\<rparr>,
      relay_channel := c'\<rparr>"
  shows "relay_step_spec msgs sqes t ids (Turn i sid) st (st', ob)"
proof -
  from assms(1) have inv: "router_inv (relay_router st)" and va: "views_agree msgs (snd t) st"
    and sb: "ids_drawn ids st" and nx: "next_shard (relay_router st) = fst t"
    and len: "length (relay_shards st) = length (senders (relay_router st))"
    by (auto simp: relay_inv_def)
  have "shard_view msgs st' j = shard_view msgs st j" for j
    using i len sh q view by (cases "j = i") (auto simp: shard_view_def st')
  with views_agree_router [OF va, of "relay_router st'" st'] have "views_agree msgs (snd t) st'"
    by (simp add: st')
  moreover have "ids_drawn (insert sid ids) st'"
    using sb ids set_update_subset_insert [of "relay_shards st" i "(sh', n')"]
    by (fastforce simp: ids_drawn_def st')
  moreover have "pending msgs st j = via j (sent_of ob) @ pending msgs st' j" for j
  proof (cases "j = i")
    case True
    have "via i (map (Pair i) xs) = xs" for xs by (induction xs) auto
    with True i len sh q pend ob show ?thesis by (simp add: pending_def st')
  next
    case False
    then have "via j (map (Pair i) xs) = []" for xs by (induction xs) auto
    with False ob show ?thesis by (simp add: pending_def st')
  qed
  moreover have "router_inv (relay_router st')" using inv by (simp add: router_inv_def st')
  ultimately show ?thesis
    using len nx c ob by (cases t) (simp add: relay_step_spec_def relay_inv_def st' o_def)
qed

lemma turn_step:
  assumes "relay_inv msgs t ids st" and "sid \<notin> ids" and room: "room msgs qcap sqes cap (Turn i sid) st"
  shows "\<exists>res. relay_step Q C oc (Turn i sid) st = Inr res
    \<and> relay_step_spec msgs sqes t ids (Turn i sid) st res"
proof (cases "i < length (relay_shards st)")
  case False
  with relay_inv_ids [OF assms(1), of "insert sid ids"] show ?thesis
    by (cases t) (simp add: relay_step_spec_def subset_insertI)
next
  case i: True
  obtain sh n where sh: "relay_shards st ! i = (sh, n)" by fastforce
  define q where "q = senders (relay_router st) ! i"
  define c where "c = relay_channel st"
  from assms(1) i sh have dom: "dom (session_table sh) \<subseteq> ids"
    by (fastforce simp: relay_inv_def ids_drawn_def dest: nth_mem)
  from room i sh have n: "sint n \<noteq> 2 ^ 31 - 1" and c_room: "length (sqes c) < cap"
    by (simp_all add: c_def)
  note upd = turn_update [OF assms(1) i sh q_def, where sid = sid]
  show ?thesis
  proof (cases "msgs q")
    case Nil
    from idle_turn [OF Nil] obtain q' where q': "msgs q' = []" "q_dequeue Q q = (None, q')" by blast
    obtain e where e: "shard_turn Q C oc sid (sh, q, c, n) = Inr ((sh, q', c, n + 1), e)"
      using q' n by (auto simp: shard_turn_def)
    have tr: "turn_request Q sid sh q = None" using q' by (simp add: turn_request_def)
    have "relay_step_spec msgs sqes t ids (Turn i sid) st
        (st\<lparr>relay_shards := (relay_shards st)[i := (sh, n + 1)],
            relay_router := (relay_router st)\<lparr>senders := (senders (relay_router st))[i := q']\<rparr>,
            relay_channel := c\<rparr>, Silent)"
      using q' Nil dom by (intro upd [where out = "[]"]) (auto simp: c_def)
    then show ?thesis using e i sh tr by (auto simp: q_def [symmetric] c_def [symmetric] Let_def)
  next
    case (Cons msg ms)
    from rx.dequeue_cons [OF Cons] obtain q' where q': "q_dequeue Q q = (Some msg, q')" "msgs q' = ms" by blast
    obtain sh' out where m: "shard_message sid msg sh = (sh', out)" by (cases "shard_message sid msg sh")
    have "sid \<notin> dom (session_table sh)" using dom assms(2) by blast
    from shard_message_spec [OF m this] have lk: "lookup_peer sh' = promised (lookup_peer sh) [msg]"
      and o: "(case out of None \<Rightarrow> [] | Some x \<Rightarrow> [x]) = forwarded (lookup_peer sh) [msg]"
      and d: "dom (session_table sh') \<subseteq> insert sid (dom (session_table sh))" by auto
    define c' where "c' = (case out of None \<Rightarrow> c | Some x \<Rightarrow> fst (q_enqueue C x c))"
    have e: "shard_turn Q C oc sid (sh, q, c, n) = Inr ((sh', q', c', 0), Handled)"
      using q' m by (cases out) (auto simp: shard_turn_def c'_def)
    have tr: "turn_request Q sid sh q = out" using q' m by (simp add: turn_request_def)
    let ?ob = "case out of None \<Rightarrow> Silent | Some x \<Rightarrow> Sent i x"
    have "promised (lookup_peer sh') (msgs q') = promised (lookup_peer sh) (msgs q)"
      using promised_append [of "lookup_peer sh" "[msg]" ms] Cons q' lk by simp
    moreover have "forwarded (lookup_peer sh) (msgs q)
        = (case out of None \<Rightarrow> [] | Some x \<Rightarrow> [x]) @ forwarded (lookup_peer sh') (msgs q')"
      using forwarded_append [of "lookup_peer sh" "[msg]" ms] Cons q' lk o by simp
    moreover have "sent_of ?ob = map (Pair i) (case out of None \<Rightarrow> [] | Some x \<Rightarrow> [x])"
      "collected_of ?ob = []" by (cases out; simp)+
    moreover have "sqes c' = sqes (relay_channel st) @ (case out of None \<Rightarrow> [] | Some x \<Rightarrow> [x])"
      using send_room [OF c_room] by (cases out) (auto simp: c'_def c_def)
    ultimately have "relay_step_spec msgs sqes t ids (Turn i sid) st
        (st\<lparr>relay_shards := (relay_shards st)[i := (sh', 0)],
            relay_router := (relay_router st)\<lparr>senders := (senders (relay_router st))[i := q']\<rparr>,
            relay_channel := c'\<rparr>, ?ob)"
      using d dom by (intro upd) auto
    then show ?thesis using e tr i sh by (auto simp: q_def [symmetric] c_def [symmetric] Let_def)
  qed
qed

lemma collect_step:
  assumes "relay_inv msgs t ids st"
  shows "\<exists>res. relay_step Q C oc Collect st = Inr res \<and> relay_step_spec msgs sqes t ids Collect st res"
proof -
  obtain x c where d: "q_dequeue C (relay_channel st) = (x, c)" by fastforce
  have ch: "sqes (relay_channel st) = (case x of None \<Rightarrow> [] | Some y \<Rightarrow> [y]) @ sqes c"
    using d tx.dequeue_empty [of "relay_channel st" c] tx.dequeue_some [of "relay_channel st" _ c]
    by (cases x) auto
  have "relay_inv msgs t ids (st\<lparr>relay_channel := c\<rparr>)"
    using assms by (simp add: relay_inv_def views_agree_def ids_drawn_def shard_view_def)
  with d ch show ?thesis
    by (cases t; cases x) (auto simp: relay_step_spec_def pending_def)
qed

lemma step_spec:
  assumes "relay_inv msgs t ids st" and "room msgs qcap sqes cap ev st"
    and "ids \<inter> set (ids_of [ev]) = {}"
  shows "\<exists>res. relay_step Q C oc ev st = Inr res \<and> relay_step_spec msgs sqes t ids ev st res"
proof (cases ev)
  case (Turn i sid)
  with assms(3) have "sid \<notin> ids" by simp
  with turn_step [OF assms(1)] assms(2) Turn show ?thesis by blast
qed (use assms(2) control_step [OF assms(1)] arrive_step [OF assms(1)] collect_step [OF assms(1)] in blast)+

lemma run_spec:
  assumes "relay_inv msgs t ids st" and "always_room Q msgs qcap C sqes cap oc evs st"
    and "distinct (ids_of evs)" and "ids \<inter> set (ids_of evs) = {}"
    and n: "length (relay_shards st) = n"
  shows "\<exists>st' tr. relay_run Q C oc evs st = Inr (st', tr) \<and> map fst tr = evs
    \<and> (\<forall>i < n. pending msgs st i @ via i (promised_by n evs t) = via i (sent_in tr) @ pending msgs st' i)
    \<and> sqes (relay_channel st) @ map snd (sent_in tr) = collected_in tr @ sqes (relay_channel st')"
  using assms
proof (induction evs arbitrary: t ids st)
  case Nil
  then show ?case by simp
next
  case (Cons ev evs)
  have io: "ids_of (ev # evs) = ids_of [ev] @ ids_of evs" by (cases ev) auto
  with Cons.prems(4) have d: "ids \<inter> set (ids_of [ev]) = {}" by auto
  from Cons.prems(2) have "room msgs qcap sqes cap ev st" by simp
  from step_spec [OF Cons.prems(1) this d, of oc] Cons.prems(5) obtain st1 ob
    where s: "relay_step Q C oc ev st = Inr (st1, ob)"
      and i1: "relay_inv msgs (table_after n ev t) (ids \<union> set (ids_of [ev])) st1"
      and p1: "\<And>i. i < n \<Longrightarrow>
        pending msgs st i @ via i (promise (snd t) ev) = via i (sent_of ob) @ pending msgs st1 i"
      and c1: "sqes (relay_channel st) @ map snd (sent_of ob) = collected_of ob @ sqes (relay_channel st1)"
      and l1: "length (relay_shards st1) = n"
    by (auto simp: relay_step_spec_def simp del: relay_step.simps)
  from Cons.prems(2) s have "always_room Q msgs qcap C sqes cap oc evs st1" by simp
  moreover have "distinct (ids_of evs)" "(ids \<union> set (ids_of [ev])) \<inter> set (ids_of evs) = {}"
    using Cons.prems(3,4) io by auto
  ultimately obtain st2 tr where r: "relay_run Q C oc evs st1 = Inr (st2, tr)" "map fst tr = evs"
      and p2: "\<And>i. i < n \<Longrightarrow> pending msgs st1 i @ via i (promised_by n evs (table_after n ev t))
        = via i (sent_in tr) @ pending msgs st2 i"
      and c2: "sqes (relay_channel st1) @ map snd (sent_in tr) = collected_in tr @ sqes (relay_channel st2)"
    using Cons.IH [OF i1 _ _ _ l1] by blast
  have "pending msgs st i @ via i (promised_by n (ev # evs) t)
      = via i (sent_in ((ev, ob) # tr)) @ pending msgs st2 i" if "i < n" for i
    using p1 [OF that] p2 [OF that] by (metis append.assoc promised_by.simps(2)
        sent_in_simps(2) snd_conv via_simps(2))
  moreover have "sqes (relay_channel st) @ map snd (sent_in ((ev, ob) # tr))
      = collected_in ((ev, ob) # tr) @ sqes (relay_channel st2)"
    using c1 c2 by (metis append.assoc collected_in_simps(2) map_append sent_in_simps(2) snd_conv)
  ultimately show ?case using s r by simp
qed

lemma run_new:
  fixes evs :: "'sid relay_event list"
  assumes "qs \<noteq> []" and "\<forall>q\<in>set qs. msgs q = []" and "sqes c = []"
    and "always_room Q msgs qcap C sqes cap oc evs (Relay_new qs c)" and "distinct (ids_of evs)"
  shows "\<exists>st tr. relay_run Q C oc evs (Relay_new qs c) = Inr (st, tr) \<and> map fst tr = evs
    \<and> (\<forall>i < length qs. via i (promised_by (length qs) evs (0, Map.empty)) = via i (sent_in tr) @ pending msgs st i)
    \<and> map snd (sent_in tr) = collected_in tr @ sqes (relay_channel st)"
proof -
  let ?R = "Relay_new qs c :: ('sid, 'q, 'c) Relay"
  have new: "length (relay_shards ?R) = length qs" by (simp add: Relay_new_def)
  have p: "pending msgs ?R i = []" if "i < length qs" for i
    using assms(2) that by (simp add: pending_def Relay_new_def ShardRouter_new_def)
  from run_spec [OF relay_inv_new [where msgs = msgs, OF assms(1,2)] assms(4,5) _ new]
  obtain st tr where r: "relay_run Q C oc evs ?R = Inr (st, tr)" "map fst tr = evs"
    and e: "\<And>i. i < length qs \<Longrightarrow> pending msgs ?R i @ via i (promised_by (length qs) evs (0, Map.empty))
      = via i (sent_in tr) @ pending msgs st i"
    and c: "sqes (relay_channel ?R) @ map snd (sent_in tr) = collected_in tr @ sqes (relay_channel st)"
    by auto
  from c assms(3) have "map snd (sent_in tr) = collected_in tr @ sqes (relay_channel st)"
    by (simp add: Relay_new_def)
  moreover have "via i (promised_by (length qs) evs (0, Map.empty)) = via i (sent_in tr) @ pending msgs st i"
    if "i < length qs" for i
    using e [OF that] p [OF that] by simp
  ultimately show ?thesis using r by blast
qed

text \<open>How much is queued: a message adds at most one to a queue, a turn of shard \<open>i\<close> takes one
  from queue \<open>i\<close> if there is one.\<close>

lemma length_enqueue: "length (msgs (fst (q_enqueue Q x q))) \<le> Suc (length (msgs q))"
  using rx.enqueue_contents [of x q] by simp

lemma queue_step:
  assumes s: "relay_step Q C oc ev st = Inr (st', ob)" and i: "i < length (senders (relay_router st))"
    and l: "length (relay_shards st) = length (senders (relay_router st))"
  shows "length (msgs (senders (relay_router st') ! i))
      \<le> length (msgs (senders (relay_router st) ! i)) + messages [ev] - turns i [ev]
    \<and> length (senders (relay_router st')) = length (senders (relay_router st))
    \<and> length (relay_shards st') = length (relay_shards st)"
proof (cases ev)
  case (Control m)
  with s show ?thesis
    using length_enqueue
    by (cases m) (auto simp: take_next_shard_def enqueue_at_def nth_list_update split: if_splits)
next
  case (Arrive p)
  with s show ?thesis
    using length_enqueue
    by (auto simp: route_def enqueue_at_def nth_list_update split: if_splits option.splits)
next
  case (Turn j sid)
  show ?thesis
  proof (cases "j < length (relay_shards st)")
    case True
    obtain sh n where sh: "relay_shards st ! j = (sh, n)" by fastforce
    let ?q = "senders (relay_router st) ! j"
    from s Turn True sh obtain sh' q' c' n' e
      where t: "shard_turn Q C oc sid (sh, ?q, relay_channel st, n) = Inr ((sh', q', c', n'), e)"
        and st': "relay_router st' = (relay_router st)\<lparr>senders := (senders (relay_router st))[j := q']\<rparr>"
          "length (relay_shards st') = length (relay_shards st)"
      by (auto simp: Let_def and_then_Inr)
    from t have "length (msgs q') \<le> length (msgs ?q) - 1"
      by (cases rule: shard_turn_cases) auto
    with Turn st' i show ?thesis by (auto simp: nth_list_update)
  next
    case False
    with s Turn i l show ?thesis by auto
  qed
next
  case Collect
  with s show ?thesis by (auto split: prod.splits option.splits)
qed

lemma queue_run:
  assumes "relay_run Q C oc evs st = Inr (st', tr)" and "i < length (senders (relay_router st))"
    and "length (relay_shards st) = length (senders (relay_router st))"
  shows "length (msgs (senders (relay_router st') ! i))
      \<le> length (msgs (senders (relay_router st) ! i)) + messages evs
    \<and> (messages evs = 0 \<longrightarrow> length (msgs (senders (relay_router st') ! i))
      \<le> length (msgs (senders (relay_router st) ! i)) - turns i evs)
    \<and> length (senders (relay_router st')) = length (senders (relay_router st))
    \<and> length (relay_shards st') = length (relay_shards st)"
  using assms
proof (induction evs arbitrary: st tr)
  case (Cons ev evs)
  from Cons.prems(1) obtain st1 ob tr1 where s: "relay_step Q C oc ev st = Inr (st1, ob)"
    and r: "relay_run Q C oc evs st1 = Inr (st', tr1)"
    by (auto simp: and_then_Inr simp del: relay_step.simps)
  from queue_step [OF s Cons.prems(2,3)] have 1: "length (msgs (senders (relay_router st1) ! i))
      \<le> length (msgs (senders (relay_router st) ! i)) + messages [ev] - turns i [ev]"
    and l: "length (senders (relay_router st1)) = length (senders (relay_router st))"
      "length (relay_shards st1) = length (relay_shards st)" by blast+
  have "messages (ev # evs) = messages [ev] + messages evs" "turns i (ev # evs) = turns i [ev] + turns i evs"
    by (cases ev; simp)+
  with Cons.IH [OF r] 1 l Cons.prems(2,3) show ?case by auto
qed simp

lemma relay_run_append:
  "relay_run Q C oc (xs @ ys) st = and_then (relay_run Q C oc xs st) (\<lambda>(st1, tr1).
     and_then (relay_run Q C oc ys st1) (\<lambda>(st2, tr2). Inr (st2, tr1 @ tr2)))"
  by (induction xs arbitrary: st)
    (auto simp: and_then_def simp del: relay_step.simps split: sum.split prod.split)

text \<open>Once every shard has taken as many turns as there were messages, its queue is empty.\<close>

lemma worked_off:
  fixes evs :: "'sid relay_event list"
  assumes "relay_run Q C oc (evs @ later) (Relay_new qs c) = Inr (st, tr)"
    and "\<forall>q\<in>set qs. msgs q = []" and "messages later = 0" and "messages evs \<le> turns i later"
    and i: "i < length qs"
  shows "msgs (senders (relay_router st) ! i) = []"
proof -
  let ?R = "Relay_new qs c :: ('sid, 'q, 'c) Relay"
  from assms(1) obtain st1 tr1 tr2 where r1: "relay_run Q C oc evs ?R = Inr (st1, tr1)"
    and r2: "relay_run Q C oc later st1 = Inr (st, tr2)"
    by (auto simp: relay_run_append and_then_Inr)
  have l: "i < length (senders (relay_router ?R))"
    "length (relay_shards ?R) = length (senders (relay_router ?R))"
    using i by (simp_all add: Relay_new_def ShardRouter_new_def)
  have "msgs (senders (relay_router ?R) ! i) = []"
    using i assms(2) by (simp add: Relay_new_def ShardRouter_new_def)
  with queue_run [OF r1 l] have 1: "length (msgs (senders (relay_router st1) ! i)) \<le> messages evs"
    and l1: "length (senders (relay_router st1)) = length (senders (relay_router ?R))"
      "length (relay_shards st1) = length (relay_shards ?R)"
    by simp_all
  from l l1 have "i < length (senders (relay_router st1))"
    "length (relay_shards st1) = length (senders (relay_router st1))" by simp_all
  from queue_run [OF r2 this] assms(3) have "length (msgs (senders (relay_router st) ! i))
      \<le> length (msgs (senders (relay_router st1) ! i)) - turns i later" by blast
  with 1 assms(4) show ?thesis by (simp add: length_0_conv [symmetric] del: length_0_conv)
qed

text \<open>A run that is shorter than the queues finds room at every event.\<close>

definition backlog :: "nat \<Rightarrow> ('sid, 'q, 'c) Relay \<Rightarrow> bool" where
  "backlog k st \<longleftrightarrow> length (sqes (relay_channel st)) \<le> k
     \<and> (\<forall>i < length (relay_shards st). length (msgs (senders (relay_router st) ! i)) \<le> k
          \<and> unat (snd (relay_shards st ! i)) \<le> k)"

lemma channel_step:
  assumes s: "relay_step Q C oc ev st = Inr (st', ob)" and i: "i < length (relay_shards st)"
  shows "length (sqes (relay_channel st')) \<le> Suc (length (sqes (relay_channel st)))
    \<and> unat (snd (relay_shards st' ! i)) \<le> Suc (unat (snd (relay_shards st ! i)))"
proof (cases ev)
  case (Turn j sid)
  show ?thesis
  proof (cases "j < length (relay_shards st)")
    case True
    obtain sh n where sh: "relay_shards st ! j = (sh, n)" by fastforce
    let ?q = "senders (relay_router st) ! j"
    from s Turn True sh obtain sh' q' c' n' e
      where t: "shard_turn Q C oc sid (sh, ?q, relay_channel st, n) = Inr ((sh', q', c', n'), e)"
        and st': "relay_channel st' = c'" "relay_shards st' = (relay_shards st)[j := (sh', n')]"
      by (auto simp: Let_def and_then_Inr)
    have "length (sqes (fst (q_enqueue C x c))) \<le> Suc (length (sqes c))" for x c
      using tx.enqueue_contents [of x c] by simp
    with t have "length (sqes c') \<le> Suc (length (sqes (relay_channel st))) \<and> unat n' \<le> Suc (unat n)"
      by (cases rule: shard_turn_cases) (auto simp: le_SucI unat_inc_le split: option.split)
    with st' sh True show ?thesis by (auto simp: nth_list_update)
  qed (use s Turn in auto)
next
  case Collect
  with s show ?thesis
    using tx.dequeue_contents [of "relay_channel st"] by (auto split: prod.splits option.splits)
qed (use s in \<open>auto simp: and_then_Inr\<close>)

lemma backlog_step:
  assumes "relay_step Q C oc ev st = Inr (st', ob)" and "backlog k st"
    and l: "length (relay_shards st) = length (senders (relay_router st))"
    and ne: "relay_shards st \<noteq> []"
  shows "backlog (Suc k) st'"
proof -
  have "messages [ev] \<le> 1" by (cases ev) auto
  then have "length (msgs (senders (relay_router st') ! i)) \<le> Suc k
      \<and> length (relay_shards st') = length (relay_shards st)" if "i < length (relay_shards st)" for i
    using queue_step [OF assms(1) _ l, of i] that assms(2) l by (fastforce simp: backlog_def)
  moreover have "length (sqes (relay_channel st')) \<le> Suc k \<and> unat (snd (relay_shards st' ! i)) \<le> Suc k"
    if "i < length (relay_shards st)" for i
    using channel_step [OF assms(1) that] assms(2) that by (fastforce simp: backlog_def)
  moreover have "0 < length (relay_shards st)" using ne by simp
  ultimately show ?thesis unfolding backlog_def by metis
qed

lemma backlog_room:
  assumes "relay_inv msgs t ids st" and "backlog k st" and "k < cap" and "k < qcap" and "k < 2 ^ 31 - 1"
  shows "room msgs qcap sqes cap ev st"
proof -
  from assms(1) have inv: "router_inv (relay_router st)"
    and l: "length (relay_shards st) = length (senders (relay_router st))" by (auto simp: relay_inv_def)
  then have nx: "next_shard (relay_router st) < length (senders (relay_router st))"
    by (simp add: router_inv_def)
  have q: "length (msgs (senders (relay_router st) ! i)) < qcap" if "i < length (senders (relay_router st))" for i
    using that assms(2,4) l by (fastforce simp: backlog_def)
  have n: "sint (snd (relay_shards st ! i)) < 2 ^ 31 - 1" if "i < length (relay_shards st)" for i
  proof -
    from that assms(2) have "unat (snd (relay_shards st ! i)) \<le> k" by (simp add: backlog_def)
    with assms(5) have "unat (snd (relay_shards st ! i)) < 2147483647" by simp
    moreover from this have "sint (snd (relay_shards st ! i)) = int (unat (snd (relay_shards st ! i)))"
      by (intro sint_of_small) simp
    ultimately have "sint (snd (relay_shards st ! i)) < 2147483647" by linarith
    then show ?thesis by simp
  qed
  have c: "length (sqes (relay_channel st)) < cap" using assms(2,3) by (simp add: backlog_def)
  show ?thesis
  proof (cases ev)
    case (Control m)
    with q nx show ?thesis by (cases m) auto
  next
    case (Arrive p)
    with q router_inv_endpoint [OF inv] show ?thesis by (auto split: option.split)
  qed (use n c in auto)
qed

lemma short_run_room:
  assumes "relay_inv msgs t ids st" and "backlog k st" and "relay_shards st \<noteq> []"
    and "k + length evs \<le> cap" and "k + length evs \<le> qcap" and "k + length evs < 2 ^ 31"
    and "distinct (ids_of evs)" and "ids \<inter> set (ids_of evs) = {}"
  shows "always_room Q msgs qcap C sqes cap oc evs st"
  using assms
proof (induction evs arbitrary: t ids k st)
  case (Cons ev evs)
  define t1 where "t1 = table_after (length (relay_shards st)) ev t"
  from Cons.prems(4-6) have room: "room msgs qcap sqes cap ev st"
    by (intro backlog_room [OF Cons.prems(1,2)]) auto
  have io: "ids_of (ev # evs) = ids_of [ev] @ ids_of evs" by (cases ev) auto
  with Cons.prems(8) have "ids \<inter> set (ids_of [ev]) = {}" by auto
  from step_spec [OF Cons.prems(1) room this, of oc] obtain st1 ob
    where s: "relay_step Q C oc ev st = Inr (st1, ob)"
      and i1: "relay_inv msgs t1 (ids \<union> set (ids_of [ev])) st1"
      and l1: "length (relay_shards st1) = length (relay_shards st)"
    by (auto simp: relay_step_spec_def t1_def simp del: relay_step.simps)
  from Cons.prems(1) have "length (relay_shards st) = length (senders (relay_router st))"
    by (simp add: relay_inv_def)
  from backlog_step [OF s Cons.prems(2) this Cons.prems(3)] have "backlog (Suc k) st1" .
  moreover from l1 Cons.prems(3) have "relay_shards st1 \<noteq> []" by auto
  moreover have "distinct (ids_of evs)" "(ids \<union> set (ids_of [ev])) \<inter> set (ids_of evs) = {}"
    using Cons.prems(7,8) io by auto
  ultimately have "always_room Q msgs qcap C sqes cap oc evs st1"
    using Cons.prems(4-6) by (intro Cons.IH [OF i1]) auto
  with room s show ?case by simp
qed simp

lemma short_runs_have_room:
  assumes "qs \<noteq> []" and "\<forall>q\<in>set qs. msgs q = []" and "sqes c = []"
    and "length evs \<le> cap" and "length evs \<le> qcap" and "length evs < 2 ^ 31" and "distinct (ids_of evs)"
  shows "always_room Q msgs qcap C sqes cap oc evs (Relay_new qs c)"
  using assms short_run_room [OF relay_inv_new [OF assms(1,2)], of 0 c evs oc]
  by (auto simp: backlog_def Relay_new_def ShardRouter_new_def)

end

interpretation list_relay: relay_queues "list_queue qcap" "\<lambda>q. q" qcap "list_queue cap" "\<lambda>q. q" cap
  by unfold_locales

lemmas list_relay_queues = list_relay.relay_queues_axioms

section \<open>Properties of the relay\<close>

text \<open>Property C7: the sharded relay implements one connection table. The specification
  \<open>promised_by\<close> reads the events only: every packet whose source is registered when it arrives,
  as either end of a session, is promised once to the other end, through the shard the session
  was dealt to; every other packet is promised nothing. For any interleaving of registrations,
  packets, shard turns and requests taken by the loop, with fresh session ids and room in the
  queues at every event (which every run no longer than the queues has), nothing panics; for
  every shard the promised requests are, in order, exactly those it has sent followed by those
  it will still send from what is in its queue; and what was sent is, in order, what the loop
  has taken followed by what is in the channel.\<close>

theorem relay_implements_table:
  assumes "relay_queues Q msgs qcap C sqes cap"
    and "qs \<noteq> []" and "\<forall>q\<in>set qs. msgs q = []" and "sqes c = []"
    and "always_room Q msgs qcap C sqes cap oc evs (Relay_new qs c)" and "distinct (ids_of evs)"
  shows "\<exists>st tr. relay_run Q C oc evs (Relay_new qs c) = Inr (st, tr)
    \<and> map fst tr = evs
    \<and> (\<forall>i < length qs. via i (promised_by (length qs) evs (0, Map.empty))
         = via i (sent_in tr) @ pending msgs st i)
    \<and> map snd (sent_in tr) = collected_in tr @ sqes (relay_channel st)"
  by (rule relay_queues.run_new [OF assms])

text \<open>Both ends of a session write, and an address without one.\<close>

abbreviation example_trace :: "nat relay_event list" where
  "example_trace \<equiv>
     [Arrive (example_packet 7 example_host), Control (AddSession example_session),
      Arrive (example_packet 8 example_host), Arrive (example_packet 9 example_stranger),
      Arrive (example_packet 10 example_client), Turn 0 0, Turn 0 1, Turn 1 2, Collect]"

abbreviation example_turns :: "nat relay_event list" where
  "example_turns \<equiv>
     [Turn 0 10, Turn 0 11, Turn 1 20, Turn 0 12, Turn 0 13, Turn 0 14, Turn 1 21, Turn 1 22, Turn 1 23, Turn 1 24]"

lemmas relay_eval = list_queue_def shard_turn_def handle_packet_def route_to_def add_session_def
  Shard_new_def turn_request_def route_def enqueue_at_def take_next_shard_def Relay_new_def
  ShardRouter_new_def

theorem relay_implements_table_witness:
  "\<exists>st tr. relay_run (list_queue 4) (list_queue 2) True example_trace (Relay_new [[], []] []) = Inr (st, tr)
    \<and> via 0 (sent_in tr) = [(example_client, 100, 8)]
    \<and> pending (\<lambda>q. q) st 0 = [(example_host, 100, 10)]
    \<and> collected_in tr = [(example_client, 100, 8)] \<and> relay_channel st = []"
proof -
  let ?run = "relay_run (list_queue 4) (list_queue 2) True example_trace (Relay_new [[], []] [])"
  have "always_room (list_queue 4) (\<lambda>q. q) 4 (list_queue 2) (\<lambda>q. q) 2 True example_trace (Relay_new [[], []] [])"
    by (simp add: relay_eval nth_Cons')
  with relay_implements_table [OF list_relay_queues [of 4 2], of "[[], []]" "[]" True example_trace]
  obtain st tr where r: "?run = Inr (st, tr)"
    and p: "via 0 (promised_by 2 example_trace (0, Map.empty)) = via 0 (sent_in tr) @ pending (\<lambda>q. q) st 0"
    and c: "map snd (sent_in tr) = collected_in tr @ relay_channel st"
    by (auto simp add: numeral_2_eq_2 simp del: relay_run.simps promised_by.simps)
  have "via 0 (promised_by 2 example_trace (0, Map.empty))
      = [(example_client, 100, 8), (example_host, 100, 10)]" by simp
  moreover from r have s: "sent_in tr = [(0, (example_client, 100, 8))]"
    and "collected_in tr = [(example_client, 100, 8)]"
    by (auto simp: relay_eval nth_Cons')
  ultimately show ?thesis using r p c by (intro exI [of _ st] exI [of _ tr]) (simp del: relay_run.simps)
qed

text \<open>Property C20: every packet of a connected source is requested. When, after any
  interleaving of registrations, packets and turns, every shard has taken as many turns as there
  were messages, the requests sent are exactly the promised ones, each once, in order for every
  shard: every packet whose source was registered when it arrived, as either end of its session,
  to the other end, and nothing else (with fresh session ids and room in the queues at every
  event).\<close>

theorem drained_relay_delivers:
  assumes "relay_queues Q msgs qcap C sqes cap"
    and "qs \<noteq> []" and "\<forall>q\<in>set qs. msgs q = []" and "sqes c = []"
    and "always_room Q msgs qcap C sqes cap oc (evs @ later) (Relay_new qs c)"
    and "distinct (ids_of (evs @ later))"
    and "messages later = 0" and "\<forall>i < length qs. messages evs \<le> turns i later"
  shows "\<exists>st tr. relay_run Q C oc (evs @ later) (Relay_new qs c) = Inr (st, tr)
    \<and> (\<forall>i < length qs. via i (sent_in tr) = via i (promised_by (length qs) evs (0, Map.empty)))
    \<and> mset (sent_in tr) = mset (promised_by (length qs) evs (0, Map.empty))"
proof -
  let ?P = "promised_by (length qs) evs (0, Map.empty)"
  from relay_queues.run_new [OF assms(1-6)] obtain st tr
    where r: "relay_run Q C oc (evs @ later) (Relay_new qs c) = Inr (st, tr)"
      and e: "\<forall>i < length qs. via i ?P = via i (sent_in tr) @ pending msgs st i"
    by (auto simp: promised_by_append_turns [OF assms(7)])
  have "pending msgs st i = []" if "i < length qs" for i
    using relay_queues.worked_off [OF assms(1) r assms(3,7) _ that] assms(8) that
    by (simp add: pending_def)
  with e have v: "\<forall>i < length qs. via i (sent_in tr) = via i ?P" by simp
  moreover have "mset (sent_in tr) = mset ?P"
  proof (rule mset_via [of "length qs"])
    show "fst x < length qs" if "x \<in> set (sent_in tr) \<union> set ?P" for x
      using that sent_in_shard [OF r] promised_by_shard [of x "length qs" evs 0 Map.empty] assms(2)
      by (cases x) (auto simp: Relay_new_def)
  qed (use v in simp)
  ultimately show ?thesis using r by blast
qed

theorem drained_relay_delivers_witness:
  "\<exists>st tr. relay_run (list_queue 4) (list_queue 2) True (example_trace @ example_turns) (Relay_new [[], []] []) = Inr (st, tr)
    \<and> sent_in tr = [(0, (example_client, 100, 8)), (0, (example_host, 100, 10))]"
proof -
  let ?evs = "example_trace @ example_turns"
  have room: "always_room (list_queue 4) (\<lambda>q. q) 4 (list_queue 2) (\<lambda>q. q) 2 True ?evs (Relay_new [[], []] [])"
    by (simp add: relay_eval nth_Cons')
  have n: "length [[], [] :: MessageType list] = 2" by simp
  have t: "\<forall>i < 2. messages example_trace \<le> turns i example_turns" by (simp add: less_2_cases_iff)
  have d: "distinct (ids_of ?evs)" and l: "messages example_turns = 0" by simp_all
  have ne: "[[], [] :: MessageType list] \<noteq> []" "\<forall>q\<in>set [[], [] :: MessageType list]. q = []" by simp_all
  from drained_relay_delivers [OF list_relay_queues [of 4 2] ne refl room d l, unfolded n, OF t]
  obtain st tr where r: "relay_run (list_queue 4) (list_queue 2) True ?evs (Relay_new [[], []] []) = Inr (st, tr)"
    and p: "\<forall>i < 2. via i (sent_in tr) = via i (promised_by 2 example_trace (0, Map.empty))"
      "mset (sent_in tr) = mset (promised_by 2 example_trace (0, Map.empty))"
    by blast
  have P: "promised_by 2 example_trace (0, Map.empty)
      = [(0, (example_client, 100, 8)), (0, (example_host, 100, 10))]" by simp
  have "set (sent_in tr) = set (promised_by 2 example_trace (0, Map.empty))"
    by (rule mset_eq_setD [OF p(2)])
  then have "\<forall>x\<in>set (sent_in tr). fst x = 0" unfolding P by simp
  then have "sent_in tr = map (Pair 0) (via 0 (sent_in tr))" by (rule via_all [symmetric])
  also have "via 0 (sent_in tr) = via 0 (promised_by 2 example_trace (0, Map.empty))" using p(1) by simp
  finally have "sent_in tr = [(0, (example_client, 100, 8)), (0, (example_host, 100, 10))]"
    unfolding P by simp
  with r show ?thesis by blast
qed

end
