(* ===== verification/TurnSystem.thy ===== *)
theory TurnSystem
  imports TurnLoop TurnRelay "HOL-Library.Multiset"
begin

text \<open>
  The relay as a whole: the ring loop, the shard threads and the kernel, interleaved in any
  order. The subject is the ownership of buffers: at any time a buffer is with at most one of
  the submission queue, the kernel, the completion queue, a shard's queue and the request
  channel.
\<close>

section \<open>The system\<close>

record ('sid, 'q, 'c, 'k, 'st) Turn =
  t_loop :: "('st, 'k, 'q) LoopState"
  t_shards :: "('sid Shard \<times> i32) list"
  t_channel :: 'c
  t_inflight :: "Entry list"   \<comment> \<open>taken by the kernel, not completed\<close>
  t_cq :: "Cqe list"           \<comment> \<open>completions the loop has not seen\<close>

datatype 'sid turn_event =
    LoopControl MessageType          \<comment> \<open>the loop handles a control message\<close>
  | LoopRequest                      \<comment> \<open>the loop takes a request and posts the send\<close>
  | LoopSync                         \<comment> \<open>the loop publishes its submissions\<close>
  | LoopCqe                          \<comment> \<open>the loop handles a completion\<close>
  | ShardTurn nat 'sid
  | KernelTake                       \<comment> \<open>the kernel takes a published submission\<close>
  | KernelComplete nat sockaddr "u8 list" int u32
      \<comment> \<open>an operation completes: source and bytes received, result, flags\<close>

text \<open>A receive that succeeds writes the sender's address into the header's storage and the
  datagram, cut to the vector's length, into the buffer.\<close>

definition write_bytes :: "nat \<Rightarrow> u8 list \<Rightarrow> u8 list \<Rightarrow> u8 list" where
  "write_bytes base ds mem = take base mem @ ds @ drop (base + length ds) mem"

definition kernel_receive ::
  "'st libc_ops \<Rightarrow> bool \<Rightarrow> u16 \<Rightarrow> sockaddr \<Rightarrow> u8 list \<Rightarrow> 'st BufferPool \<Rightarrow> 'st BufferPool"
where
  "kernel_receive L le idx a ds pool =
     (case live_slots pool idx of
        None \<Rightarrow> pool
      | Some s \<Rightarrow>
          pool\<lparr>memory := write_bytes (iov_base s) (take (iov_len s) ds) (memory pool),
               live_slots := (live_slots pool)(idx \<mapsto>
                 s\<lparr>slot_addr := fst (write_socket_addr L le (slot_addr s) a)\<rparr>)\<rparr>)"

text \<open>While a completion announces more, the operation stays in flight; a receive completes
  once.\<close>

definition kernel_complete ::
  "('st, 'k, 'q) Env \<Rightarrow> nat \<Rightarrow> sockaddr \<Rightarrow> u8 list \<Rightarrow> int \<Rightarrow> u32
    \<Rightarrow> ('sid, 'q, 'c, 'k, 'st) Turn \<Rightarrow> ('sid, 'q, 'c, 'k, 'st) Turn"
where
  "kernel_complete E n a ds res flags st =
     (if n < length (t_inflight st) then
        (let e = t_inflight st ! n; more = e_more E flags; loop = t_loop st
         in if sqe_opcode e = RecvMsg \<and> more then st
            else st\<lparr>t_loop :=
                       (if sqe_opcode e = RecvMsg \<and> 0 \<le> res
                        then loop\<lparr>l_pool := kernel_receive (e_libc E) (e_le E) (sqe_msghdr e) a ds (l_pool loop)\<rparr>
                        else loop),
                     t_inflight := (if more then t_inflight st
                        else take n (t_inflight st) @ drop (Suc n) (t_inflight st)),
                     t_cq := t_cq st @
                       [\<lparr>cqe_user_data = user_data e, cqe_result = res, cqe_flags = flags\<rparr>]\<rparr>)
      else st)"

fun turn_step ::
  "('st, 'k, 'q) Env \<Rightarrow> ('c, SqeType) queue_ops \<Rightarrow> bool \<Rightarrow> 'sid turn_event
    \<Rightarrow> ('sid, 'q, 'c, 'k, 'st) Turn \<Rightarrow> turn_panic + ('sid, 'q, 'c, 'k, 'st) Turn"
where
  "turn_step E C oc (LoopControl m) st =
     (let loop = t_loop st
      in and_then (control_message (e_queue E) m (l_router loop)) (\<lambda>r.
           Inr (st\<lparr>t_loop := loop\<lparr>l_router := r\<rparr>\<rparr>)))"
| "turn_step E C oc LoopRequest st =
     (case q_dequeue C (t_channel st) of
        (None, c) \<Rightarrow> Inr (st\<lparr>t_channel := c\<rparr>)
      | (Some req, c) \<Rightarrow>
          and_then (post_request E req (t_loop st)) (\<lambda>loop.
            Inr (st\<lparr>t_channel := c, t_loop := loop\<rparr>)))"
| "turn_step E C oc LoopSync st =
     (let loop = t_loop st in Inr (st\<lparr>t_loop := loop\<lparr>l_ring := sq_sync (e_ring E) (l_ring loop)\<rparr>\<rparr>))"
| "turn_step E C oc LoopCqe st =
     (case t_cq st of
        [] \<Rightarrow> Inr st
      | c # cs \<Rightarrow> and_then (handle_cqe E c (t_loop st)) (\<lambda>loop. Inr (st\<lparr>t_cq := cs, t_loop := loop\<rparr>)))"
| "turn_step E C oc (ShardTurn i sid) st =
     (if i < length (t_shards st) then
        (let (sh, n) = t_shards st ! i; loop = t_loop st; r = l_router loop
         in and_then (shard_turn (e_queue E) C oc sid (sh, senders r ! i, t_channel st, n))
              (\<lambda>((sh', q', c', n'), _).
                Inr (st\<lparr>t_shards := (t_shards st)[i := (sh', n')],
                        t_loop := loop\<lparr>l_router := r\<lparr>senders := (senders r)[i := q']\<rparr>\<rparr>,
                        t_channel := c'\<rparr>)))
      else Inr st)"
| "turn_step E C oc KernelTake st =
     (let loop = t_loop st
      in case ring_take (e_ring E) (l_ring loop) of
           (None, ring) \<Rightarrow> Inr (st\<lparr>t_loop := loop\<lparr>l_ring := ring\<rparr>\<rparr>)
         | (Some e, ring) \<Rightarrow>
             Inr (st\<lparr>t_loop := loop\<lparr>l_ring := ring\<rparr>, t_inflight := t_inflight st @ [e]\<rparr>))"
| "turn_step E C oc (KernelComplete n a ds res flags) st = Inr (kernel_complete E n a ds res flags st)"

fun turn_run ::
  "('st, 'k, 'q) Env \<Rightarrow> ('c, SqeType) queue_ops \<Rightarrow> bool \<Rightarrow> 'sid turn_event list
    \<Rightarrow> ('sid, 'q, 'c, 'k, 'st) Turn \<Rightarrow> turn_panic + ('sid, 'q, 'c, 'k, 'st) Turn"
where
  "turn_run E C oc [] st = Inr st"
| "turn_run E C oc (ev # evs) st = and_then (turn_step E C oc ev st) (turn_run E C oc evs)"

section \<open>Who holds a buffer\<close>

text \<open>The abstractions of the queues and of the ring, as one argument.\<close>

record ('q, 'c, 'k) View =
  v_msgs :: "'q \<Rightarrow> MessageType list"
  v_sqes :: "'c \<Rightarrow> SqeType list"
  v_unsynced :: "'k \<Rightarrow> Entry list"
  v_synced :: "'k \<Rightarrow> Entry list"

definition submitted_entries :: "('q, 'c, 'k) View \<Rightarrow> ('sid, 'q, 'c, 'k, 'st) Turn \<Rightarrow> Entry list" where
  "submitted_entries V st =
     v_unsynced V (l_ring (t_loop st)) @ v_synced V (l_ring (t_loop st)) @ t_inflight st"

definition cqe_op :: "Cqe \<Rightarrow> OpType" where "cqe_op c = fst (decode_token (cqe_user_data c))"
definition cqe_idx :: "Cqe \<Rightarrow> u16" where "cqe_idx c = snd (decode_token (cqe_user_data c))"

text \<open>The completions that hand the buffer back.\<close>

definition final_cqes :: "('st, 'k, 'q) Env \<Rightarrow> Cqe list \<Rightarrow> Cqe list" where
  "final_cqes E cs = filter (\<lambda>c. \<not> e_more E (cqe_flags c)) cs"

fun msg_bufs :: "MessageType list \<Rightarrow> u16 list" where
  "msg_bufs [] = []"
| "msg_bufs (AddSession s # ms) = msg_bufs ms"
| "msg_bufs (Transmit p # ms) = buf_idx p # msg_bufs ms"

abbreviation sqe_buf :: "SqeType \<Rightarrow> u16" where "sqe_buf x \<equiv> snd (snd x)"

definition held ::
  "('st, 'k, 'q) Env \<Rightarrow> ('q, 'c, 'k) View \<Rightarrow> ('sid, 'q, 'c, 'k, 'st) Turn \<Rightarrow> u16 multiset"
where
  "held E V st =
     mset (map sqe_msghdr (submitted_entries V st))
     + mset (map cqe_idx (final_cqes E (t_cq st)))
     + mset (concat (map (\<lambda>q. msg_bufs (v_msgs V q)) (senders (l_router (t_loop st)))))
     + mset (map sqe_buf (v_sqes V (t_channel st)))"

definition all_buffers :: "u16 set" where
  "all_buffers = {i. unat i < POOL_SIZE}"

text \<open>Buffers being sent, whose time stamps the completion will unwrap.\<close>

definition sending ::
  "('st, 'k, 'q) Env \<Rightarrow> ('q, 'c, 'k) View \<Rightarrow> ('sid, 'q, 'c, 'k, 'st) Turn \<Rightarrow> u16 set"
where
  "sending E V st =
     {sqe_msghdr e |e. e \<in> set (submitted_entries V st) \<and> sqe_opcode e = SendMsgZc}
     \<union> {cqe_idx c |c. c \<in> set (final_cqes E (t_cq st)) \<and> cqe_op c = Send}"

definition stamped :: "'st BufferPool \<Rightarrow> u16 \<Rightarrow> bool" where
  "stamped pool i \<longleftrightarrow>
     (case timestamp pool i of None \<Rightarrow> True | Some t \<Rightarrow> shard_done_at t \<noteq> None \<and> send_sqe_at t \<noteq> None)"

definition entry_ok :: "Entry \<Rightarrow> bool" where
  "entry_ok e \<longleftrightarrow> user_data e =
     encode_token (case sqe_opcode e of RecvMsg \<Rightarrow> Recv | SendMsgZc \<Rightarrow> Send) (sqe_msghdr e)"

definition cqe_ok :: "('st, 'k, 'q) Env \<Rightarrow> Cqe \<Rightarrow> bool" where
  "cqe_ok E c \<longleftrightarrow> cqe_op c \<noteq> SendNotif \<and> (cqe_op c = Recv \<longrightarrow> \<not> e_more E (cqe_flags c))"

definition slots_ok :: "'st BufferPool \<Rightarrow> bool" where
  "slots_ok pool \<longleftrightarrow>
     pool_ok pool \<and> (\<forall>s\<in>ran (live_slots pool). iov_base s + iov_len s \<le> length (memory pool))"

definition turn_inv ::
  "('st, 'k, 'q) Env \<Rightarrow> ('q, 'c, 'k) View \<Rightarrow> ('sid, 'q, 'c, 'k, 'st) Turn \<Rightarrow> bool"
where
  "turn_inv E V st \<longleftrightarrow>
     held E V st \<subseteq># mset_set all_buffers
     \<and> slots_ok (l_pool (t_loop st))
     \<and> (\<forall>e\<in>set (submitted_entries V st). entry_ok e)
     \<and> (\<forall>c\<in>set (t_cq st). cqe_ok E c)
     \<and> (\<forall>i\<in>sending E V st. stamped (l_pool (t_loop st)) i)
     \<and> router_inv (l_router (t_loop st))
     \<and> length (t_shards st) = length (senders (l_router (t_loop st)))"

section \<open>Ownership is preserved\<close>

lemma finite_buffers [simp]: "finite all_buffers"
  by (rule finite)

lemma owned_once:
  assumes "add_mset i M \<subseteq># mset_set all_buffers"
  shows "unat i < POOL_SIZE" and "i \<notin># M"
proof -
  from mset_subset_eq_count [OF assms, of i]
  have "Suc (count M i) \<le> (if i \<in> all_buffers then 1 else 0)" by (simp add: count_mset_set')
  then show "unat i < POOL_SIZE" "i \<notin># M"
    by (auto simp: all_buffers_def not_in_iff split: if_splits)
qed

lemma msg_bufs_append [simp]: "msg_bufs (xs @ ys) = msg_bufs xs @ msg_bufs ys"
  by (induction xs rule: msg_bufs.induct) auto

lemma mset_concat_update:
  assumes "i < length xs"
  shows "mset (concat (map f (xs[i := y]))) + mset (f (xs ! i)) = mset (concat (map f xs)) + mset (f y)"
proof -
  have "xs = take i xs @ xs ! i # drop (Suc i) xs" using assms by (rule id_take_nth_drop)
  then have "mset (concat (map f xs)) =
      mset (concat (map f (take i xs))) + mset (f (xs ! i)) + mset (concat (map f (drop (Suc i) xs)))"
    by (metis (no_types, lifting) add.assoc concat.simps(2) concat_append list.simps(9) map_append mset_append)
  moreover have "mset (concat (map f (xs[i := y]))) =
      mset (concat (map f (take i xs))) + mset (f y) + mset (concat (map f (drop (Suc i) xs)))"
    by (simp add: upd_conv_take_nth_drop [OF assms])
  ultimately show ?thesis by simp
qed

lemma decode_entry:
  "entry_ok e \<Longrightarrow> decode_token (user_data e) =
    (case sqe_opcode e of RecvMsg \<Rightarrow> Recv | SendMsgZc \<Rightarrow> Send, sqe_msghdr e)"
  by (simp add: entry_ok_def decode_encode)

lemma entry_ok_simps [simp]: "entry_ok (recv_entry fd i)" "entry_ok (send_entry fd i)"
  by (simp_all add: entry_ok_def)

lemma stamped_other: "timestamp p' j = timestamp p j \<Longrightarrow> stamped p' j = stamped p j"
  by (simp add: stamped_def)

lemma mark_simps [simp]:
  "memory (mark_recv_for i t p) = memory p" "live_slots (mark_recv_for i t p) = live_slots p"
  "memory (mark_shard_done_at i t p) = memory p" "live_slots (mark_shard_done_at i t p) = live_slots p"
  "memory (mark_send_sqe_at i t p) = memory p" "live_slots (mark_send_sqe_at i t p) = live_slots p"
  "j \<noteq> i \<Longrightarrow> timestamp (mark_recv_for i t p) j = timestamp p j"
  "j \<noteq> i \<Longrightarrow> timestamp (mark_shard_done_at i t p) j = timestamp p j"
  "j \<noteq> i \<Longrightarrow> timestamp (mark_send_sqe_at i t p) j = timestamp p j"
  by (auto simp: mark_recv_for_def mark_shard_done_at_def mark_send_sqe_at_def split: option.split)

lemma slots_ok_simps [simp]:
  "slots_ok (mark_recv_for i t p) = slots_ok p" "slots_ok (mark_shard_done_at i t p) = slots_ok p"
  "slots_ok (mark_send_sqe_at i t p) = slots_ok p" "slots_ok (p\<lparr>timestamp := ts\<rparr>) = slots_ok p"
  by (simp_all add: slots_ok_def pool_ok_def)

lemma slots_ok_post:
  assumes "slots_ok p" and "unat i < POOL_SIZE"
  shows "slots_ok (p\<lparr>live_slots := (live_slots p)(i \<mapsto> MsgHdrSlot_new L le (unat i * BUFFER_SIZE) a)\<rparr>)"
proof -
  have "unat i * BUFFER_SIZE + BUFFER_SIZE \<le> length (memory p)"
    using mult_le_mono1 [of "Suc (unat i)" POOL_SIZE BUFFER_SIZE] assms by (simp add: slots_ok_def pool_ok_def)
  with assms(1) show ?thesis
    by (auto simp: slots_ok_def pool_ok_def ran_def)
qed

lemma stamped_after_marks:
  "stamped (mark_send_sqe_at i t (p'\<lparr>live_slots := ls\<rparr>)) i" if "p' = mark_shard_done_at i t' p"
  using that by (auto simp: stamped_def mark_send_sqe_at_def mark_shard_done_at_def split: option.split)

lemma post_request_ok:
  assumes "slots_ok (l_pool st)" and "unat idx < POOL_SIZE"
  shows "\<exists>st'. post_request E (a, n, idx) st = Inr st' \<and> l_router st' = l_router st
    \<and> l_ring st' = fst (sq_push (e_ring E) (send_entry (e_fd E) idx) (l_ring st))
    \<and> slots_ok (l_pool st') \<and> stamped (l_pool st') idx
    \<and> (\<forall>j. j \<noteq> idx \<longrightarrow> stamped (l_pool st') j = stamped (l_pool st) j)"
proof -
  define p where "p = mark_shard_done_at idx (e_clock E (l_calls st)) (l_pool st)"
  have p1: "slots_ok p" using assms(1) by (simp add: p_def)
  then have p: "slots_ok p" "pool_ok p" by (simp_all add: slots_ok_def)
  define p' where "p' = p\<lparr>live_slots := (live_slots p)(idx \<mapsto>
      MsgHdrSlot_new (e_libc E) (e_le E) (unat idx * BUFFER_SIZE) (Some a))\<rparr>"
  have p': "slots_ok p'" unfolding p'_def by (rule slots_ok_post [OF p(1) assms(2)])
  have s: "stamped (mark_send_sqe_at idx t p') idx" for t
    unfolding p'_def by (rule stamped_after_marks [OF p_def])
  have o: "stamped (mark_send_sqe_at idx t p') j = stamped (l_pool st) j" if "j \<noteq> idx" for t j
    using that by (intro stamped_other) (simp add: p'_def p_def)
  have "post_request E (a, n, idx) st = Inr (st\<lparr>
      l_pool := mark_send_sqe_at idx (e_clock E (l_calls st + 1)) p',
      l_ring := fst (sq_push (e_ring E) (send_entry (e_fd E) idx) (l_ring st)),
      l_calls := l_calls st + 2\<rparr>)"
    by (simp add: post_request_def instant_now_def p_def [symmetric] post_send_ok [OF p(2) assms(2)] p'_def)
  with p' s o show ?thesis by auto
qed

lemma loop_release_ok:
  assumes "slots_ok (l_pool st)" and "unat idx < POOL_SIZE"
  shows "\<exists>st'. loop_release E idx st = Inr st' \<and> l_router st' = l_router st
    \<and> l_ring st' = fst (sq_push (e_ring E) (recv_entry (e_fd E) idx) (l_ring st))
    \<and> slots_ok (l_pool st') \<and> timestamp (l_pool st') = timestamp (l_pool st)"
  using slots_ok_post [OF assms, of "e_libc E" "e_le E" None] assms(1)
  by (simp add: loop_release_def release_def post_recv_ok [OF _ assms(2)] slots_ok_def)

lemma handle_send_ok:
  assumes "slots_ok (l_pool st)" and "unat idx < POOL_SIZE" and "stamped (l_pool st) idx"
    and "\<not> e_more E flags"
  shows "\<exists>st'. handle_send E idx flags st = Inr st' \<and> l_router st' = l_router st
    \<and> l_ring st' = fst (sq_push (e_ring E) (recv_entry (e_fd E) idx) (l_ring st))
    \<and> slots_ok (l_pool st') \<and> (\<forall>j. j \<noteq> idx \<longrightarrow> stamped (l_pool st') j = stamped (l_pool st) j)"
proof -
  from loop_release_ok [OF assms(1,2), of E] obtain st1
    where r: "loop_release E idx st = Inr st1" "l_router st1 = l_router st"
      "l_ring st1 = fst (sq_push (e_ring E) (recv_entry (e_fd E) idx) (l_ring st))"
      "slots_ok (l_pool st1)" "timestamp (l_pool st1) = timestamp (l_pool st)" by blast
  show ?thesis
  proof (cases "timestamp (l_pool st) idx")
    case None
    with r assms(4) show ?thesis
      by (auto simp: handle_send_def take_recv_for_def intro!: stamped_other)
  next
    case (Some t)
    with assms(3) obtain d s where t: "shard_done_at t = Some d" "send_sqe_at t = Some s"
      by (auto simp: stamped_def)
    with r assms(4) Some show ?thesis
      by (auto simp: handle_send_def take_recv_for_def log_timing_def instant_now_def intro!: stamped_other)
  qed
qed

lemma handle_recv_route:
  assumes "router_inv (l_router st)"
  shows "\<exists>st' p. handle_recv E idx n st = Inr st' \<and> buf_idx p = idx
    \<and> route (e_queue E) p (l_router st) = Inr (l_router st') \<and> router_inv (l_router st')
    \<and> length (senders (l_router st')) = length (senders (l_router st))
    \<and> l_ring st' = l_ring st \<and> slots_ok (l_pool st') = slots_ok (l_pool st)
    \<and> (\<forall>j. j \<noteq> idx \<longrightarrow> stamped (l_pool st') j = stamped (l_pool st) j)"
proof -
  define p where "p = \<lparr>buf_idx = idx, len = n,
    src = get_peer_addr (e_libc E) (e_le E) idx (mark_recv_for idx (e_clock E (l_calls st)) (l_pool st))\<rparr>"
  from route_inv [OF assms, of "e_queue E" p] obtain r where r: "route (e_queue E) p (l_router st) = Inr r"
    "router_inv r" "length (senders r) = length (senders (l_router st))" by blast
  then have "handle_recv E idx n st = Inr (st\<lparr>
      l_pool := mark_recv_for idx (e_clock E (l_calls st + 1)) (mark_recv_for idx (e_clock E (l_calls st)) (l_pool st)),
      l_router := r, l_calls := l_calls st + 2\<rparr>)"
    by (simp add: handle_recv_def instant_now_def p_def Let_def)
  with r show ?thesis by (auto simp: p_def intro!: stamped_other exI [of _ p])
qed


definition queue_bufs :: "('q \<Rightarrow> MessageType list) \<Rightarrow> 'q ShardRouter \<Rightarrow> u16 multiset" where
  "queue_bufs msgs r = mset (concat (map (\<lambda>q. msg_bufs (msgs q)) (senders r)))"

definition turn_ok ::
  "('st, 'k, 'q) Env \<Rightarrow> ('q, 'c, 'k) View \<Rightarrow> ('sid, 'q, 'c, 'k, 'st) Turn
    \<Rightarrow> turn_panic + ('sid, 'q, 'c, 'k, 'st) Turn \<Rightarrow> bool"
where
  "turn_ok E V st res \<longleftrightarrow>
     (case res of
        Inl e \<Rightarrow> e = ArithmeticOverflow
      | Inr st' \<Rightarrow> turn_inv E V st' \<and> held E V st' \<subseteq># held E V st)"

text \<open>A step that takes nothing new into hold, keeps tokens and shapes, and sends only what was
  stamped.\<close>

lemma turn_okI:
  assumes "turn_inv E V st" and "held E V st' \<subseteq># held E V st"
    and "slots_ok (l_pool (t_loop st'))"
    and "\<And>e. e \<in> set (submitted_entries V st') \<Longrightarrow> entry_ok e"
    and "\<And>c. c \<in> set (t_cq st') \<Longrightarrow> cqe_ok E c"
    and "\<And>i. i \<in> sending E V st' \<Longrightarrow> stamped (l_pool (t_loop st')) i"
    and "router_inv (l_router (t_loop st'))"
    and "length (t_shards st') = length (senders (l_router (t_loop st')))"
  shows "turn_ok E V st (Inr st')"
  using assms subset_mset.order_trans [OF assms(2)] by (auto simp: turn_ok_def turn_inv_def)

lemma kernel_receive_slots:
  assumes "slots_ok pool"
  shows "slots_ok (kernel_receive L le idx a ds pool)"
    and "timestamp (kernel_receive L le idx a ds pool) = timestamp pool"
proof -
  show "slots_ok (kernel_receive L le idx a ds pool)"
  proof (cases "live_slots pool idx")
    case (Some s)
    with assms have s: "iov_base s + iov_len s \<le> length (memory pool)"
      by (auto simp: slots_ok_def dest: ranI)
    then have "length (write_bytes (iov_base s) (take (iov_len s) ds) (memory pool)) = length (memory pool)"
      by (simp add: write_bytes_def)
    with assms s Some show ?thesis by (auto simp: kernel_receive_def slots_ok_def pool_ok_def ran_def)
  qed (use assms in \<open>simp add: kernel_receive_def\<close>)
qed (simp add: kernel_receive_def split: option.split)

locale turn_system = shard_queues "e_queue E" msgs C sqes cap + ring: uring "e_ring E" unsynced synced slots
  for E :: "('st, 'k, 'q) Env" and msgs :: "'q \<Rightarrow> MessageType list"
    and C :: "('c, SqeType) queue_ops" and sqes :: "'c \<Rightarrow> SqeType list" and cap :: nat
    and unsynced :: "'k \<Rightarrow> Entry list" and synced :: "'k \<Rightarrow> Entry list" and slots :: "'k \<Rightarrow> nat"
begin

abbreviation V :: "('q, 'c, 'k) View" where
  "V \<equiv> \<lparr>v_msgs = msgs, v_sqes = sqes, v_unsynced = unsynced, v_synced = synced\<rparr>"

lemma held_eq:
  "held E V st = mset (map sqe_msghdr (unsynced (l_ring (t_loop st))))
     + mset (map sqe_msghdr (synced (l_ring (t_loop st)))) + mset (map sqe_msghdr (t_inflight st))
     + mset (map cqe_idx (final_cqes E (t_cq st))) + queue_bufs msgs (l_router (t_loop st))
     + mset (map sqe_buf (sqes (t_channel st)))"
  by (simp add: held_def submitted_entries_def queue_bufs_def)

lemma enqueue_bufs:
  assumes "i < length (senders r)"
  shows "queue_bufs msgs (r\<lparr>senders := (senders r)[i := fst (q_enqueue (e_queue E) m (senders r ! i))]\<rparr>)
    \<subseteq># queue_bufs msgs r + mset (msg_bufs [m])"
proof -
  let ?q = "senders r ! i"
  define q' where "q' = fst (q_enqueue (e_queue E) m ?q)"
  have "mset (msg_bufs (msgs q')) \<subseteq># mset (msg_bufs (msgs ?q)) + mset (msg_bufs [m])"
    using rx.enqueue_contents [of m ?q] by (simp add: q'_def)
  then have "queue_bufs msgs r + mset (msg_bufs (msgs q'))
      \<subseteq># queue_bufs msgs r + (mset (msg_bufs (msgs ?q)) + mset (msg_bufs [m]))"
    by (rule subset_mset.add_left_mono)
  moreover have "queue_bufs msgs (r\<lparr>senders := (senders r)[i := q']\<rparr>) + mset (msg_bufs (msgs ?q))
      = queue_bufs msgs r + mset (msg_bufs (msgs q'))"
    using mset_concat_update [OF assms, of "\<lambda>q. msg_bufs (msgs q)" q'] by (simp add: queue_bufs_def)
  ultimately have "queue_bufs msgs (r\<lparr>senders := (senders r)[i := q']\<rparr>) + mset (msg_bufs (msgs ?q))
      \<subseteq># (queue_bufs msgs r + mset (msg_bufs [m])) + mset (msg_bufs (msgs ?q))"
    by (simp only: add_ac)
  then show ?thesis unfolding q'_def by (simp only: subset_mset.add_le_cancel_right)
qed

lemma dequeue_bufs:
  assumes "i < length (senders r)" and "msgs (senders r ! i) = m # msgs q'"
  shows "queue_bufs msgs (r\<lparr>senders := (senders r)[i := q']\<rparr>) + mset (msg_bufs [m]) = queue_bufs msgs r"
proof -
  have "mset (msg_bufs (msgs (senders r ! i))) = mset (msg_bufs [m]) + mset (msg_bufs (msgs q'))"
    using msg_bufs_append [of "[m]" "msgs q'"] assms(2) by simp
  with mset_concat_update [OF assms(1), of "\<lambda>q. msg_bufs (msgs q)" q'] show ?thesis
    by (simp add: queue_bufs_def add_ac)
qed

lemma route_bufs:
  assumes "router_inv r" and "route (e_queue E) p r = Inr r'"
  shows "queue_bufs msgs r' \<subseteq># add_mset (buf_idx p) (queue_bufs msgs r)"
proof (cases "endpoint_to_shard r (src p)")
  case None
  with assms(2) show ?thesis by (simp add: route_def subset_mset.add_increasing2)
next
  case (Some i)
  with router_inv_endpoint [OF assms(1) Some] assms(2) enqueue_bufs [of i r "Transmit p"]
  show ?thesis by (auto simp: route_def enqueue_at_def)
qed

lemma control_bufs:
  assumes "router_inv r" and "control_message (e_queue E) m r = Inr r'"
  shows "queue_bufs msgs r' \<subseteq># queue_bufs msgs r"
proof (cases m)
  case (AddSession s)
  with assms(1) have "next_shard r < length (senders r)" by (simp add: router_inv_def)
  from enqueue_bufs [OF this, of m] AddSession assms(2) control_add_session [OF assms(1), of "e_queue E" s]
  show ?thesis by (auto simp: queue_bufs_def)
qed (use assms in simp)

lemma push_bufs:
  "mset (map sqe_msghdr (unsynced (fst (sq_push (e_ring E) e k))))
    \<subseteq># add_mset (sqe_msghdr e) (mset (map sqe_msghdr (unsynced k)))"
  by (simp add: ring.push_unsynced)

section \<open>The steps\<close>

lemma turn_invD:
  assumes "turn_inv E V st"
  shows "slots_ok (l_pool (t_loop st))" "\<And>e. e \<in> set (submitted_entries V st) \<Longrightarrow> entry_ok e"
    "\<And>c. c \<in> set (t_cq st) \<Longrightarrow> cqe_ok E c"
    "\<And>i. i \<in> sending E V st \<Longrightarrow> stamped (l_pool (t_loop st)) i"
    "router_inv (l_router (t_loop st))"
    "length (t_shards st) = length (senders (l_router (t_loop st)))"
    "held E V st \<subseteq># mset_set all_buffers"
  using assms unfolding turn_inv_def by blast+

lemma control_ok:
  assumes "turn_inv E V st"
  shows "turn_ok E V st (turn_step E C oc (LoopControl m) st)"
proof -
  note inv = turn_invD [OF assms]
  from control_message_inv [OF inv(5), of "e_queue E" m] obtain r
    where r: "control_message (e_queue E) m (l_router (t_loop st)) = Inr r" "router_inv r"
      "length (senders r) = length (senders (l_router (t_loop st)))" by blast
  let ?st' = "st\<lparr>t_loop := (t_loop st)\<lparr>l_router := r\<rparr>\<rparr>"
  have s: "submitted_entries V ?st' = submitted_entries V st" "sending E V ?st' = sending E V st"
    by (simp_all add: submitted_entries_def sending_def)
  have "held E V ?st' \<subseteq># held E V st"
    using control_bufs [OF inv(5) r(1)] by (simp add: held_eq)
  then have "turn_ok E V st (Inr ?st')"
    using inv r s by (intro turn_okI [OF assms]) simp_all
  then show ?thesis using r(1) by (simp add: Let_def)
qed

lemma sync_ok:
  assumes "turn_inv E V st"
  shows "turn_ok E V st (turn_step E C oc LoopSync st)"
proof -
  note inv = turn_invD [OF assms]
  let ?st' = "st\<lparr>t_loop := (t_loop st)\<lparr>l_ring := sq_sync (e_ring E) (l_ring (t_loop st))\<rparr>\<rparr>"
  have s: "set (submitted_entries V ?st') = set (submitted_entries V st)"
    by (auto simp: submitted_entries_def ring.sync_unsynced ring.sync_synced)
  then have "sending E V ?st' = sending E V st" by (simp add: sending_def)
  moreover have "held E V ?st' = held E V st"
    by (simp add: held_eq ring.sync_unsynced ring.sync_synced add_ac)
  ultimately have "turn_ok E V st (Inr ?st')"
    using inv s by (intro turn_okI [OF assms]) simp_all
  then show ?thesis by (simp add: Let_def)
qed

lemma take_ok:
  assumes "turn_inv E V st"
  shows "turn_ok E V st (turn_step E C oc KernelTake st)"
proof -
  note inv = turn_invD [OF assms]
  obtain x k where t: "ring_take (e_ring E) (l_ring (t_loop st)) = (x, k)" by fastforce
  let ?k = "l_ring (t_loop st)"
  let ?fl = "case x of None \<Rightarrow> t_inflight st | Some e \<Rightarrow> t_inflight st @ [e]"
  let ?st' = "st\<lparr>t_loop := (t_loop st)\<lparr>l_ring := k\<rparr>, t_inflight := ?fl\<rparr>"
  have k: "unsynced k = unsynced ?k" "synced ?k = (case x of None \<Rightarrow> synced k | Some e \<Rightarrow> e # synced k)"
    using t ring.take_result [of ?k] ring.take_keeps [of ?k] by (auto split: list.splits)
  have s: "set (submitted_entries V ?st') = set (submitted_entries V st)"
    using k by (cases x) (auto simp: submitted_entries_def)
  then have "sending E V ?st' = sending E V st" by (simp add: sending_def)
  moreover have "held E V ?st' = held E V st"
    using k by (cases x) (simp_all add: held_eq)
  ultimately have "turn_ok E V st (Inr ?st')"
    using inv s by (intro turn_okI [OF assms]) simp_all
  moreover have "turn_step E C oc KernelTake st = Inr ?st'"
    by (cases x) (simp_all add: t Let_def)
  ultimately show ?thesis by simp
qed

lemma push_set:
  "set (unsynced (fst (sq_push (e_ring E) e k))) \<subseteq> insert e (set (unsynced k))"
  by (auto simp: ring.push_unsynced)

text \<open>A buffer taken from the channel or from a completion goes into the submission queue.\<close>

lemma post_ok:
  assumes inv: "turn_inv E V st"
    and ring: "l_ring loop = fst (sq_push (e_ring E) e (l_ring (t_loop st)))"
    and router: "l_router loop = l_router (t_loop st)"
    and e: "entry_ok e" "sqe_msghdr e = idx" "sqe_opcode e = SendMsgZc \<longrightarrow> stamped (l_pool loop) idx"
    and pool: "slots_ok (l_pool loop)" "\<And>j. j \<noteq> idx \<Longrightarrow> stamped (l_pool loop) j = stamped (l_pool (t_loop st)) j"
    and st': "st' = st\<lparr>t_channel := c, t_cq := cq, t_loop := loop\<rparr>"
    and bufs: "mset (map sqe_buf (sqes (t_channel st))) + mset (map cqe_idx (final_cqes E (t_cq st)))
      = add_mset idx (mset (map sqe_buf (sqes c)) + mset (map cqe_idx (final_cqes E cq)))"
    and cq: "set cq \<subseteq> set (t_cq st)"
  shows "turn_ok E V st (Inr st')"
proof (rule turn_okI [OF inv])
  note I = turn_invD [OF inv]
  let ?U = "\<lambda>k. mset (map sqe_msghdr (unsynced k))"
  let ?X = "mset (map sqe_msghdr (synced (l_ring (t_loop st)))) + mset (map sqe_msghdr (t_inflight st))
    + queue_bufs msgs (l_router (t_loop st))"
  let ?Y = "mset (map sqe_buf (sqes c)) + mset (map cqe_idx (final_cqes E cq))"
  have "held E V st = ?U (l_ring (t_loop st)) + ?X
      + (mset (map sqe_buf (sqes (t_channel st))) + mset (map cqe_idx (final_cqes E (t_cq st))))"
    by (simp add: held_eq add_ac)
  then have h: "held E V st = add_mset idx (?U (l_ring (t_loop st))) + (?X + ?Y)"
    unfolding bufs by (simp add: add_ac)
  have "held E V st' = ?U (l_ring loop) + (?X + ?Y)"
    by (simp add: held_eq st' router ring ring.push_synced add_ac)
  also have "\<dots> \<subseteq># add_mset idx (?U (l_ring (t_loop st))) + (?X + ?Y)"
    using push_bufs [of e "l_ring (t_loop st)"] e(2) unfolding ring by (intro subset_mset.add_right_mono) simp
  finally show le: "held E V st' \<subseteq># held E V st" by (simp only: h)
  have sub: "set (submitted_entries V st') \<subseteq> insert e (set (submitted_entries V st))"
    using push_set [of e "l_ring (t_loop st)"] by (auto simp: submitted_entries_def st' ring ring.push_synced)
  then show "entry_ok x" if "x \<in> set (submitted_entries V st')" for x
    using that I(2) e(1) by blast
  show "cqe_ok E x" if "x \<in> set (t_cq st')" for x using that I(3) cq by (auto simp: st')
  show "router_inv (l_router (t_loop st'))" "slots_ok (l_pool (t_loop st'))"
    "length (t_shards st') = length (senders (l_router (t_loop st')))"
    using I pool(1) by (simp_all add: st' router)
  have idx: "idx \<notin># ?U (l_ring (t_loop st)) + (?X + ?Y)"
  proof (rule owned_once(2))
    show "add_mset idx (?U (l_ring (t_loop st)) + (?X + ?Y)) \<subseteq># mset_set all_buffers"
      using I(7) unfolding h union_mset_add_mset_left .
  qed
  have old: "i \<in> sending E V st" if "i \<in> sending E V st'" "i \<noteq> idx" for i
    using that sub cq e(2) by (auto simp: sending_def st' final_cqes_def)
  show "stamped (l_pool (t_loop st')) i" if i: "i \<in> sending E V st'" for i
  proof (cases "i = idx")
    case False
    with old [OF i] I(4) pool(2) show ?thesis by (simp add: st')
  next
    case True
    have "sqe_msghdr x \<noteq> idx" if "x \<in> set (submitted_entries V st)" for x
      using that idx by (auto simp: submitted_entries_def)
    moreover have "cqe_idx x \<noteq> idx" if "x \<in> set (final_cqes E cq)" for x
      using that idx by auto
    ultimately have "sqe_opcode e = SendMsgZc"
      using i sub True by (auto simp: sending_def st')
    with True e(3) show ?thesis by (simp add: st')
  qed
qed

lemma request_ok:
  assumes "turn_inv E V st"
  shows "turn_ok E V st (turn_step E C oc LoopRequest st)"
proof -
  note inv = turn_invD [OF assms]
  obtain x c where d: "q_dequeue C (t_channel st) = (x, c)" by fastforce
  show ?thesis
  proof (cases x)
    case None
    with tx.dequeue_empty d have "sqes (t_channel st) = []" "sqes c = []" by auto
    then have "held E V (st\<lparr>t_channel := c\<rparr>) = held E V st" by (simp add: held_eq)
    then have "turn_ok E V st (Inr (st\<lparr>t_channel := c\<rparr>))"
      using inv by (intro turn_okI [OF assms]) (simp_all add: submitted_entries_def sending_def)
    with d None show ?thesis by simp
  next
    case (Some req)
    obtain a n idx where req: "req = (a, n, idx)" by (cases req)
    from tx.dequeue_some d Some have ch: "sqes (t_channel st) = req # sqes c" by simp
    then obtain M where "held E V st = add_mset idx M" by (simp add: held_eq req)
    with inv(7) have idx: "unat idx < POOL_SIZE" using owned_once(1) [of idx M] by simp
    from post_request_ok [OF inv(1) idx, of E a n] obtain loop
      where p: "post_request E req (t_loop st) = Inr loop" and
        l: "l_router loop = l_router (t_loop st)"
          "l_ring loop = fst (sq_push (e_ring E) (send_entry (e_fd E) idx) (l_ring (t_loop st)))"
          "slots_ok (l_pool loop)" "stamped (l_pool loop) idx"
          "\<forall>j. j \<noteq> idx \<longrightarrow> stamped (l_pool loop) j = stamped (l_pool (t_loop st)) j"
      unfolding req by blast
    have "turn_ok E V st (Inr (st\<lparr>t_channel := c, t_cq := t_cq st, t_loop := loop\<rparr>))"
      by (rule post_ok [OF assms l(2,1) _ _ _ l(3) _ refl]) (use l ch req in auto)
    then show ?thesis using d Some p by simp
  qed
qed

lemma cqe_step_ok:
  assumes "turn_inv E V st"
  shows "turn_ok E V st (turn_step E C oc LoopCqe st)"
proof (cases "t_cq st")
  case Nil
  with assms show ?thesis by (simp add: turn_ok_def)
next
  case (Cons c cs)
  note inv = turn_invD [OF assms]
  let ?idx = "cqe_idx c"
  have ok: "cqe_ok E c" using inv(3) Cons by simp
  have dec: "decode_token (cqe_user_data c) = (cqe_op c, ?idx)" by (simp add: cqe_op_def cqe_idx_def)
  consider (more) "cqe_op c = Send" "e_more E (cqe_flags c)"
    | (sent) "cqe_op c = Send" "\<not> e_more E (cqe_flags c)"
    | (received) "cqe_op c = Recv" "\<not> e_more E (cqe_flags c)"
    using ok by (cases "cqe_op c") (auto simp: cqe_ok_def)
  then show ?thesis
  proof cases
    case more
    let ?st' = "st\<lparr>t_cq := cs\<rparr>"
    have f: "final_cqes E (t_cq st) = final_cqes E cs" using more Cons by (simp add: final_cqes_def)
    then have "held E V ?st' = held E V st" "sending E V ?st' = sending E V st"
      "submitted_entries V ?st' = submitted_entries V st"
      by (simp_all add: held_eq sending_def submitted_entries_def)
    then have "turn_ok E V st (Inr ?st')"
      using inv Cons by (intro turn_okI [OF assms]) simp_all
    moreover have "st\<lparr>t_cq := cs, t_loop := t_loop st\<rparr> = ?st'" by simp
    ultimately show ?thesis using Cons more dec by (simp add: handle_cqe_def handle_send_def)
  next
    case sent
    have f: "final_cqes E (t_cq st) = c # final_cqes E cs" using sent Cons by (simp add: final_cqes_def)
    then obtain M where "held E V st = add_mset ?idx M" by (simp add: held_eq)
    with inv(7) have idx: "unat ?idx < POOL_SIZE" using owned_once(1) [of ?idx M] by simp
    have "stamped (l_pool (t_loop st)) ?idx" using inv(4) f sent by (auto simp: sending_def)
    from handle_send_ok [where E = E, OF inv(1) idx this sent(2)] obtain loop
      where p: "handle_cqe E c (t_loop st) = Inr loop" and
        l: "l_router loop = l_router (t_loop st)"
          "l_ring loop = fst (sq_push (e_ring E) (recv_entry (e_fd E) ?idx) (l_ring (t_loop st)))"
          "slots_ok (l_pool loop)"
          "\<forall>j. j \<noteq> ?idx \<longrightarrow> stamped (l_pool loop) j = stamped (l_pool (t_loop st)) j"
      by (auto simp: handle_cqe_def dec sent)
    have "turn_ok E V st (Inr (st\<lparr>t_channel := t_channel st, t_cq := cs, t_loop := loop\<rparr>))"
      by (rule post_ok [OF assms l(2,1) _ _ _ l(3) _ refl]) (use l f Cons in auto)
    then show ?thesis using Cons p by simp
  next
    case received
    have f: "final_cqes E (t_cq st) = c # final_cqes E cs" using received Cons by (simp add: final_cqes_def)
    from handle_recv_route [OF inv(5), of E ?idx "nat (max 0 (cqe_result c))"] obtain loop p
      where h: "handle_cqe E c (t_loop st) = Inr loop" and p: "buf_idx p = ?idx"
        "route (e_queue E) p (l_router (t_loop st)) = Inr (l_router loop)"
      and l: "router_inv (l_router loop)" "length (senders (l_router loop)) = length (senders (l_router (t_loop st)))"
        "l_ring loop = l_ring (t_loop st)" "slots_ok (l_pool loop) = slots_ok (l_pool (t_loop st))"
        "\<forall>j. j \<noteq> ?idx \<longrightarrow> stamped (l_pool loop) j = stamped (l_pool (t_loop st)) j"
      by (auto simp: handle_cqe_def dec received)
    let ?st' = "st\<lparr>t_cq := cs, t_loop := loop\<rparr>"
    define X where "X = mset (map sqe_msghdr (submitted_entries V st)) + mset (map cqe_idx (final_cqes E cs))"
    define Y where "Y = mset (map sqe_buf (sqes (t_channel st)))"
    have s: "submitted_entries V ?st' = submitted_entries V st" by (simp add: submitted_entries_def l)
    have h1: "held E V st = add_mset ?idx (queue_bufs msgs (l_router (t_loop st))) + (X + Y)"
      using f by (simp add: held_def queue_bufs_def X_def Y_def add_ac)
    have h2: "held E V ?st' = queue_bufs msgs (l_router loop) + (X + Y)"
      by (simp add: held_def queue_bufs_def X_def Y_def s add_ac)
    have "queue_bufs msgs (l_router loop) \<subseteq># add_mset ?idx (queue_bufs msgs (l_router (t_loop st)))"
      using route_bufs [OF inv(5) p(2)] p(1) by simp
    then have le: "held E V ?st' \<subseteq># held E V st"
      unfolding h1 h2 by (rule subset_mset.add_right_mono)
    have "?idx \<notin># X" using inv(7) owned_once(2) [of ?idx "queue_bufs msgs (l_router (t_loop st)) + (X + Y)"] h1 by simp
    then have "i \<noteq> ?idx" if "i \<in> sending E V ?st'" for i
      using that by (auto simp: sending_def s X_def)
    moreover have "sending E V ?st' \<subseteq> sending E V st" using f by (auto simp: sending_def s)
    ultimately have "turn_ok E V st (Inr ?st')"
      using inv Cons l le s by (intro turn_okI [OF assms]) auto
    then show ?thesis using Cons h by simp
  qed
qed

lemma shard_message_buf:
  "shard_message sid msg sh = (sh', Some x) \<Longrightarrow> msg_bufs [msg] = [sqe_buf x]"
  by (cases msg) (auto simp: handle_packet_lookup)

lemma send_bufs:
  assumes "shard_message sid msg sh = (sh', out)"
  shows "mset (map sqe_buf (sqes (case out of None \<Rightarrow> c | Some x \<Rightarrow> fst (q_enqueue C x c))))
    \<subseteq># mset (map sqe_buf (sqes c)) + mset (msg_bufs [msg])"
proof (cases out)
  case (Some x)
  with assms have "msg_bufs [msg] = [sqe_buf x]" by (simp only: shard_message_buf)
  with Some tx.enqueue_contents [of x c] show ?thesis by simp
qed simp

lemma shard_ok:
  assumes "turn_inv E V st"
  shows "turn_ok E V st (turn_step E C oc (ShardTurn i sid) st)"
proof (cases "i < length (t_shards st)")
  case False
  with assms show ?thesis by (simp add: turn_ok_def)
next
  case True
  note inv = turn_invD [OF assms]
  obtain sh n where sh: "t_shards st ! i = (sh, n)" by fastforce
  let ?r = "l_router (t_loop st)" and ?c = "t_channel st"
  let ?q = "senders ?r ! i"
  have i: "i < length (senders ?r)" using True inv(6) by simp
  show ?thesis
  proof (cases "shard_turn (e_queue E) C oc sid (sh, ?q, ?c, n)")
    case (Inl e)
    then have "e = ArithmeticOverflow"
      by (auto simp: shard_turn_def split: option.splits prod.splits if_splits)
    with Inl True sh show ?thesis by (simp add: turn_ok_def Let_def)
  next
    case (Inr res)
    obtain sh' q' c' n' e where res: "res = ((sh', q', c', n'), e)" by (cases res) auto
    let ?r' = "?r\<lparr>senders := (senders ?r)[i := q']\<rparr>"
    let ?st' = "st\<lparr>t_shards := (t_shards st)[i := (sh', n')],
      t_loop := (t_loop st)\<lparr>l_router := ?r'\<rparr>, t_channel := c'\<rparr>"
    define X where "X = mset (map sqe_msghdr (submitted_entries V st)) + mset (map cqe_idx (final_cqes E (t_cq st)))"
    have s: "submitted_entries V ?st' = submitted_entries V st" "sending E V ?st' = sending E V st"
      by (simp_all add: submitted_entries_def sending_def)
    have h: "held E V st = X + (queue_bufs msgs ?r + mset (map sqe_buf (sqes ?c)))"
      "held E V ?st' = X + (queue_bufs msgs ?r' + mset (map sqe_buf (sqes c')))"
      by (simp_all add: held_def queue_bufs_def X_def s add_ac)
    from Inr res have "shard_turn (e_queue E) C oc sid (sh, ?q, ?c, n) = Inr ((sh', q', c', n'), e)" by simp
    then have "queue_bufs msgs ?r' + mset (map sqe_buf (sqes c'))
        \<subseteq># queue_bufs msgs ?r + mset (map sqe_buf (sqes ?c))"
    proof (cases rule: shard_turn_cases)
      case (message msg out)
      from send_bufs [OF message(2), of ?c] message(3)
      have "mset (map sqe_buf (sqes c')) \<subseteq># mset (map sqe_buf (sqes ?c)) + mset (msg_bufs [msg])" by simp
      then have "queue_bufs msgs ?r' + mset (map sqe_buf (sqes c'))
          \<subseteq># queue_bufs msgs ?r' + (mset (map sqe_buf (sqes ?c)) + mset (msg_bufs [msg]))"
        by (rule subset_mset.add_left_mono)
      also have "\<dots> = (queue_bufs msgs ?r' + mset (msg_bufs [msg])) + mset (map sqe_buf (sqes ?c))"
        by (simp only: add_ac)
      finally show ?thesis by (simp only: dequeue_bufs [OF i message(1)])
    next
      case idle
      with mset_concat_update [OF i, of "\<lambda>q. msg_bufs (msgs q)" q'] show ?thesis
        by (simp add: queue_bufs_def)
    qed
    then have le: "held E V ?st' \<subseteq># held E V st" unfolding h by (rule subset_mset.add_left_mono)
    have "router_inv ?r'" using inv(5) by (simp add: router_inv_def)
    then have "turn_ok E V st (Inr ?st')"
      using inv le s by (intro turn_okI [OF assms]) simp_all
    then show ?thesis using True sh Inr res by (simp add: Let_def)
  qed
qed

lemma complete_ok:
  assumes "turn_inv E V st"
  shows "turn_ok E V st (turn_step E C oc (KernelComplete n a ds res flags) st)"
proof -
  note inv = turn_invD [OF assms]
  have keep: "turn_ok E V st (Inr st)" using assms by (simp add: turn_ok_def)
  show ?thesis
  proof (cases "n < length (t_inflight st)")
    case False
    with keep show ?thesis by (simp add: kernel_complete_def)
  next
    case True
    let ?fl = "t_inflight st"
    define e where "e = ?fl ! n"
    define more where "more = e_more E flags"
    show ?thesis
    proof (cases "sqe_opcode e = RecvMsg \<and> more")
      case True
      with keep show ?thesis by (simp add: kernel_complete_def e_def more_def Let_def)
    next
      case no: False
      define rest where "rest = take n ?fl @ drop (Suc n) ?fl"
      have fl: "?fl = take n ?fl @ e # drop (Suc n) ?fl"
        using True unfolding e_def by (rule id_take_nth_drop)
      have e_in: "e \<in> set (submitted_entries V st)"
        using True by (simp add: submitted_entries_def e_def)
      define c where "c = \<lparr>cqe_user_data = user_data e, cqe_result = res, cqe_flags = flags\<rparr>"
      have c: "cqe_idx c = sqe_msghdr e" "cqe_op c = (case sqe_opcode e of RecvMsg \<Rightarrow> Recv | SendMsgZc \<Rightarrow> Send)"
        using decode_entry [OF inv(2) [OF e_in]] by (simp_all add: c_def cqe_idx_def cqe_op_def)
      have flags: "cqe_flags c = flags" by (simp add: c_def)
      define loop where "loop = (if sqe_opcode e = RecvMsg \<and> 0 \<le> res
        then (t_loop st)\<lparr>l_pool := kernel_receive (e_libc E) (e_le E) (sqe_msghdr e) a ds (l_pool (t_loop st))\<rparr>
        else t_loop st)"
      have loop: "l_ring loop = l_ring (t_loop st)" "l_router loop = l_router (t_loop st)"
        "slots_ok (l_pool loop)" "timestamp (l_pool loop) = timestamp (l_pool (t_loop st))"
        using kernel_receive_slots [OF inv(1)] inv(1) by (simp_all add: loop_def)
      let ?st' = "st\<lparr>t_loop := loop, t_inflight := (if more then ?fl else rest), t_cq := t_cq st @ [c]\<rparr>"
      have step: "turn_step E C oc (KernelComplete n a ds res flags) st = Inr ?st'"
        using True no by (auto simp: kernel_complete_def e_def more_def rest_def c_def loop_def Let_def)
      have fin: "final_cqes E (t_cq st @ [c]) = final_cqes E (t_cq st) @ (if more then [] else [c])"
        by (simp add: final_cqes_def more_def c_def)
      have "mset (map sqe_msghdr ?fl) = add_mset (sqe_msghdr e) (mset (map sqe_msghdr rest))"
        by (subst fl) (simp add: rest_def)
      then have h: "held E V ?st' = held E V st"
        by (simp add: held_eq loop fin c(1))
      have sub: "set (submitted_entries V ?st') \<subseteq> set (submitted_entries V st)"
        by (auto simp: submitted_entries_def loop rest_def dest: in_set_takeD in_set_dropD)
      have "c' = c \<longrightarrow> cqe_op c = Send \<longrightarrow> cqe_idx c \<in> sending E V st" for c'
        using e_in c by (auto simp: sending_def split: opcode.splits)
      then have "sending E V ?st' \<subseteq> sending E V st"
        using sub fin by (auto simp: sending_def split: if_splits)
      moreover have "cqe_ok E c"
        using no flags by (cases "sqe_opcode e") (auto simp: cqe_ok_def c(2) more_def)
      moreover have "stamped (l_pool loop) i = stamped (l_pool (t_loop st)) i" for i
        by (intro stamped_other) (simp add: loop)
      ultimately have "turn_ok E V st (Inr ?st')"
        using inv loop sub h by (intro turn_okI [OF assms]) auto
      then show ?thesis by (simp only: step)
    qed
  qed
qed

lemma step_ok:
  assumes "turn_inv E V st"
  shows "turn_ok E V st (turn_step E C oc ev st)"
  using control_ok [OF assms] request_ok [OF assms] sync_ok [OF assms] cqe_step_ok [OF assms]
    shard_ok [OF assms] take_ok [OF assms] complete_ok [OF assms]
  by (cases ev) (simp_all del: turn_step.simps)

lemma run_ok:
  assumes "turn_inv E V st"
  shows "turn_ok E V st (turn_run E C oc evs st)"
  using assms
proof (induction evs arbitrary: st)
  case Nil
  then show ?case by (simp add: turn_ok_def)
next
  case (Cons ev evs)
  show ?case
  proof (cases "turn_step E C oc ev st")
    case (Inl e)
    with step_ok [OF Cons.prems, of oc ev] show ?thesis by (simp add: turn_ok_def)
  next
    case (Inr st1)
    with step_ok [OF Cons.prems, of oc ev] have "turn_inv E V st1" "held E V st1 \<subseteq># held E V st"
      by (simp_all add: turn_ok_def)
    with Cons.IH [OF this(1)] Inr show ?thesis
      by (auto simp: turn_ok_def split: sum.splits intro: subset_mset.order_trans)
  qed
qed

end

section \<open>The start\<close>

definition Turn_new ::
  "('st, 'k, 'q) LoopState \<Rightarrow> 'c \<Rightarrow> ('sid, 'q, 'c, 'k, 'st) Turn"
where
  "Turn_new loop c =
     \<lparr>t_loop = loop,
      t_shards = map (\<lambda>i. (Shard_new i, 0)) [0..<length (senders (l_router loop))],
      t_channel = c, t_inflight = [], t_cq = []\<rparr>"

text \<open>What the loop needs from outside to start: registration and submission succeed, and an
  empty submission queue has room for the whole pool.\<close>

definition can_start ::
  "('st, 'k, 'q) Env \<Rightarrow> ('k \<Rightarrow> Entry list) \<Rightarrow> ('k \<Rightarrow> Entry list) \<Rightarrow> ('k \<Rightarrow> nat) \<Rightarrow> 'k \<Rightarrow> bool"
where
  "can_start E unsynced synced slots k \<longleftrightarrow>
     (\<forall>iovs k. snd (register_buffers (e_ring E) iovs k)) \<and> (\<forall>k. snd (ring_submit (e_ring E) k))
     \<and> unsynced k = [] \<and> synced k = [] \<and> POOL_SIZE \<le> slots k"

abbreviation seed_list :: "u16 list" where
  "seed_list \<equiv> rev (map of_nat [0..<POOL_SIZE])"

lemma seed_list_buffers: "mset seed_list = mset_set all_buffers"
proof -
  have "inj_on (of_nat :: nat \<Rightarrow> u16) {0..<POOL_SIZE}"
    by (rule inj_on_inverseI [of _ unat]) (simp add: POOL_SIZE_def unat_of_nat)
  then have "distinct seed_list" by (simp add: distinct_map)
  moreover have "set seed_list = all_buffers"
  proof -
    have "i \<in> of_nat ` {0..<POOL_SIZE}" if "unat i < POOL_SIZE" for i :: u16
      using that by (intro image_eqI [of _ _ "unat i"]) simp_all
    moreover have "unat (of_nat n :: u16) < POOL_SIZE" if "n < POOL_SIZE" for n
      using that by (simp add: POOL_SIZE_def unat_of_nat)
    ultimately show ?thesis by (auto simp: all_buffers_def)
  qed
  ultimately show ?thesis by (metis mset_set_set)
qed

text \<open>A datagram of an address without session: received, completed, handled.\<close>

definition stranger_round :: "sockaddr \<Rightarrow> u8 list \<Rightarrow> 'sid turn_event list" where
  "stranger_round a ds = [KernelTake, KernelComplete 0 a ds (int (length ds)) 0, LoopCqe]"

context turn_system
begin

lemma start_inv:
  assumes "can_start E unsynced synced slots k" and "qs \<noteq> []" and "\<forall>q\<in>set qs. msgs q = []" and "sqes c = []"
  shows "\<exists>loop. loop_start E BufferPool_default k (ShardRouter_new qs) = Inr loop
    \<and> l_router loop = ShardRouter_new qs
    \<and> unsynced (l_ring loop) = [] \<and> synced (l_ring loop) = map (recv_entry (e_fd E)) seed_list
    \<and> (\<forall>i\<in>all_buffers. live_slots (l_pool loop) i \<noteq> None)
    \<and> turn_inv E V (Turn_new loop c :: ('sid, 'q, 'c, 'k, 'st) Turn)
    \<and> held E V (Turn_new loop c :: ('sid, 'q, 'c, 'k, 'st) Turn) = mset_set all_buffers"
proof -
  from assms(1) have reg: "snd (register_buffers (e_ring E) iovs k)" and room: "POOL_SIZE \<le> slots k"
    and sub: "snd (ring_submit (e_ring E) k')" for iovs k' by (simp_all add: can_start_def)
  from ring.start_ok [OF reg room, of "e_libc E" "e_le E" "e_fd E"] assms(1)
  obtain p0 k1 pool k2 where r: "register_buffer_kernel (e_ring E) BufferPool_default k = Inr (p0, k1)"
    and s: "seed (e_libc E) (e_ring E) (e_le E) (e_fd E) POOL_SIZE 0 (p0, k1) = Inr ((pool, k2), POOL_SIZE)"
    and pool: "pool_ok pool" "timestamp pool = Map.empty"
    and ring2: "synced k2 = []" "unsynced k2 = map (recv_entry (e_fd E)) seed_list"
    and live: "\<forall>i. live_slots pool i = (if unat i < POOL_SIZE
          then Some (MsgHdrSlot_new (e_libc E) (e_le E) (unat i * BUFFER_SIZE) None) else None)"
    by (auto simp: can_start_def)
  obtain k3 where rs: "ring_submit (e_ring E) (sq_sync (e_ring E) k2) = (k3, True)"
    using sub [of "sq_sync (e_ring E) k2"] by (cases "ring_submit (e_ring E) (sq_sync (e_ring E) k2)") simp
  have k3: "unsynced k3 = []" "synced k3 = map (recv_entry (e_fd E)) seed_list"
    using ring.submit_keeps [of "sq_sync (e_ring E) k2"]
    by (simp_all add: rs ring.sync_unsynced ring.sync_synced ring2)
  define loop where "loop = \<lparr>l_pool = pool, l_ring = k3, l_router = ShardRouter_new qs, l_calls = 0, l_log = []\<rparr>"
  have start: "loop_start E BufferPool_default k (ShardRouter_new qs) = Inr loop"
    by (simp add: loop_start_def r s loop_def rs)
  have h: "held E V (Turn_new loop c :: ('sid, 'q, 'c, 'k, 'st) Turn) = mset_set all_buffers"
  proof -
    have "map sqe_msghdr (map (recv_entry (e_fd E)) seed_list) = seed_list" by (simp add: comp_def)
    then have "mset (map sqe_msghdr (synced k3)) = mset_set all_buffers"
      by (simp only: k3 seed_list_buffers)
    moreover have "queue_bufs msgs (ShardRouter_new qs) = {#}"
      using assms(3) by (simp add: queue_bufs_def ShardRouter_new_def)
    ultimately show ?thesis
      using assms(4) by (simp add: held_eq Turn_new_def loop_def k3 final_cqes_def del: mset_map)
  qed
  have "slots_ok pool"
    unfolding slots_ok_def
  proof (intro conjI ballI pool(1))
    fix s assume "s \<in> ran (live_slots pool)"
    then obtain i :: u16 where "unat i < POOL_SIZE"
      "s = MsgHdrSlot_new (e_libc E) (e_le E) (unat i * BUFFER_SIZE) None"
      using live by (auto simp: ran_def split: if_splits)
    then show "iov_base s + iov_len s \<le> length (memory pool)"
      using mult_le_mono1 [of "Suc (unat i)" POOL_SIZE BUFFER_SIZE] pool(1) by (simp add: pool_ok_def)
  qed
  then have "turn_inv E V (Turn_new loop c :: ('sid, 'q, 'c, 'k, 'st) Turn)"
    using h router_inv_new [OF assms(2)] pool(2)
    by (auto simp: turn_inv_def Turn_new_def loop_def submitted_entries_def k3 stamped_def ShardRouter_new_def)
  with start h live k3 show ?thesis
    by (intro exI [of _ loop] conjI) (auto simp: loop_def all_buffers_def)
qed


text \<open>The state in which the buffers \<open>is\<close> wait to be taken for receiving and nothing else goes on.\<close>

definition quiet :: "sockaddr \<Rightarrow> u16 list \<Rightarrow> ('sid, 'q, 'c, 'k, 'st) Turn \<Rightarrow> bool" where
  "quiet a ns st \<longleftrightarrow>
     unsynced (l_ring (t_loop st)) = [] \<and> synced (l_ring (t_loop st)) = map (recv_entry (e_fd E)) ns
     \<and> t_inflight st = [] \<and> t_cq st = []
     \<and> (\<forall>i\<in>set ns. live_slots (l_pool (t_loop st)) i \<noteq> None)
     \<and> endpoint_to_shard (l_router (t_loop st)) (plain_addr a) = None"

lemma stranger_step:
  assumes "libc (e_libc E)" and "\<not> e_more E 0" and q: "quiet a (i # ns) st"
  shows "\<exists>st'. turn_run E C oc (stranger_round a ds) st = Inr st' \<and> quiet a ns st'
    \<and> l_router (t_loop st') = l_router (t_loop st) \<and> t_channel st' = t_channel st"
proof -
  let ?loop = "t_loop st"
  obtain x k where t: "ring_take (e_ring E) (l_ring ?loop) = (x, k)" by fastforce
  with q ring.take_result [of "l_ring ?loop"] ring.take_keeps [of "l_ring ?loop"]
  have k: "x = Some (recv_entry (e_fd E) i)" "unsynced k = []" "synced k = map (recv_entry (e_fd E)) ns"
    by (auto simp: quiet_def)
  define pool where "pool = kernel_receive (e_libc E) (e_le E) i a ds (l_pool ?loop)"
  define loop where "loop = ?loop\<lparr>l_ring := k, l_pool := pool\<rparr>"
  from q obtain s where s: "live_slots (l_pool ?loop) i = Some s" by (auto simp: quiet_def)
  then have "live_slots pool i = Some (s\<lparr>slot_addr := fst (write_socket_addr (e_libc E) (e_le E) (slot_addr s) a)\<rparr>)"
    by (simp add: pool_def kernel_receive_def)
  then have src: "get_peer_addr (e_libc E) (e_le E) i (mark_recv_for i n pool) = plain_addr a" for n
    by (simp add: get_peer_addr_def mark_recv_for_def libc.extract_write [OF assms(1)])
  have live: "live_slots pool j \<noteq> None \<longleftrightarrow> live_slots (l_pool ?loop) j \<noteq> None" for j
    using s by (simp add: pool_def kernel_receive_def)
  define c where "c = \<lparr>cqe_user_data = encode_token Recv i, cqe_result = int (length ds), cqe_flags = 0\<rparr>"
  have "route (e_queue E) \<lparr>buf_idx = i, len = n, src = plain_addr a\<rparr> (l_router loop) = Inr (l_router loop)" for n
    using q by (simp add: route_def quiet_def loop_def)
  then obtain loop' where h: "handle_cqe E c loop = Inr loop'" and l: "l_router loop' = l_router ?loop"
      "l_ring loop' = k" "live_slots (l_pool loop') = live_slots pool"
    by (auto simp: handle_cqe_def c_def decode_encode handle_recv_def instant_now_def Let_def src loop_def)
  let ?st' = "st\<lparr>t_loop := loop', t_inflight := [], t_cq := []\<rparr>"
  from q have inf: "t_inflight st = []" "t_cq st = []" by (simp_all add: quiet_def)
  have run: "turn_run E C oc (stranger_round a ds) st = Inr ?st'"
    using assms(2) t k inf h by (simp add: stranger_round_def kernel_complete_def Let_def c_def loop_def pool_def)
  have "quiet a ns ?st'"
    using q k l live by (simp add: quiet_def)
  with run l show ?thesis by (intro exI [of _ ?st']) simp
qed

lemma strangers_run:
  assumes "libc (e_libc E)" and "\<not> e_more E 0" and "quiet a ns st"
  shows "\<exists>st'. turn_run E C oc (concat (replicate (length ns) (stranger_round a ds))) st = Inr st'
    \<and> quiet a [] st' \<and> l_router (t_loop st') = l_router (t_loop st) \<and> t_channel st' = t_channel st"
  using assms(3)
proof (induction ns arbitrary: st)
  case Nil
  then show ?case by simp
next
  case (Cons i ns)
  have app: "turn_run E C oc (xs @ ys) st = and_then (turn_run E C oc xs st) (turn_run E C oc ys)" for xs ys
  proof (induction xs arbitrary: st)
    case (Cons x xs)
    then show ?case by (cases "turn_step E C oc x st") (auto simp del: turn_step.simps)
  qed simp
  from stranger_step [OF assms(1,2) Cons.prems, of oc ds] obtain st1
    where "turn_run E C oc (stranger_round a ds) st = Inr st1" "quiet a ns st1"
      "l_router (t_loop st1) = l_router (t_loop st)" "t_channel st1 = t_channel st" by blast
  with Cons.IH [of st1] show ?case by (auto simp: app simp del: turn_run.simps)
qed

lemma exhaust:
  assumes "can_start E unsynced synced slots k"
    and "qs \<noteq> []" and "\<forall>q\<in>set qs. msgs q = []" and "sqes c = []"
    and "libc (e_libc E)" and "\<not> e_more E 0"
  shows "\<exists>loop st. loop_start E BufferPool_default k (ShardRouter_new qs) = Inr loop
    \<and> turn_run E C oc (concat (replicate POOL_SIZE (stranger_round a ds))) (Turn_new loop c)
      = Inr (st :: ('sid, 'q, 'c, 'k, 'st) Turn)
    \<and> (\<forall>evs. case turn_run E C oc evs st of
         Inl e \<Rightarrow> e = ArithmeticOverflow
       | Inr st' \<Rightarrow> held E V st' = {#})"
proof -
  from start_inv [OF assms(1-4)] obtain loop
    where l: "loop_start E BufferPool_default k (ShardRouter_new qs) = Inr loop"
      "l_router loop = ShardRouter_new qs" "unsynced (l_ring loop) = []"
      "synced (l_ring loop) = map (recv_entry (e_fd E)) seed_list"
      "\<forall>i\<in>all_buffers. live_slots (l_pool loop) i \<noteq> None"
      and inv: "turn_inv E V (Turn_new loop c :: ('sid, 'q, 'c, 'k, 'st) Turn)" by blast
  let ?st0 = "Turn_new loop c :: ('sid, 'q, 'c, 'k, 'st) Turn"
  have "set seed_list \<subseteq> all_buffers"
    by (metis finite_buffers finite_set_mset_mset_set seed_list_buffers set_mset_mset subset_refl)
  with l have "quiet a seed_list ?st0"
    by (auto simp: quiet_def Turn_new_def ShardRouter_new_def subset_iff simp del: set_rev set_map)
  from strangers_run [OF assms(5,6) this, of oc ds] obtain st
    where r: "turn_run E C oc (concat (replicate POOL_SIZE (stranger_round a ds))) ?st0 = Inr st"
      and q: "quiet a [] st" "l_router (t_loop st) = l_router (t_loop ?st0)" "t_channel st = t_channel ?st0"
    by auto
  from run_ok [OF inv, of oc "concat (replicate POOL_SIZE (stranger_round a ds))"] r
  have i: "turn_inv E V st" by (simp add: turn_ok_def)
  have "queue_bufs msgs (l_router (t_loop st)) = {#}"
    using assms(3) q(2) l(2) by (simp add: queue_bufs_def Turn_new_def ShardRouter_new_def)
  then have h: "held E V st = {#}"
    using q assms(4) by (simp add: held_eq quiet_def final_cqes_def Turn_new_def)
  have "case turn_run E C oc evs st of Inl e \<Rightarrow> e = ArithmeticOverflow | Inr st' \<Rightarrow> held E V st' = {#}" for evs
    using run_ok [OF i, of oc evs] h by (auto simp: turn_ok_def split: sum.splits)
  with l(1) r show ?thesis by blast
qed

end

text \<open>The environment of a Linux host, with list queues and the list ring.\<close>

definition example_env :: "(storage, list_ring, MessageType list) Env" where
  "example_env =
     \<lparr>e_libc = linux, e_le = True, e_ring = list_ring_ops, e_queue = list_queue 1499,
      e_more = (\<lambda>f. bit f 1), e_fd = 7, e_clock = (\<lambda>n. n)\<rparr>"

interpretation list_turn: turn_system example_env "\<lambda>q. q" "list_queue 2048" "\<lambda>c. c" 2048
    fst "\<lambda>k. fst (snd k)" "\<lambda>k. snd (snd k)"
  unfolding turn_system_def example_env_def Env.simps
  using list_shard_queues [of 1499 2048] list_ring_uring by blast

lemmas list_turn_system = list_turn.turn_system_axioms

abbreviation view_of ::
  "('q \<Rightarrow> MessageType list) \<Rightarrow> ('c \<Rightarrow> SqeType list) \<Rightarrow> ('k \<Rightarrow> Entry list) \<Rightarrow> ('k \<Rightarrow> Entry list)
    \<Rightarrow> ('q, 'c, 'k) View"
where
  "view_of msgs sqes U S \<equiv> \<lparr>v_msgs = msgs, v_sqes = sqes, v_unsynced = U, v_synced = S\<rparr>"

abbreviation example_view :: "(MessageType list, SqeType list, list_ring) View" where
  "example_view \<equiv> view_of (\<lambda>q. q) (\<lambda>c. c) fst (\<lambda>k. fst (snd k))"

abbreviation example_events :: "nat turn_event list" where
  "example_events \<equiv>
     [LoopControl (AddSession example_session), KernelTake,
      KernelComplete 0 example_host [1, 2, 3] 3 0, LoopCqe, ShardTurn 0 0, ShardTurn 0 1, LoopRequest, LoopSync]"

lemma example_can_start: "can_start example_env fst (\<lambda>k. fst (snd k)) (\<lambda>k. snd (snd k)) ([], [], 1024)"
  by (simp add: can_start_def example_env_def list_ring_ops_def POOL_SIZE_def)

section \<open>Properties of the whole relay\<close>

text \<open>Property C3: from its start, under any interleaving of the loop, the shard threads and the
  kernel, every buffer is at any time in at most one place, so that no two operations share a
  buffer or its message header; and nothing panics, neither an index nor the loop's unwraps, but
  for the idle counter of a shard.\<close>

theorem buffers_owned_once:
  fixes evs :: "'sid turn_event list"
  assumes "turn_system E msgs C sqes cap U S slots" and "can_start E U S slots k"
    and "qs \<noteq> []" and "\<forall>q\<in>set qs. msgs q = []" and "sqes c = []"
  shows "\<exists>loop. loop_start E BufferPool_default k (ShardRouter_new qs) = Inr loop
    \<and> (case turn_run E C oc evs (Turn_new loop c) of
         Inl e \<Rightarrow> e = ArithmeticOverflow
       | Inr st \<Rightarrow> held E (view_of msgs sqes U S) st \<subseteq># mset_set all_buffers)"
proof -
  from turn_system.start_inv [OF assms, where ?'sid = 'sid] obtain loop
    where "loop_start E BufferPool_default k (ShardRouter_new qs) = Inr loop"
      and i: "turn_inv E (view_of msgs sqes U S) (Turn_new loop c :: ('sid, _, _, _, _) Turn)" by auto
  with turn_system.run_ok [OF assms(1) i, of oc evs] show ?thesis
    by (auto simp: turn_ok_def turn_inv_def split: sum.splits)
qed

theorem buffers_owned_once_witness:
  "\<exists>loop. loop_start example_env BufferPool_default ([], [], 1024) (ShardRouter_new [[], []]) = Inr loop
    \<and> (case turn_run example_env (list_queue 2048) True example_events (Turn_new loop []) of
         Inl e \<Rightarrow> e = ArithmeticOverflow
       | Inr st \<Rightarrow> held example_env example_view st \<subseteq># mset_set all_buffers)"
  by (rule buffers_owned_once [OF list_turn_system example_can_start]) simp_all

text \<open>A buffer that is nowhere is lost for good: whatever happens, the buffers in use
  later are among those in use now.\<close>

lemma lost_buffers_stay_lost:
  assumes "turn_system E msgs C sqes cap U S slots"
    and "turn_inv E (view_of msgs sqes U S) st" and "turn_run E C oc evs st = Inr st'"
  shows "held E (view_of msgs sqes U S) st' \<subseteq># held E (view_of msgs sqes U S) st"
  using turn_system.run_ok [OF assms(1,2), of oc evs] assms(3) by (simp add: turn_ok_def)

text \<open>Property C16: 1024 datagrams from an address that has no session silence the relay for ever.
  Each of them takes a receive buffer that is never posted again; after them no buffer is with
  the kernel or anywhere else, and none ever will be, whatever happens.\<close>

theorem strangers_exhaust_pool:
  fixes a :: sockaddr and ds :: "u8 list" and oc :: bool
  assumes "turn_system E msgs C sqes cap U S slots" and "can_start E U S slots k"
    and "qs \<noteq> []" and "\<forall>q\<in>set qs. msgs q = []" and "sqes c = []"
    and "libc (e_libc E)" and "\<not> e_more E 0"
  shows "\<exists>loop st. loop_start E BufferPool_default k (ShardRouter_new qs) = Inr loop
    \<and> turn_run E C oc (concat (replicate POOL_SIZE (stranger_round a ds))) (Turn_new loop c)
      = Inr (st :: ('sid, 'q, 'c, 'k, 'st) Turn)
    \<and> (\<forall>evs. case turn_run E C oc evs st of
         Inl e \<Rightarrow> e = ArithmeticOverflow
       | Inr st' \<Rightarrow> held E (view_of msgs sqes U S) st' = {#})"
  using turn_system.exhaust [OF assms, where oc = oc and a = a and ds = ds, where ?'sid = 'sid] .

theorem strangers_exhaust_pool_witness:
  "\<exists>loop st. loop_start example_env BufferPool_default ([], [], 1024) (ShardRouter_new [[], []]) = Inr loop
    \<and> turn_run example_env (list_queue 2048) True
        (concat (replicate POOL_SIZE (stranger_round example_stranger [1, 2, 3]))) (Turn_new loop [])
      = Inr (st :: (nat, _, _, _, _) Turn)
    \<and> (\<forall>evs. case turn_run example_env (list_queue 2048) True evs st of
         Inl e \<Rightarrow> e = ArithmeticOverflow
       | Inr st' \<Rightarrow> held example_env example_view st' = {#})"
proof -
  have "libc (e_libc example_env)" using linux_libc by (simp add: example_env_def)
  moreover have "\<not> e_more example_env 0" by (simp add: example_env_def)
  ultimately show ?thesis
    by (intro strangers_exhaust_pool [OF list_turn_system example_can_start]) simp_all
qed

end
