(* ===== verification/TurnIteration.thy ===== *)
theory TurnIteration
  imports TurnSystem
begin

text \<open>
  The iterations of the ring loop as they stand in the code, against the interleaved system: an
  iteration is the sequence of the system's loop steps that its inputs call for; and what an
  iteration without send requests does not do is publish its submissions.
\<close>

section \<open>An iteration as a sequence of steps\<close>

definition iteration_steps :: "MessageType list \<times> SqeType list \<times> Cqe list \<Rightarrow> 'sid turn_event list" where
  "iteration_steps input =
     (case input of (controls, requests, completions) \<Rightarrow>
        map LoopControl controls
        @ replicate (length requests) LoopRequest
        @ (if requests = [] then [] else [LoopSync])
        @ replicate (length completions) LoopCqe)"

fun drained :: "('c, SqeType) queue_ops \<Rightarrow> nat \<Rightarrow> 'c \<Rightarrow> 'c" where
  "drained C 0 c = c"
| "drained C (Suc n) c = drained C n (snd (q_dequeue C c))"

lemma turn_run_append:
  "turn_run E C oc (xs @ ys) st = and_then (turn_run E C oc xs st) (turn_run E C oc ys)"
proof (induction xs arbitrary: st)
  case (Cons x xs)
  then show ?case by (cases "turn_step E C oc x st") (simp_all del: turn_step.simps)
qed simp

lemma run_controls:
  "turn_run E C oc (map LoopControl ms) st =
    and_then (control_messages (e_queue E) ms (l_router (t_loop st)))
      (\<lambda>r. Inr (st\<lparr>t_loop := (t_loop st)\<lparr>l_router := r\<rparr>\<rparr>))"
proof (induction ms arbitrary: st)
  case (Cons m ms)
  then show ?case
    by (cases "control_message (e_queue E) m (l_router (t_loop st))") (simp_all add: Let_def)
qed simp

lemma run_cqes:
  "t_cq st = cs \<Longrightarrow> turn_run E C oc (replicate (length cs) LoopCqe) st =
    and_then (handle_cqes E cs (t_loop st)) (\<lambda>loop. Inr (st\<lparr>t_loop := loop, t_cq := []\<rparr>))"
proof (induction cs arbitrary: st)
  case (Cons c cs)
  then show ?case by (cases "handle_cqe E c (t_loop st)") simp_all
qed simp

lemma post_requests_count:
  "post_requests E rs loop n = and_then (post_requests E rs loop 0) (\<lambda>(loop, k). Inr (loop, n + k))"
proof (induction rs arbitrary: loop n)
  case (Cons r rs)
  show ?case
  proof (cases "post_request E r loop")
    case (Inr loop1)
    from Cons.IH [of loop1 "Suc n"] Cons.IH [of loop1 1] Inr show ?thesis
      by (cases "post_requests E rs loop1 0") auto
  qed simp
qed simp

lemma post_requests_pushed:
  "post_requests E rs loop 0 = Inr (loop', k) \<Longrightarrow> k = length rs"
proof (induction rs arbitrary: loop loop' k)
  case (Cons r rs)
  then obtain loop1 where "post_request E r loop = Inr loop1"
    and "post_requests E rs loop1 1 = Inr (loop', k)" by (auto simp: and_then_Inr)
  with post_requests_count [of E rs loop1 1] Cons.IH show ?case by (auto simp: and_then_Inr)
qed simp

lemma run_requests:
  assumes "fifo C sqes" and "sqes (t_channel st) = rs"
  shows "turn_run E C oc (replicate (length rs) LoopRequest) st =
    and_then (post_requests E rs (t_loop st) 0)
      (\<lambda>(loop, _). Inr (st\<lparr>t_loop := loop, t_channel := drained C (length rs) (t_channel st)\<rparr>))"
  using assms(2)
proof (induction rs arbitrary: st)
  case (Cons r rs)
  then obtain c where c: "q_dequeue C (t_channel st) = (Some r, c)" "sqes c = rs"
    using fifo.dequeue_cons [OF assms(1)] by blast
  show ?case
  proof (cases "post_request E r (t_loop st)")
    case (Inl e)
    with c show ?thesis by simp
  next
    case (Inr loop)
    with c Cons.IH [of "st\<lparr>t_channel := c, t_loop := loop\<rparr>"] post_requests_count [of E rs loop 1]
    show ?thesis by (cases "post_requests E rs loop 0") auto
  qed
qed simp

section \<open>What an iteration publishes\<close>

lemma handle_cqe_synced:
  assumes "uring (e_ring E) unsynced synced slots" and "handle_cqe E c st = Inr st'"
  shows "synced (l_ring st') = synced (l_ring st)"
proof -
  have rel: "loop_release E i st = Inr st1 \<Longrightarrow> synced (l_ring st1) = synced (l_ring st)" for i st1
    by (auto simp: loop_release_def release_def post_recv_sqe_def and_then_Inr
        uring.push_synced [OF assms(1)])
  have tim: "log_timing E t st1 = Inr st2 \<Longrightarrow> l_ring st2 = l_ring st1" for t st1 st2
    by (auto simp: log_timing_def instant_now_def split: option.splits)
  show ?thesis
  proof (cases "cqe_op c")
    case Recv
    with assms(2) show ?thesis
      by (auto simp: handle_cqe_def cqe_op_def handle_recv_def instant_now_def Let_def and_then_Inr
          split: prod.splits)
  next
    case SendNotif
    with assms(2) rel show ?thesis by (auto simp: handle_cqe_def cqe_op_def split: prod.splits)
  next
    case Send
    with assms(2) show ?thesis
      by (auto simp: handle_cqe_def cqe_op_def handle_send_def and_then_Inr take_recv_for_def
          split: prod.splits if_splits option.splits dest!: rel tim)
  qed
qed

lemma handle_cqes_synced:
  assumes "uring (e_ring E) unsynced synced slots" and "handle_cqes E cs st = Inr st'"
  shows "synced (l_ring st') = synced (l_ring st)"
  using assms(2) by (induction cs arbitrary: st) (auto simp: and_then_Inr handle_cqe_synced [OF assms(1)])

lemma idle_loop_synced:
  assumes "uring (e_ring E) unsynced synced slots" and "\<forall>(ms, rs, cs)\<in>set inputs. rs = []" and "io_uring_loop E inputs st = Inr st'"
  shows "synced (l_ring st') = synced (l_ring st)"
  using assms(2,3)
proof (induction inputs arbitrary: st)
  case (Cons x inputs)
  obtain ms cs where x: "x = (ms, [], cs)" using Cons.prems(1) by (cases x) auto
  from Cons.prems(2) x obtain r st1
    where "handle_cqes E cs (st\<lparr>l_router := r\<rparr>) = Inr st1" "io_uring_loop E inputs st1 = Inr st'"
    by (auto simp: and_then_Inr loop_iteration_def sync_pushed_def)
  with handle_cqes_synced [OF assms(1), of cs "st\<lparr>l_router := r\<rparr>" st1] Cons show ?case by simp
qed simp

section \<open>Properties of the iterations\<close>



text \<open>Property C30: receives posted again for buffers whose send is complete are not published by
  the iterations that complete them but by the next one that has a send request: over any
  iterations without requests, whatever they complete, the published submissions stay the
  same.\<close>

theorem idle_iterations_publish_nothing:
  assumes "uring (e_ring E) unsynced synced slots" and "\<forall>(controls, requests, completions)\<in>set inputs. requests = []"
    and "io_uring_loop E inputs st = Inr st'"
  shows "synced (l_ring st') = synced (l_ring st)"
  by (rule idle_loop_synced [OF assms])

theorem idle_iterations_publish_nothing_witness:
  "\<exists>st'. io_uring_loop example_env
      [([], [], [\<lparr>cqe_user_data = encode_token Send 3, cqe_result = 1500, cqe_flags = 0\<rparr>])]
      \<lparr>l_pool = BufferPool_default, l_ring = ([], [], 1024), l_router = ShardRouter_new [[], []], l_calls = 0, l_log = []\<rparr>
      = Inr st'
    \<and> fst (snd (l_ring st')) = [] \<and> fst (l_ring st') = [recv_entry 7 3]"
proof -
  let ?c = "\<lparr>cqe_user_data = encode_token Send 3, cqe_result = 1500, cqe_flags = 0\<rparr>"
  let ?st = "\<lparr>l_pool = BufferPool_default, l_ring = ([], [], 1024), l_router = ShardRouter_new [[], []],
    l_calls = 0, l_log = []\<rparr> :: (storage, list_ring, MessageType list) LoopState"
  have "slots_ok (l_pool ?st)" "stamped (l_pool ?st) 3"
    using pool_ok_default by (simp_all add: slots_ok_def stamped_def BufferPool_default_def)
  from handle_send_ok [where E = example_env and flags = 0 and idx = 3, OF this(1) _ this(2)] obtain st'
    where "handle_send example_env 3 0 ?st = Inr st'"
      and "l_ring st' = fst (sq_push list_ring_ops (recv_entry 7 3) ([], [], 1024))"
    by (auto simp: example_env_def POOL_SIZE_def)
  then have r: "io_uring_loop example_env [([], [], [?c])] ?st = Inr st'" and u: "fst (l_ring st') = [recv_entry 7 3]"
    by (simp_all add: loop_iteration_def sync_pushed_def handle_cqe_def decode_encode list_ring_ops_def)
  have "uring (e_ring example_env) fst (\<lambda>k. fst (snd k)) (\<lambda>k. snd (snd k))"
    using list_ring_uring by (simp add: example_env_def)
  from idle_iterations_publish_nothing [OF this _ r] r u show ?thesis
    by (auto simp del: io_uring_loop.simps)
qed

end
