(* ===== verification/TurnStart.thy ===== *)
theory TurnStart
  imports TurnSystem
begin

text \<open>
  The relay as \<open>main\<close> puts it together (\<open>turn_server/src/main.rs\<close>): the number of shards and
  the sizes of queues, channels and ring, and what these sizes mean for requests and sends.
\<close>

section \<open>The program\<close>

definition SHARD_NUM :: nat where "SHARD_NUM = 2"

definition main_channel_capacity :: nat where "main_channel_capacity = 1024 * SHARD_NUM"
definition main_ring_entries :: nat where "main_ring_entries = POOL_SIZE"

text \<open>\<open>main\<close> up to the loop, given an empty queue, an empty request channel and a new ring.\<close>

definition relay_main ::
  "('st, 'k, 'q) Env \<Rightarrow> 'k \<Rightarrow> 'q \<Rightarrow> 'c \<Rightarrow> turn_panic + ('sid, 'q, 'c, 'k, 'st) Turn"
where
  "relay_main E ring q0 c0 =
     (let shard_prods = replicate SHARD_NUM q0;
          shards = map (\<lambda>i. (Shard_new i, 0)) [0..<SHARD_NUM]
      in and_then (loop_start E BufferPool_default ring (ShardRouter_new shard_prods)) (\<lambda>loop.
           Inr \<lparr>t_loop = loop, t_shards = shards, t_channel = c0, t_inflight = [], t_cq = []\<rparr>))"

lemma relay_main_new:
  "loop_start E BufferPool_default k (ShardRouter_new (replicate SHARD_NUM q0)) = Inr loop \<Longrightarrow>
    l_router loop = ShardRouter_new (replicate SHARD_NUM q0) \<Longrightarrow>
    relay_main E k q0 c0 = Inr (Turn_new loop c0)"
  by (simp add: relay_main_def Turn_new_def ShardRouter_new_def)

section \<open>Sends before the first publication\<close>

text \<open>The ring shows no free slot, and nothing but receives is in it.\<close>

definition only_receives ::
  "('k \<Rightarrow> Entry list) \<Rightarrow> ('k \<Rightarrow> Entry list) \<Rightarrow> ('k \<Rightarrow> nat) \<Rightarrow> ('sid, 'q, 'c, 'k, 'st) Turn \<Rightarrow> bool"
where
  "only_receives U S slots st \<longleftrightarrow>
     slots (l_ring (t_loop st)) = 0 \<and> U (l_ring (t_loop st)) = []
     \<and> (\<forall>e\<in>set (S (l_ring (t_loop st)) @ t_inflight st). sqe_opcode e = RecvMsg)"

lemma post_request_ring:
  "post_request E req st = Inr st' \<Longrightarrow> \<exists>e. l_ring st' = fst (sq_push (e_ring E) e (l_ring st))"
  by (cases req) (auto simp: post_request_def post_send_sqe_def instant_now_def Let_def and_then_Inr)

lemma handle_cqe_ring:
  assumes "handle_cqe E c st = Inr st'"
  shows "l_ring st' = l_ring st \<or> (\<exists>e. l_ring st' = fst (sq_push (e_ring E) e (l_ring st)))"
proof -
  have rel: "loop_release E i st = Inr st1 \<Longrightarrow> \<exists>e. l_ring st1 = fst (sq_push (e_ring E) e (l_ring st))" for i st1
    by (auto simp: loop_release_def release_def post_recv_sqe_def and_then_Inr)
  have tim: "log_timing E t st1 = Inr st2 \<Longrightarrow> l_ring st2 = l_ring st1" for t st1 st2
    by (auto simp: log_timing_def instant_now_def split: option.splits)
  show ?thesis
  proof (cases "cqe_op c")
    case Recv
    with assms show ?thesis
      by (auto simp: handle_cqe_def cqe_op_def handle_recv_def instant_now_def Let_def and_then_Inr
          split: prod.splits)
  next
    case SendNotif
    with assms rel show ?thesis by (auto simp: handle_cqe_def cqe_op_def split: prod.splits)
  next
    case Send
    with assms show ?thesis
      by (auto simp: handle_cqe_def cqe_op_def handle_send_def and_then_Inr take_recv_for_def
          split: prod.splits if_splits option.splits dest!: rel tim) blast+
  qed
qed

context turn_system
begin

lemma push_full:
  assumes "slots k = 0"
  shows "slots (fst (sq_push (e_ring E) e k)) = 0" "unsynced (fst (sq_push (e_ring E) e k)) = unsynced k"
    "synced (fst (sq_push (e_ring E) e k)) = synced k"
  using assms by (simp_all add: ring.push_slots ring.push_unsynced ring.push_synced)

lemma only_receives_step:
  assumes "only_receives unsynced synced slots st" and "turn_step E C oc ev st = Inr st'" and "ev \<noteq> LoopSync"
  shows "only_receives unsynced synced slots st'"
proof (cases ev)
  case (LoopControl m)
  with assms show ?thesis by (auto simp: only_receives_def and_then_Inr Let_def)
next
  case LoopRequest
  obtain x c where d: "q_dequeue C (t_channel st) = (x, c)" by fastforce
  show ?thesis
  proof (cases x)
    case (Some req)
    with assms(2) d LoopRequest obtain loop where "post_request E req (t_loop st) = Inr loop"
      "st' = st\<lparr>t_channel := c, t_loop := loop\<rparr>" by (auto simp: and_then_Inr)
    with post_request_ring [of E req "t_loop st" loop] assms(1) show ?thesis
      by (auto simp: only_receives_def push_full)
  qed (use assms d LoopRequest in \<open>auto simp: only_receives_def\<close>)
next
  case LoopCqe
  show ?thesis
  proof (cases "t_cq st")
    case (Cons c cs)
    with assms(2) LoopCqe obtain loop where "handle_cqe E c (t_loop st) = Inr loop"
      "st' = st\<lparr>t_cq := cs, t_loop := loop\<rparr>" by (auto simp: and_then_Inr)
    with handle_cqe_ring [of E c "t_loop st" loop] assms(1) show ?thesis
      by (auto simp: only_receives_def push_full)
  qed (use assms LoopCqe in simp)
next
  case (ShardTurn i sid)
  have "l_ring (t_loop st') = l_ring (t_loop st) \<and> t_inflight st' = t_inflight st"
    using assms(2) unfolding ShardTurn
    by (cases "i < length (t_shards st)") (auto simp: Let_def and_then_Inr split: prod.splits)
  with assms(1) show ?thesis by (simp add: only_receives_def)
next
  case KernelTake
  obtain x k where t: "ring_take (e_ring E) (l_ring (t_loop st)) = (x, k)" by fastforce
  with ring.take_result [of "l_ring (t_loop st)"] ring.take_keeps [of "l_ring (t_loop st)"]
    ring.slots_seen(1) [of "l_ring (t_loop st)"]
  have k: "unsynced k = unsynced (l_ring (t_loop st))" "slots k = slots (l_ring (t_loop st))"
    "synced (l_ring (t_loop st)) = (case x of None \<Rightarrow> synced k | Some e \<Rightarrow> e # synced k)"
    by (auto split: list.splits)
  with assms t KernelTake show ?thesis
    by (cases x) (auto simp: only_receives_def Let_def)
next
  case (KernelComplete n a ds res flags)
  have "l_ring (t_loop st') = l_ring (t_loop st)" "set (t_inflight st') \<subseteq> set (t_inflight st)"
    using assms(2) by (auto simp: KernelComplete kernel_complete_def Let_def
        split: if_splits dest: in_set_takeD in_set_dropD)
  with assms(1) show ?thesis by (auto simp: only_receives_def)
qed (use assms(3) in simp)

lemma only_receives_run:
  assumes "only_receives unsynced synced slots st" and "turn_run E C oc evs st = Inr st'" and "LoopSync \<notin> set evs"
  shows "only_receives unsynced synced slots st'"
  using assms
proof (induction evs arbitrary: st)
  case (Cons ev evs)
  from Cons.prems(2) obtain st1 where "turn_step E C oc ev st = Inr st1" "turn_run E C oc evs st1 = Inr st'"
    by (auto simp: and_then_Inr)
  with Cons.IH [of st1] Cons.prems only_receives_step [of st oc ev st1] show ?case by auto
qed simp

lemma start_ring:
  assumes "can_start E unsynced synced slots k"
    and "loop_start E BufferPool_default k r = Inr loop"
  shows "\<exists>k2. l_ring loop = fst (ring_submit (e_ring E) (sq_sync (e_ring E) k2))
    \<and> unsynced k2 = map (recv_entry (e_fd E)) seed_list \<and> synced k2 = [] \<and> slots k2 = slots k - POOL_SIZE"
proof -
  from assms(1) have reg: "snd (register_buffers (e_ring E) iovs k)" and room: "POOL_SIZE \<le> slots k"
    and sub: "snd (ring_submit (e_ring E) k')" for iovs k' by (simp_all add: can_start_def)
  from ring.start_ok [OF reg room, of "e_libc E" "e_le E" "e_fd E"] assms(1)
  obtain p0 k1 pool k2 where "register_buffer_kernel (e_ring E) BufferPool_default k = Inr (p0, k1)"
    "seed (e_libc E) (e_ring E) (e_le E) (e_fd E) POOL_SIZE 0 (p0, k1) = Inr ((pool, k2), POOL_SIZE)"
    and k2: "synced k2 = []" "unsynced k2 = map (recv_entry (e_fd E)) seed_list" "slots k2 = slots k - POOL_SIZE"
    by (auto simp: can_start_def)
  with assms(2) sub [of "sq_sync (e_ring E) k2"] show ?thesis
    by (intro exI [of _ k2])
      (auto simp: loop_start_def split: prod.splits bool.splits)
qed

lemma start_only_receives:
  fixes c :: 'c
  assumes "can_start E unsynced synced slots k" and "loop_start E BufferPool_default k r = Inr loop"
    and "slots k = POOL_SIZE"
    and "\<forall>k'. synced k' = [] \<longrightarrow> slots k' = 0 \<longrightarrow> slots (sq_sync (e_ring E) k') = 0"
  shows "only_receives unsynced synced slots (Turn_new loop c)"
proof -
  from start_ring [OF assms(1,2)] obtain k2
    where k2: "l_ring loop = fst (ring_submit (e_ring E) (sq_sync (e_ring E) k2))"
      "unsynced k2 = map (recv_entry (e_fd E)) seed_list" "synced k2 = []" "slots k2 = 0" by (auto simp: assms(3))
  with assms(4) have "slots (sq_sync (e_ring E) k2) = 0" by blast
  then show ?thesis
    using k2 by (auto simp: only_receives_def Turn_new_def ring.slots_seen ring.submit_keeps
        ring.sync_unsynced ring.sync_synced)
qed

end

section \<open>Room in the request channel\<close>

lemma channel_bounded:
  assumes "held E V st \<subseteq># mset_set all_buffers"
  shows "length (v_sqes V (t_channel st)) \<le> POOL_SIZE"
proof -
  have "size (mset (map sqe_buf (v_sqes V (t_channel st)))) \<le> size (held E V st)" by (simp add: held_def)
  also have "\<dots> \<le> size (mset_set all_buffers)" by (rule size_mset_mono [OF assms])
  also have "\<dots> = length seed_list" by (metis seed_list_buffers size_mset)
  finally show ?thesis by simp
qed

section \<open>Properties of the program\<close>

text \<open>Property C27: with the sizes \<open>main\<close> chooses, no request of a shard is ever refused: in every
  state the relay can reach the request channel takes another one. (A shard only logs a refusal,
  so that the packet and its buffer would be lost.)\<close>

theorem requests_never_refused:
  fixes req :: SqeType
  assumes "turn_system E msgs C sqes main_channel_capacity U S slots" and "can_start E U S slots k"
    and "msgs q0 = []" and "sqes c0 = []"
  shows "\<exists>st0. relay_main E k q0 c0 = Inr (st0 :: ('sid, 'q, 'c, 'k, 'st) Turn)
    \<and> (\<forall>evs st. turn_run E C oc evs st0 = Inr st \<longrightarrow> snd (q_enqueue C req (t_channel st)))"
proof -
  have "replicate SHARD_NUM q0 \<noteq> []" "\<forall>q\<in>set (replicate SHARD_NUM q0). msgs q = []"
    using assms(3) by (simp_all add: SHARD_NUM_def)
  from turn_system.start_inv [OF assms(1,2) this assms(4), where ?'sid = 'sid] obtain loop
    where l: "loop_start E BufferPool_default k (ShardRouter_new (replicate SHARD_NUM q0)) = Inr loop"
        "l_router loop = ShardRouter_new (replicate SHARD_NUM q0)"
      and i: "turn_inv E (view_of msgs sqes U S) (Turn_new loop c0 :: ('sid, 'q, 'c, 'k, 'st) Turn)" by blast
  have "snd (q_enqueue C req (t_channel st))"
    if "turn_run E C oc evs (Turn_new loop c0 :: ('sid, 'q, 'c, 'k, 'st) Turn) = Inr st" for evs st
  proof -
    from turn_system.run_ok [OF assms(1) i, of oc evs] that
    have "held E (view_of msgs sqes U S) st \<subseteq># mset_set all_buffers" by (simp add: turn_ok_def turn_inv_def)
    from channel_bounded [OF this] have "length (sqes (t_channel st)) < main_channel_capacity"
      by (simp add: main_channel_capacity_def SHARD_NUM_def POOL_SIZE_def)
    moreover have "bounded_fifo C sqes main_channel_capacity"
      using assms(1) by (simp add: turn_system_def shard_queues_def)
    ultimately show ?thesis by (simp add: bounded_fifo.accepts)
  qed
  then show ?thesis
    by (intro exI [of _ "Turn_new loop c0"] conjI allI impI relay_main_new [OF l])
qed

lemma main_turn_system:
  "turn_system example_env (\<lambda>q. q) (list_queue main_channel_capacity) (\<lambda>c. c) main_channel_capacity
     fst (\<lambda>k. fst (snd k)) (\<lambda>k. snd (snd k))"
  using list_turn_system by (simp add: main_channel_capacity_def SHARD_NUM_def)

theorem requests_never_refused_witness:
  "\<exists>st0. relay_main example_env ([], [], 1024) [] [] = Inr (st0 :: (nat, _, _, _, _) Turn)
    \<and> (\<forall>evs st. turn_run example_env (list_queue main_channel_capacity) True evs st0 = Inr st \<longrightarrow>
         snd (q_enqueue (list_queue main_channel_capacity) (example_host, 9, 3) (t_channel st)))"
  by (rule requests_never_refused [OF main_turn_system example_can_start refl refl])



end
