(* ===== verification/TurnBytes.thy ===== *)
theory TurnBytes
  imports TurnSystem
begin

text \<open>
  The memory of the relay: the slab of buffers and the message headers in \<open>live_slots\<close>, which the
  ring loop hands to the kernel as raw pointers. Every header points at its own buffer; the
  bytes of a buffer are written by the completion of a receive for it and by nothing else; and
  the loop replaces a header only while the kernel does not have it.
\<close>

section \<open>Headers and buffers\<close>

definition header_typed :: "u16 \<Rightarrow> 'st MsgHdrSlot \<Rightarrow> bool" where
  "header_typed i s \<longleftrightarrow>
     unat i < POOL_SIZE \<and> iov_base s = unat i * BUFFER_SIZE \<and> iov_len s = BUFFER_SIZE \<and> msg_iovlen s = 1"

definition pool_typed :: "'st BufferPool \<Rightarrow> bool" where
  "pool_typed pool \<longleftrightarrow>
     pool_ok pool \<and> (\<forall>i s. live_slots pool i = Some s \<longrightarrow> header_typed i s)"

definition buffer :: "'st BufferPool \<Rightarrow> u16 \<Rightarrow> u8 list" where
  "buffer pool i = take BUFFER_SIZE (drop (unat i * BUFFER_SIZE) (memory pool))"

lemma datagram_buffer:
  "pool_typed pool \<Longrightarrow> datagram pool i = (if i \<in> dom (live_slots pool) then Some (buffer pool i) else None)"
  by (auto simp: pool_typed_def header_typed_def datagram_def buffer_def dom_def split: option.splits)

lemma buffer_fits: "(i::nat) < POOL_SIZE \<Longrightarrow> i * BUFFER_SIZE + BUFFER_SIZE \<le> POOL_SIZE * BUFFER_SIZE"
  using mult_le_mono1 [of "Suc i" POOL_SIZE BUFFER_SIZE] by simp

lemma pool_typed_slots: "pool_typed pool \<Longrightarrow> slots_ok pool"
  by (auto simp: slots_ok_def pool_typed_def header_typed_def pool_ok_def ran_def buffer_fits)

text \<open>Writing into one buffer, reading that one or another.\<close>

lemma write_bytes_same:
  assumes "b + n \<le> length mem" and "length ds \<le> n"
  shows "take n (drop b (write_bytes b ds mem)) = ds @ drop (length ds) (take n (drop b mem))"
  using assms by (simp add: write_bytes_def drop_take add.commute)

lemma write_bytes_before:
  assumes "c + n \<le> b" and "b \<le> length mem"
  shows "take n (drop c (write_bytes b ds mem)) = take n (drop c mem)"
proof -
  have "take n (drop c (take b mem)) = take n (drop c mem)"
    using assms(1) by (simp add: drop_take min_def)
  moreover have "n \<le> length (drop c (take b mem)) \<or> n = 0" using assms by auto
  ultimately show ?thesis using assms by (auto simp: write_bytes_def)
qed

lemma write_bytes_after:
  assumes "b + length ds \<le> c" and "b \<le> length mem"
  shows "drop c (write_bytes b ds mem) = drop c mem"
  using assms by (simp add: write_bytes_def)

lemma kernel_receive_other:
  assumes "pool_typed pool" and "i \<noteq> j"
  shows "buffer (kernel_receive L le i a ds pool) j = buffer pool j"
    and "live_slots (kernel_receive L le i a ds pool) j = live_slots pool j"
proof -
  show "live_slots (kernel_receive L le i a ds pool) j = live_slots pool j"
    using assms(2) by (simp add: kernel_receive_def split: option.split)
  show "buffer (kernel_receive L le i a ds pool) j = buffer pool j"
  proof (cases "live_slots pool i")
    case (Some s)
    with assms(1) have s: "unat i < POOL_SIZE" "iov_base s = unat i * BUFFER_SIZE" "iov_len s = BUFFER_SIZE"
      and m: "length (memory pool) = POOL_SIZE * BUFFER_SIZE"
      by (auto simp: pool_typed_def header_typed_def pool_ok_def)
    from assms(2) have "unat i \<noteq> unat j" by (simp add: word_unat_eq_iff)
    then consider "Suc (unat j) \<le> unat i" | "Suc (unat i) \<le> unat j" by linarith
    then show ?thesis
    proof cases
      case 1
      from mult_le_mono1 [OF this, of BUFFER_SIZE]
      have "unat j * BUFFER_SIZE + BUFFER_SIZE \<le> unat i * BUFFER_SIZE" by simp
      with Some s m buffer_fits [OF s(1)] show ?thesis
        by (simp add: kernel_receive_def buffer_def write_bytes_before)
    next
      case 2
      from mult_le_mono1 [OF this, of BUFFER_SIZE]
      have "unat i * BUFFER_SIZE + length (take BUFFER_SIZE ds) \<le> unat j * BUFFER_SIZE" by simp
      with Some s m buffer_fits [OF s(1)] show ?thesis
        by (simp add: kernel_receive_def buffer_def write_bytes_after)
    qed
  qed (simp add: kernel_receive_def)
qed

lemma kernel_receive_same:
  assumes "pool_typed pool" and "live_slots pool i = Some s"
  shows "buffer (kernel_receive L le i a ds pool) i =
    take BUFFER_SIZE ds @ drop (length ds) (buffer pool i)"
proof -
  have s: "unat i < POOL_SIZE" "iov_base s = unat i * BUFFER_SIZE" "iov_len s = BUFFER_SIZE"
    and m: "length (memory pool) = POOL_SIZE * BUFFER_SIZE"
    using assms by (auto simp: pool_typed_def header_typed_def pool_ok_def)
  have "drop (length (take BUFFER_SIZE ds)) (buffer pool i) = drop (length ds) (buffer pool i)"
    by (auto simp: buffer_def min_def)
  with s m write_bytes_same [of "unat i * BUFFER_SIZE" BUFFER_SIZE "memory pool" "take BUFFER_SIZE ds"]
    buffer_fits [OF s(1)] assms(2)
  show ?thesis by (simp add: kernel_receive_def buffer_def)
qed

lemma kernel_receive_typed:
  assumes "pool_typed pool"
  shows "pool_typed (kernel_receive L le i a ds pool)"
    and "dom (live_slots (kernel_receive L le i a ds pool)) = dom (live_slots pool)"
  using assms kernel_receive_slots [OF pool_typed_slots [OF assms], of L le i a ds]
  by (auto simp: pool_typed_def header_typed_def slots_ok_def kernel_receive_def split: option.splits if_splits)

section \<open>What the loop does to the pool\<close>

text \<open>At most the headers of the buffers in \<open>X\<close> are replaced, well-typed ones by well-typed
  ones; the bytes stay.\<close>

definition pool_frame :: "u16 set \<Rightarrow> 'st BufferPool \<Rightarrow> 'st BufferPool \<Rightarrow> bool" where
  "pool_frame X p p' \<longleftrightarrow>
     memory p' = memory p \<and> (\<forall>i. i \<notin> X \<longrightarrow> live_slots p' i = live_slots p i)
     \<and> dom (live_slots p) \<subseteq> dom (live_slots p') \<and> (pool_typed p \<longrightarrow> pool_typed p')"

named_theorems frame

lemma pool_frame_refl [frame]: "pool_frame X p p"
  by (simp add: pool_frame_def)

lemma pool_frame_trans: "pool_frame X p q \<Longrightarrow> pool_frame X q r \<Longrightarrow> pool_frame X p r"
  unfolding pool_frame_def by (elim conjE, intro conjI) (simp_all add: subset_trans)

lemma pool_frame_same:
  "memory p' = memory p \<Longrightarrow> live_slots p' = live_slots p \<Longrightarrow> pool_frame X p p'"
  by (simp add: pool_frame_def pool_typed_def pool_ok_def)

lemma pool_frame_marks [frame]:
  "pool_frame X p (mark_recv_for i t p)" "pool_frame X p (mark_shard_done_at i t p)"
  "pool_frame X p (mark_send_sqe_at i t p)" "pool_frame X p (p\<lparr>timestamp := ts\<rparr>)"
  by (rule pool_frame_same; simp)+

lemma pool_frame_slot:
  assumes "msghdr_ptr_for L le i a p = Inr s"
  shows "pool_frame {i} p (p\<lparr>live_slots := (live_slots p)(i \<mapsto> s)\<rparr>)"
proof -
  have "header_typed i s" if "pool_ok p"
    using assms that msghdr_ptr_ok [OF that, of i L le a] msghdr_ptr_out [OF that, of i L le a]
    by (cases "unat i < POOL_SIZE") (auto simp: header_typed_def)
  then show ?thesis by (auto simp: pool_frame_def pool_typed_def pool_ok_def)
qed

lemma post_recv_frame:
  assumes "post_recv_sqe L K le fd i a (p, k) = Inr (p', k')"
  shows "pool_frame {i} p p' \<and> live_slots p' i \<noteq> None \<and> k' = fst (sq_push K (recv_entry fd i) k)"
  using assms pool_frame_slot [of L le i a p] by (auto simp: post_recv_sqe_def and_then_Inr)

lemma post_send_frame:
  assumes "post_send_sqe L K le fd n i d (p, k) = Inr (p', k')"
  shows "pool_frame {i} p p' \<and> live_slots p' i \<noteq> None \<and> k' = fst (sq_push K (send_entry fd i) k)"
  using assms pool_frame_slot [of L le i "Some d" p] by (auto simp: post_send_sqe_def and_then_Inr)

text \<open>The effect of the loop's handlers on pool and ring: the headers in \<open>X\<close>, and the entry
  pushed for them.\<close>

definition loop_frame ::
  "('st, 'k, 'q) Env \<Rightarrow> u16 set \<Rightarrow> ('st, 'k, 'q) LoopState \<Rightarrow> ('st, 'k, 'q) LoopState \<Rightarrow> bool"
where
  "loop_frame E X st st' \<longleftrightarrow> pool_frame X (l_pool st) (l_pool st')
     \<and> (l_ring st' = l_ring st \<or> (\<exists>e. l_ring st' = fst (sq_push (e_ring E) e (l_ring st))
          \<and> live_slots (l_pool st') (sqe_msghdr e) \<noteq> None))"

lemma loop_frame_pool:
  "l_ring st' = l_ring st \<Longrightarrow> pool_frame X (l_pool st) (l_pool st') \<Longrightarrow> loop_frame E X st st'"
  by (simp add: loop_frame_def)

lemma post_request_frame:
  assumes "post_request E (a, n, i) st = Inr st'"
  shows "loop_frame E {i} st st'"
proof -
  define p where "p = mark_shard_done_at i (e_clock E (l_calls st)) (l_pool st)"
  from assms obtain q k where q: "post_send_sqe (e_libc E) (e_ring E) (e_le E) (e_fd E) n i a (p, l_ring st) = Inr (q, k)"
    and st': "l_pool st' = mark_send_sqe_at i (e_clock E (l_calls st + 1)) q" "l_ring st' = k"
    by (auto simp: post_request_def instant_now_def p_def [symmetric] and_then_Inr)
  from post_send_frame [OF q] have f: "pool_frame {i} p q" "live_slots q i \<noteq> None"
    "k = fst (sq_push (e_ring E) (send_entry (e_fd E) i) (l_ring st))" by auto
  have "pool_frame {i} (l_pool st) (l_pool st')"
    unfolding st' p_def using f(1) by (metis p_def pool_frame_marks(2,3) pool_frame_trans)
  with f st' show ?thesis by (auto simp: loop_frame_def intro!: exI [of _ "send_entry (e_fd E) i"])
qed

lemma loop_release_frame:
  assumes "loop_release E i st = Inr st'"
  shows "loop_frame E {i} st st'"
proof -
  from assms obtain p k where "post_recv_sqe (e_libc E) (e_ring E) (e_le E) (e_fd E) i None (l_pool st, l_ring st) = Inr (p, k)"
    and st': "st' = st\<lparr>l_pool := p, l_ring := k\<rparr>"
    by (auto simp: loop_release_def release_def and_then_Inr)
  from post_recv_frame [OF this(1)] st' show ?thesis
    by (auto simp: loop_frame_def intro!: exI [of _ "recv_entry (e_fd E) i"])
qed

lemma handle_recv_frame:
  assumes "handle_recv E i n st = Inr st'"
  shows "loop_frame E {} st st'"
proof -
  from assms have "l_ring st' = l_ring st"
    "\<exists>t t'. l_pool st' = mark_recv_for i t' (mark_recv_for i t (l_pool st))"
    by (fastforce simp: handle_recv_def instant_now_def Let_def and_then_Inr)+
  then show ?thesis by (auto intro!: loop_frame_pool pool_frame_same)
qed

lemma log_timing_pool: "log_timing E t st = Inr st' \<Longrightarrow> l_pool st' = l_pool st \<and> l_ring st' = l_ring st"
  by (auto simp: log_timing_def instant_now_def Let_def split: option.splits)

lemma handle_send_frame:
  assumes "handle_send E i flags st = Inr st'"
  shows "loop_frame E (if e_more E flags then {} else {i}) st st'"
proof (cases "e_more E flags")
  case True
  with assms show ?thesis by (auto simp: handle_send_def intro: loop_frame_pool frame)
next
  case False
  with assms obtain st1 where r: "loop_release E i st = Inr st1"
    and "(case take_recv_for i (l_pool st1) of (None, pool) \<Rightarrow> Inr (st1\<lparr>l_pool := pool\<rparr>)
        | (Some t, pool) \<Rightarrow> log_timing E t (st1\<lparr>l_pool := pool\<rparr>)) = Inr st'"
    by (auto simp: handle_send_def and_then_Inr)
  then have p: "l_pool st' = (l_pool st1)\<lparr>timestamp := (timestamp (l_pool st1))(i := None)\<rparr>" "l_ring st' = l_ring st1"
    by (auto simp: take_recv_for_def split: option.splits dest: log_timing_pool)
  have "pool_frame {i} (l_pool st1) (l_pool st')" unfolding p by (rule frame)
  with loop_release_frame [OF r] p False show ?thesis
    by (auto simp: loop_frame_def intro: pool_frame_trans)
qed

text \<open>A completion only concerns the header of its own buffer, and only when it is the last one.\<close>

lemma handle_cqe_frame:
  assumes "handle_cqe E c st = Inr st'" and "cqe_ok E c"
  shows "loop_frame E (set (map cqe_idx (final_cqes E [c]))) st st'"
proof -
  have dec: "decode_token (cqe_user_data c) = (cqe_op c, cqe_idx c)" by (simp add: cqe_op_def cqe_idx_def)
  show ?thesis
  proof (cases "cqe_op c")
    case Recv
    with assms dec have "loop_frame E {} st st'" by (auto simp: handle_cqe_def intro: handle_recv_frame)
    then show ?thesis by (auto simp: loop_frame_def pool_frame_def)
  next
    case Send
    with assms dec handle_send_frame [of E "cqe_idx c" "cqe_flags c" st st'] show ?thesis
      by (auto simp: handle_cqe_def final_cqes_def split: if_splits)
  qed (use assms in \<open>simp add: cqe_ok_def\<close>)
qed

section \<open>What every step does\<close>

text \<open>Every submission the kernel has, or is to have, has its header.\<close>

definition headers_live :: "('st, 'k, 'q) Env \<Rightarrow> ('q, 'c, 'k) View \<Rightarrow> ('sid, 'q, 'c, 'k, 'st) Turn \<Rightarrow> bool" where
  "headers_live E V st \<longleftrightarrow>
     (\<forall>e\<in>set (submitted_entries V st). live_slots (l_pool (t_loop st)) (sqe_msghdr e) \<noteq> None)"

definition memory_inv ::
  "('st, 'k, 'q) Env \<Rightarrow> ('q, 'c, 'k) View \<Rightarrow> ('sid, 'q, 'c, 'k, 'st) Turn \<Rightarrow> bool"
where
  "memory_inv E V st \<longleftrightarrow> turn_inv E V st \<and> pool_typed (l_pool (t_loop st)) \<and> headers_live E V st"

text \<open>The buffer a step receives into.\<close>

fun receives_into :: "('sid, 'q, 'c, 'k, 'st) Turn \<Rightarrow> 'sid turn_event \<Rightarrow> u16 set" where
  "receives_into st (KernelComplete n a ds res flags) =
     (if n < length (t_inflight st) \<and> sqe_opcode (t_inflight st ! n) = RecvMsg \<and> 0 \<le> res
      then {sqe_msghdr (t_inflight st ! n)} else {})"
| "receives_into st _ = {}"

text \<open>What a step leaves alone: the bytes of every buffer it does not receive into; and the headers
  of all submissions, again but for the one it receives into.\<close>

definition keeps_memory ::
  "('q, 'c, 'k) View \<Rightarrow> u16 set \<Rightarrow> ('sid, 'q, 'c, 'k, 'st) Turn \<Rightarrow> ('sid, 'q, 'c, 'k, 'st) Turn \<Rightarrow> bool"
where
  "keeps_memory V X st st' \<longleftrightarrow>
     (\<forall>i. i \<notin> X \<longrightarrow> buffer (l_pool (t_loop st')) i = buffer (l_pool (t_loop st)) i)
     \<and> (\<forall>i. i \<notin> X \<and> i \<in> sqe_msghdr ` set (submitted_entries V st) \<longrightarrow>
          live_slots (l_pool (t_loop st')) i = live_slots (l_pool (t_loop st)) i)"

text \<open>A buffer received into is nowhere else.\<close>

lemma received_count:
  assumes "turn_inv E V st" and "i \<in> receives_into st ev"
  shows "count (held E V st) i = 1"
proof -
  from assms(2) obtain n where "n < length (t_inflight st)" "sqe_msghdr (t_inflight st ! n) = i"
    by (cases ev) (auto split: if_splits)
  then have "\<exists>e\<in>set (t_inflight st). sqe_msghdr e = i" by (intro bexI [of _ "t_inflight st ! n"]) simp_all
  then have "i \<in># mset (map sqe_msghdr (submitted_entries V st))" by (auto simp: submitted_entries_def)
  then have "i \<in># held E V st" by (simp add: held_def)
  moreover have "count (held E V st) i \<le> 1"
    using mset_subset_eq_count [of "held E V st" "mset_set all_buffers" i] assms(1)
    by (auto simp: turn_inv_def count_mset_set' split: if_splits)
  ultimately show ?thesis unfolding count_greater_zero_iff [symmetric] by linarith
qed

context turn_system
begin

lemma memory_okI:
  assumes "memory_inv E V st"
    and "pool_frame X (l_pool (t_loop st)) (l_pool (t_loop st'))"
    and "X \<inter> sqe_msghdr ` set (submitted_entries V st) = {}"
    and "\<And>e. e \<in> set (submitted_entries V st') \<Longrightarrow> e \<in> set (submitted_entries V st)
      \<or> live_slots (l_pool (t_loop st')) (sqe_msghdr e) \<noteq> None"
  shows "pool_typed (l_pool (t_loop st')) \<and> headers_live E V st' \<and> keeps_memory V Y st st'"
proof (intro conjI)
  show "pool_typed (l_pool (t_loop st'))" using assms(1,2) by (simp add: memory_inv_def pool_frame_def)
  show "headers_live E V st'"
    unfolding headers_live_def
  proof
    fix e assume e: "e \<in> set (submitted_entries V st')"
    have "live_slots (l_pool (t_loop st)) (sqe_msghdr e) \<noteq> None" if "e \<in> set (submitted_entries V st)"
      using assms(1) that by (simp add: memory_inv_def headers_live_def)
    with assms(2,4) [of] e show "live_slots (l_pool (t_loop st')) (sqe_msghdr e) \<noteq> None"
      unfolding pool_frame_def by blast
  qed
  show "keeps_memory V Y st st'"
    using assms(2,3) by (auto simp: keeps_memory_def pool_frame_def buffer_def)
qed

lemma not_submitted:
  assumes "turn_inv E V st" and "held E V st = add_mset i M" and "mset (map sqe_msghdr (submitted_entries V st)) \<subseteq># M"
  shows "i \<notin> sqe_msghdr ` set (submitted_entries V st)"
proof -
  have "i \<notin># M" using turn_invD(7) [OF assms(1)] assms(2) owned_once(2) [of i M] by simp
  then show ?thesis using assms(3) mset_subset_eqD by fastforce
qed

lemma frame_submitted:
  assumes "loop_frame E X (t_loop st) loop"
    and "st' = st\<lparr>t_channel := c, t_cq := cq, t_loop := loop\<rparr>"
    and "e \<in> set (submitted_entries V st')"
  shows "e \<in> set (submitted_entries V st) \<or> live_slots (l_pool (t_loop st')) (sqe_msghdr e) \<noteq> None"
  using assms push_set by (fastforce simp: loop_frame_def submitted_entries_def ring.push_synced)

text \<open>Steps that leave the pool alone.\<close>

lemma memory_ok_same:
  assumes "memory_inv E V st" and "l_pool (t_loop st') = l_pool (t_loop st)"
    and "set (submitted_entries V st') \<subseteq> set (submitted_entries V st)"
  shows "pool_typed (l_pool (t_loop st')) \<and> headers_live E V st' \<and> keeps_memory V Y st st'"
  using assms by (intro memory_okI [where X = "{}"]) (auto intro: frame)

lemma request_memory:
  assumes "memory_inv E V st" and "turn_step E C oc LoopRequest st = Inr st'"
  shows "pool_typed (l_pool (t_loop st')) \<and> headers_live E V st' \<and> keeps_memory V Y st st'"
proof -
  obtain x c where d: "q_dequeue C (t_channel st) = (x, c)" by fastforce
  show ?thesis
  proof (cases x)
    case None
    with d assms show ?thesis by (intro memory_ok_same) (auto simp: submitted_entries_def)
  next
    case (Some req)
    obtain a n i where req: "req = (a, n, i)" by (cases req)
    with d Some assms(2) obtain loop where p: "post_request E (a, n, i) (t_loop st) = Inr loop"
      and st': "st' = st\<lparr>t_channel := c, t_cq := t_cq st, t_loop := loop\<rparr>"
      by (auto simp: and_then_Inr)
    note f = post_request_frame [OF p]
    have inv: "turn_inv E V st" using assms(1) by (simp add: memory_inv_def)
    from tx.dequeue_some d Some req have ch: "sqes (t_channel st) = (a, n, i) # sqes c" by simp
    have h: "held E V st = add_mset i (mset (map sqe_msghdr (submitted_entries V st))
        + (mset (map cqe_idx (final_cqes E (t_cq st))) + queue_bufs msgs (l_router (t_loop st))
        + mset (map sqe_buf (sqes c))))"
      by (simp add: held_def queue_bufs_def ch add_ac)
    have "i \<notin> sqe_msghdr ` set (submitted_entries V st)"
      by (rule not_submitted [OF inv h]) (rule mset_subset_eq_add_left)
    then show ?thesis
      using f frame_submitted [OF f st'] st'
      by (intro memory_okI [OF assms(1), where X = "{i}"]) (auto simp: loop_frame_def)
  qed
qed

lemma cqe_memory:
  assumes "memory_inv E V st" and "turn_step E C oc LoopCqe st = Inr st'"
  shows "pool_typed (l_pool (t_loop st')) \<and> headers_live E V st' \<and> keeps_memory V Y st st'"
proof (cases "t_cq st")
  case Nil
  with assms show ?thesis by (intro memory_ok_same) auto
next
  case (Cons c cs)
  with assms(2) obtain loop where p: "handle_cqe E c (t_loop st) = Inr loop"
    and st': "st' = st\<lparr>t_channel := t_channel st, t_cq := cs, t_loop := loop\<rparr>"
    by (auto simp: and_then_Inr)
  have inv: "turn_inv E V st" using assms(1) by (simp add: memory_inv_def)
  have "cqe_ok E c" using turn_invD(3) [OF inv] Cons by simp
  note f = handle_cqe_frame [OF p this]
  let ?X = "set (map cqe_idx (final_cqes E [c]))"
  have "?X \<inter> sqe_msghdr ` set (submitted_entries V st) = {}"
  proof (cases "e_more E (cqe_flags c)")
    case False
    with Cons have h: "held E V st = add_mset (cqe_idx c) (mset (map sqe_msghdr (submitted_entries V st))
        + (mset (map cqe_idx (final_cqes E cs)) + queue_bufs msgs (l_router (t_loop st))
        + mset (map sqe_buf (sqes (t_channel st)))))"
      by (simp add: held_def queue_bufs_def final_cqes_def add_ac)
    have "cqe_idx c \<notin> sqe_msghdr ` set (submitted_entries V st)"
      by (rule not_submitted [OF inv h]) (rule mset_subset_eq_add_left)
    then show ?thesis by (simp add: final_cqes_def)
  qed (simp add: final_cqes_def)
  then show ?thesis
    using f frame_submitted [OF f st'] st'
    by (intro memory_okI [OF assms(1), where X = ?X]) (auto simp: loop_frame_def)
qed

lemma complete_memory:
  assumes "memory_inv E V st" and "turn_step E C oc (KernelComplete n a ds res flags) st = Inr st'"
  shows "pool_typed (l_pool (t_loop st')) \<and> headers_live E V st'
    \<and> keeps_memory V (receives_into st (KernelComplete n a ds res flags)) st st'"
proof -
  have typed: "pool_typed (l_pool (t_loop st))" and live: "headers_live E V st"
    using assms(1) by (simp_all add: memory_inv_def)
  define i where "i = sqe_msghdr (t_inflight st ! n)"
  define p where "p = kernel_receive (e_libc E) (e_le E) i a ds (l_pool (t_loop st))"
  from assms(2) have sub: "set (submitted_entries V st') \<subseteq> set (submitted_entries V st)"
    by (auto simp: kernel_complete_def Let_def submitted_entries_def dest: in_set_takeD in_set_dropD split: if_splits)
  show ?thesis
  proof (cases "l_pool (t_loop st') = l_pool (t_loop st)")
    case True
    with assms(1) sub show ?thesis by (intro memory_ok_same)
  next
    case False
    with assms(2) have p: "l_pool (t_loop st') = p"
      and X: "receives_into st (KernelComplete n a ds res flags) = {i}"
      by (auto simp: kernel_complete_def Let_def p_def i_def split: if_splits)
    from live sub kernel_receive_typed(2) [OF typed, of "e_libc E" "e_le E" i a ds] have "headers_live E V st'"
      unfolding headers_live_def p p_def by blast
    with kernel_receive_typed(1) [OF typed] kernel_receive_other [OF typed] p X show ?thesis
      by (auto simp: keeps_memory_def p_def)
  qed
qed

lemma memory_step:
  assumes "memory_inv E V st" and "turn_step E C oc ev st = Inr st'"
  shows "memory_inv E V st' \<and> keeps_memory V (receives_into st ev) st st'"
proof -
  have "turn_inv E V st'"
    using step_ok [of st oc ev] assms by (simp add: memory_inv_def turn_ok_def)
  moreover have "pool_typed (l_pool (t_loop st')) \<and> headers_live E V st'
    \<and> keeps_memory V (receives_into st ev) st st'"
  proof (cases ev)
    case (LoopControl m)
    with assms show ?thesis
      by (intro memory_ok_same) (auto simp: and_then_Inr Let_def submitted_entries_def)
  next
    case LoopRequest
    with assms show ?thesis by (simp only: request_memory)
  next
    case LoopSync
    with assms show ?thesis
      by (intro memory_ok_same) (auto simp: Let_def submitted_entries_def ring.sync_unsynced ring.sync_synced)
  next
    case LoopCqe
    with assms show ?thesis by (simp only: cqe_memory)
  next
    case (ShardTurn i sid)
    with assms show ?thesis
      by (intro memory_ok_same)
        (auto simp: and_then_Inr Let_def submitted_entries_def split: if_splits prod.splits)
  next
    case KernelTake
    obtain x k where t: "ring_take (e_ring E) (l_ring (t_loop st)) = (x, k)" by fastforce
    with ring.take_result [of "l_ring (t_loop st)"] ring.take_keeps [of "l_ring (t_loop st)"]
    have "unsynced k = unsynced (l_ring (t_loop st))"
      "synced (l_ring (t_loop st)) = (case x of None \<Rightarrow> synced k | Some e \<Rightarrow> e # synced k)"
      by (auto split: list.splits)
    with KernelTake assms t show ?thesis
      by (intro memory_ok_same) (auto simp: Let_def submitted_entries_def split: option.splits)
  next
    case (KernelComplete n a ds res flags)
    with assms show ?thesis by (simp only: complete_memory)
  qed
  ultimately show ?thesis by (simp add: memory_inv_def)
qed

lemma memory_run:
  assumes "memory_inv E V st" and "turn_run E C oc evs st = Inr st'"
  shows "memory_inv E V st'"
  using assms
proof (induction evs arbitrary: st)
  case (Cons ev evs)
  then obtain st1 where "turn_step E C oc ev st = Inr st1" "turn_run E C oc evs st1 = Inr st'"
    by (auto simp: and_then_Inr simp del: turn_step.simps)
  with Cons memory_step show ?case by blast
qed simp

lemma start_memory:
  assumes "can_start E unsynced synced slots k" and "qs \<noteq> []" and "\<forall>q\<in>set qs. msgs q = []" and "sqes c = []"
  shows "\<exists>loop. loop_start E BufferPool_default k (ShardRouter_new qs) = Inr loop
    \<and> memory_inv E V (Turn_new loop c :: ('sid, 'q, 'c, 'k, 'st) Turn)
    \<and> l_router loop = ShardRouter_new qs \<and> slots k - POOL_SIZE \<le> slots (l_ring loop)
    \<and> synced (l_ring loop) = map (recv_entry (e_fd E)) seed_list"
proof -
  from assms(1) have reg: "snd (register_buffers (e_ring E) iovs k)" and room: "POOL_SIZE \<le> slots k"
    for iovs by (simp_all add: can_start_def)
  from ring.start_ok [OF reg room, of "e_libc E" "e_le E" "e_fd E"] obtain p0 k1 pool k2
    where s: "register_buffer_kernel (e_ring E) BufferPool_default k = Inr (p0, k1)"
      "seed (e_libc E) (e_ring E) (e_le E) (e_fd E) POOL_SIZE 0 (p0, k1) = Inr ((pool, k2), POOL_SIZE)"
      and pool: "pool_ok pool" "\<forall>i. live_slots pool i = (if unat i < POOL_SIZE
          then Some (MsgHdrSlot_new (e_libc E) (e_le E) (unat i * BUFFER_SIZE) None) else None)"
      and k2: "slots k2 = slots k - POOL_SIZE" by blast
  from start_inv [OF assms, where ?'sid = 'sid] obtain loop
    where l: "loop_start E BufferPool_default k (ShardRouter_new qs) = Inr loop" "l_router loop = ShardRouter_new qs"
      "unsynced (l_ring loop) = []" "synced (l_ring loop) = map (recv_entry (e_fd E)) seed_list"
      "\<forall>i\<in>all_buffers. live_slots (l_pool loop) i \<noteq> None"
      and inv: "turn_inv E V (Turn_new loop c :: ('sid, 'q, 'c, 'k, 'st) Turn)" by blast
  from s l(1) have lp: "l_pool loop = pool" "l_ring loop = fst (ring_submit (e_ring E) (sq_sync (e_ring E) k2))"
    by (auto simp: loop_start_def split: prod.splits bool.splits)
  have sl: "slots k - POOL_SIZE \<le> slots (l_ring loop)"
    using ring.sync_slots [of k2] by (simp add: lp ring.slots_seen k2)
  from lp pool have "pool_typed (l_pool loop)" by (auto simp: pool_typed_def header_typed_def split: if_splits)
  moreover have "set seed_list \<subseteq> all_buffers"
    by (metis finite_buffers finite_set_mset_mset_set seed_list_buffers set_mset_mset subset_refl)
  then have "live_slots (l_pool loop) (sqe_msghdr e) \<noteq> None" if "e \<in> recv_entry (e_fd E) ` set seed_list" for e
    using that l(5) by (elim imageE) (simp add: subset_iff del: set_rev)
  moreover have "submitted_entries V (Turn_new loop c :: ('sid, 'q, 'c, 'k, 'st) Turn)
      = map (recv_entry (e_fd E)) seed_list"
    by (simp add: Turn_new_def submitted_entries_def l)
  ultimately have "memory_inv E V (Turn_new loop c :: ('sid, 'q, 'c, 'k, 'st) Turn)"
    using inv unfolding memory_inv_def headers_live_def by (simp add: Turn_new_def del: set_rev)
  with l sl show ?thesis by blast
qed

section \<open>A datagram through the relay\<close>

lemma route_enqueues:
  assumes "router_inv r" and "endpoint_to_shard r (src p) = Some j"
    and "snd (q_enqueue (e_queue E) (Transmit p) (senders r ! j))"
  shows "\<exists>q. route (e_queue E) p r = Inr (r\<lparr>senders := (senders r)[j := q]\<rparr>)
    \<and> msgs q = msgs (senders r ! j) @ [Transmit p]"
  using assms router_inv_endpoint [OF assms(1,2)] rx.enqueue_contents [of "Transmit p" "senders r ! j"]
  by (auto simp: route_def enqueue_at_def intro!: exI [of _ "fst (q_enqueue (e_queue E) (Transmit p) (senders r ! j))"])

lemma post_request_send:
  assumes "slots_ok (l_pool st)" and "unat i < POOL_SIZE"
  shows "\<exists>loop s. post_request E (d, n, i) st = Inr loop \<and> l_router loop = l_router st
    \<and> l_ring loop = fst (sq_push (e_ring E) (send_entry (e_fd E) i) (l_ring st))
    \<and> memory (l_pool loop) = memory (l_pool st) \<and> live_slots (l_pool loop) i = Some s
    \<and> s = MsgHdrSlot_new (e_libc E) (e_le E) (unat i * BUFFER_SIZE) (Some d)"
proof -
  have ok: "pool_ok (mark_shard_done_at i t (l_pool st))" for t
    using assms(1) by (simp add: slots_ok_def pool_ok_def)
  show ?thesis by (simp add: post_request_def instant_now_def post_send_ok [OF ok assms(2)])
qed

end

text \<open>A datagram comes in, is routed, is looked up, and its buffer is posted for sending.\<close>

definition delivery_round :: "nat \<Rightarrow> nat \<Rightarrow> 'sid \<Rightarrow> sockaddr \<Rightarrow> u8 list \<Rightarrow> 'sid turn_event list" where
  "delivery_round n j sid a ds =
     [KernelTake, KernelComplete n a ds (int (length ds)) 0, LoopCqe, ShardTurn j sid, LoopRequest, LoopSync]"

context turn_system
begin

lemma delivery:
  fixes st :: "('sid, 'q, 'c, 'k, 'st) Turn"
  assumes inv: "memory_inv E V st" and L: "libc (e_libc E)" and more: "\<not> e_more E 0"
    and ring: "synced (l_ring (t_loop st)) = recv_entry (e_fd E) i # es" "0 < slots (l_ring (t_loop st))"
    and idle: "t_cq st = []" "sqes (t_channel st) = []" "0 < cap"
    and j: "endpoint_to_shard (l_router (t_loop st)) (plain_addr a) = Some j"
    and q: "msgs (senders (l_router (t_loop st)) ! j) = []"
      "\<And>m. snd (q_enqueue (e_queue E) m (senders (l_router (t_loop st)) ! j))"
    and d: "lookup_peer (fst (t_shards st ! j)) (plain_addr a) = Some d"
    and ds: "length ds \<le> BUFFER_SIZE"
  shows "\<exists>st' s. turn_run E C oc (delivery_round (length (t_inflight st)) j sid a ds) st = Inr st'
    \<and> synced (l_ring (t_loop st')) = es @ unsynced (l_ring (t_loop st)) @ [send_entry (e_fd E) i]
    \<and> live_slots (l_pool (t_loop st')) i = Some s
    \<and> extract_src_addr (e_libc E) (e_le E) (slot_addr s) = plain_addr d
    \<and> datagram (l_pool (t_loop st')) i = Some (ds @ drop (length ds) (buffer (l_pool (t_loop st)) i))"
proof -
  let ?loop = "t_loop st"
  let ?pool = "l_pool ?loop"
  from inv have tinv: "turn_inv E V st" and typed: "pool_typed ?pool" and live: "headers_live E V st"
    by (simp_all add: memory_inv_def)
  note I = turn_invD [OF tinv]
  obtain x k where t: "ring_take (e_ring E) (l_ring ?loop) = (x, k)" by fastforce
  with ring.take_result [of "l_ring ?loop"] ring.take_keeps [of "l_ring ?loop"] ring.slots_seen(1) [of "l_ring ?loop"] ring
  have k: "x = Some (recv_entry (e_fd E) i)" "unsynced k = unsynced (l_ring ?loop)" "synced k = es" "0 < slots k"
    by auto
  have "recv_entry (e_fd E) i \<in> set (submitted_entries V st)" using ring by (simp add: submitted_entries_def)
  with live obtain s0 where s0: "live_slots ?pool i = Some s0" by (force simp: headers_live_def)
  with typed have i: "unat i < POOL_SIZE" by (simp add: pool_typed_def header_typed_def)
  define pool where "pool = kernel_receive (e_libc E) (e_le E) i a ds ?pool"
  have pool: "pool_typed pool" "buffer pool i = ds @ drop (length ds) (buffer ?pool i)"
    using kernel_receive_typed(1) [OF typed] kernel_receive_same [OF typed s0] ds by (simp_all add: pool_def)
  define loop where "loop = ?loop\<lparr>l_ring := k, l_pool := pool\<rparr>"
  have "live_slots pool i = Some (s0\<lparr>slot_addr := fst (write_socket_addr (e_libc E) (e_le E) (slot_addr s0) a)\<rparr>)"
    by (simp add: pool_def kernel_receive_def s0)
  then have src: "get_peer_addr (e_libc E) (e_le E) i (mark_recv_for i n pool) = plain_addr a" for n
    by (simp add: get_peer_addr_def libc.extract_write [OF L])
  define c where "c = \<lparr>cqe_user_data = encode_token Recv i, cqe_result = int (length ds), cqe_flags = 0\<rparr>"
  define p where "p = \<lparr>buf_idx = i, len = length ds, src = plain_addr a\<rparr>"
  let ?r = "l_router ?loop"
  from route_enqueues [OF I(5), of p j] j q obtain q1
    where route: "route (e_queue E) p ?r = Inr (?r\<lparr>senders := (senders ?r)[j := q1]\<rparr>)" and q1: "msgs q1 = [Transmit p]"
    by (auto simp: p_def)
  then obtain loop1 where h: "handle_cqe E c loop = Inr loop1"
    and l1: "l_router loop1 = ?r\<lparr>senders := (senders ?r)[j := q1]\<rparr>" "l_ring loop1 = k"
      "memory (l_pool loop1) = memory pool" "live_slots (l_pool loop1) = live_slots pool"
    by (auto simp: handle_cqe_def c_def decode_encode handle_recv_def instant_now_def Let_def src loop_def p_def)
  have run1: "turn_run E C oc [KernelTake, KernelComplete (length (t_inflight st)) a ds (int (length ds)) 0, LoopCqe] st
      = Inr (st\<lparr>t_loop := loop1, t_inflight := t_inflight st, t_cq := []\<rparr>)" (is "_ = Inr ?st1")
    using more t k idle h by (simp add: kernel_complete_def Let_def c_def loop_def pool_def)
  have jl: "j < length (senders ?r)" "j < length (t_shards st)" using router_inv_endpoint [OF I(5) j] I(6) by auto
  obtain sh n where sh: "t_shards st ! j = (sh, n)" by fastforce
  from rx.dequeue_cons [OF q1] obtain q2 where q2: "q_dequeue (e_queue E) q1 = (Some (Transmit p), q2)" by blast
  define ch where "ch = fst (q_enqueue C (d, length ds, i) (t_channel st))"
  have ch: "sqes ch = [(d, length ds, i)]" using send_room [of "t_channel st"] idle by (simp add: ch_def)
  have "handle_packet sh p = Some (d, length ds, i)" using d sh by (simp add: handle_packet_lookup p_def)
  then have turn: "shard_turn (e_queue E) C oc sid (sh, q1, t_channel st, n) = Inr ((sh, q2, ch, 0), Handled)"
    by (simp add: shard_turn_def q2 ch_def)
  define loop2 where "loop2 = loop1\<lparr>l_router := (l_router loop1)\<lparr>senders := (senders (l_router loop1))[j := q2]\<rparr>\<rparr>"
  let ?st2 = "?st1\<lparr>t_shards := (t_shards st)[j := (sh, 0)], t_loop := loop2, t_channel := ch\<rparr>"
  have run2: "turn_step E C oc (ShardTurn j sid) ?st1 = Inr ?st2"
    using jl sh turn l1 by (simp add: Let_def loop2_def)
  from tx.dequeue_cons [OF ch] obtain ch' where deq: "q_dequeue C ch = (Some (d, length ds, i), ch')" by blast
  have "slots_ok (l_pool loop2)"
    using pool_typed_slots [OF pool(1)] l1 by (auto simp: loop2_def slots_ok_def pool_ok_def)
  from post_request_send [OF this i, of d "length ds"] obtain loop3 s
    where post: "post_request E (d, length ds, i) loop2 = Inr loop3" and
      l3: "l_ring loop3 = fst (sq_push (e_ring E) (send_entry (e_fd E) i) k)" "memory (l_pool loop3) = memory pool"
        "live_slots (l_pool loop3) i = Some s" and
      s: "s = MsgHdrSlot_new (e_libc E) (e_le E) (unat i * BUFFER_SIZE) (Some d)"
    using l1 by (auto simp: loop2_def)
  define loop4 where "loop4 = loop3\<lparr>l_ring := sq_sync (e_ring E) (l_ring loop3)\<rparr>"
  let ?st' = "?st2\<lparr>t_channel := ch', t_loop := loop4\<rparr>"
  have run3: "turn_run E C oc [LoopRequest, LoopSync] ?st2 = Inr ?st'"
    using deq post by (simp add: Let_def loop4_def)
  have "turn_run E C oc (delivery_round (length (t_inflight st)) j sid a ds) st = Inr ?st'"
    using run1 run2 run3 by (auto simp: delivery_round_def and_then_Inr simp del: turn_step.simps)
  moreover have "synced (l_ring loop4) = es @ unsynced (l_ring ?loop) @ [send_entry (e_fd E) i]"
    using k by (simp add: loop4_def l3 ring.sync_synced ring.push_synced ring.push_unsynced)
  moreover have "extract_src_addr (e_libc E) (e_le E) (slot_addr s) = plain_addr d"
    using libc.extract_write [OF L, of "e_le E" "zeroed (e_libc E)" d]
    by (auto simp: s MsgHdrSlot_new_def split: prod.split)
  moreover have "datagram (l_pool loop4) i = Some (buffer pool i)"
    using l3 s by (simp add: loop4_def datagram_def buffer_def)
  ultimately show ?thesis using l3(3) pool(2) by (intro exI [of _ ?st'] exI [of _ s]) (simp add: loop4_def)
qed

end

section \<open>Properties of the memory\<close>

text \<open>Property C8: from the relay's start, under any interleaving, every message header points at
  its own buffer, whole and within the slab, and every submission the kernel has or is to have
  refers to such a header: no pointer handed to the kernel is null, foreign or out of bounds.\<close>

theorem headers_own_buffer:
  fixes evs :: "'sid turn_event list"
  assumes "turn_system E msgs C sqes cap U S slots" and "can_start E U S slots k"
    and "qs \<noteq> []" and "\<forall>q\<in>set qs. msgs q = []" and "sqes c = []"
  shows "\<exists>loop. loop_start E BufferPool_default k (ShardRouter_new qs) = Inr loop
    \<and> (case turn_run E C oc evs (Turn_new loop c) of
         Inl e \<Rightarrow> e = ArithmeticOverflow
       | Inr st \<Rightarrow> pool_typed (l_pool (t_loop st))
           \<and> (\<forall>e\<in>set (submitted_entries (view_of msgs sqes U S) st).
                \<exists>s. live_slots (l_pool (t_loop st)) (sqe_msghdr e) = Some s \<and> header_typed (sqe_msghdr e) s))"
proof -
  let ?V = "view_of msgs sqes U S"
  from turn_system.start_memory [OF assms, where ?'sid = 'sid] obtain loop
    where l: "loop_start E BufferPool_default k (ShardRouter_new qs) = Inr loop"
      and i: "memory_inv E ?V (Turn_new loop c :: ('sid, _, _, _, _) Turn)" by auto
  from i have t: "turn_inv E ?V (Turn_new loop c :: ('sid, _, _, _, _) Turn)" by (simp add: memory_inv_def)
  have "pool_typed (l_pool (t_loop st)) \<and> headers_live E ?V st"
    if "turn_run E C oc evs (Turn_new loop c) = Inr st" for st
    using turn_system.memory_run [OF assms(1) i that] by (simp add: memory_inv_def)
  then show ?thesis
    using l turn_system.run_ok [OF assms(1) t, of oc evs]
    by (fastforce simp: turn_ok_def headers_live_def pool_typed_def split: sum.splits)
qed

theorem headers_own_buffer_witness:
  "\<exists>loop. loop_start example_env BufferPool_default ([], [], 1024) (ShardRouter_new [[], []]) = Inr loop
    \<and> (case turn_run example_env (list_queue 2048) True example_events (Turn_new loop []) of
         Inl e \<Rightarrow> e = ArithmeticOverflow
       | Inr st \<Rightarrow> pool_typed (l_pool (t_loop st))
           \<and> (\<forall>e\<in>set (submitted_entries example_view st).
                \<exists>s. live_slots (l_pool (t_loop st)) (sqe_msghdr e) = Some s \<and> header_typed (sqe_msghdr e) s))"
  by (rule headers_own_buffer [OF list_turn_system example_can_start]) simp_all

text \<open>Property C10: a buffer and its header are touched by their owner only. In every reachable
  state, a step changes the bytes of no buffer but the one a receive completes into, which then is
  nowhere else: not queued, requested or being sent; and while a submission is with the kernel
  its header is not replaced under it.\<close>

theorem memory_touched_by_owner:
  fixes evs :: "'sid turn_event list"
  assumes "turn_system E msgs C sqes cap U S slots" and "can_start E U S slots k"
    and "qs \<noteq> []" and "\<forall>q\<in>set qs. msgs q = []" and "sqes c = []"
  shows "\<exists>loop. loop_start E BufferPool_default k (ShardRouter_new qs) = Inr loop
    \<and> (\<forall>st ev st'. turn_run E C oc evs (Turn_new loop c) = Inr st \<and> turn_step E C oc ev st = Inr st' \<longrightarrow>
         keeps_memory (view_of msgs sqes U S) (receives_into st ev) st st'
         \<and> (\<forall>i\<in>receives_into st ev. count (held E (view_of msgs sqes U S) st) i = 1))"
proof -
  let ?V = "view_of msgs sqes U S"
  from turn_system.start_memory [OF assms, where ?'sid = 'sid] obtain loop
    where l: "loop_start E BufferPool_default k (ShardRouter_new qs) = Inr loop"
      and i: "memory_inv E ?V (Turn_new loop c :: ('sid, _, _, _, _) Turn)" by auto
  have "count (held E ?V st) j = 1" if "memory_inv E ?V st" "j \<in> receives_into st ev" for st ev j
    using that by (intro received_count) (simp_all add: memory_inv_def)
  with l turn_system.memory_run [OF assms(1) i] turn_system.memory_step [OF assms(1)] show ?thesis
    by (intro exI [of _ loop]) blast
qed

theorem memory_touched_by_owner_witness:
  "\<exists>loop. loop_start example_env BufferPool_default ([], [], 1024) (ShardRouter_new [[], []]) = Inr loop
    \<and> (\<forall>st ev st'. turn_run example_env (list_queue 2048) True example_events (Turn_new loop []) = Inr st
        \<and> turn_step example_env (list_queue 2048) True ev st = Inr st' \<longrightarrow>
          keeps_memory example_view (receives_into st ev) st st'
          \<and> (\<forall>i\<in>receives_into st ev. count (held example_env example_view st) i = 1))"
  by (rule memory_touched_by_owner [OF list_turn_system example_can_start]) simp_all

text \<open>Property C9: a datagram from a registered endpoint crosses the whole relay. If the kernel has a
  receive posted, the ring a free slot, and the shard's queue and the request channel nothing
  in them, then receiving it, one turn of the shard and one request later a send of its buffer is published
  whose header names the peer's address. What is sent starts with the datagram; the rest of the
  1500 bytes is what the buffer held before.\<close>

theorem relay_forwards_datagram:
  fixes st :: "('sid, 'q, 'c, 'k, 'st) Turn" and sid :: 'sid
  assumes "turn_system E msgs C sqes cap U S slots" and "memory_inv E (view_of msgs sqes U S) st"
    and "libc (e_libc E)" and "\<not> e_more E 0"
    and "S (l_ring (t_loop st)) = recv_entry (e_fd E) i # es" and "0 < slots (l_ring (t_loop st))"
    and "t_cq st = []" and "sqes (t_channel st) = []" and "0 < cap"
    and "endpoint_to_shard (l_router (t_loop st)) (plain_addr a) = Some j"
    and "msgs (senders (l_router (t_loop st)) ! j) = []"
    and "\<And>m. snd (q_enqueue (e_queue E) m (senders (l_router (t_loop st)) ! j))"
    and "lookup_peer (fst (t_shards st ! j)) (plain_addr a) = Some d"
    and "length ds \<le> BUFFER_SIZE"
  shows "\<exists>st' s. turn_run E C oc (delivery_round (length (t_inflight st)) j sid a ds) st = Inr st'
    \<and> S (l_ring (t_loop st')) = es @ U (l_ring (t_loop st)) @ [send_entry (e_fd E) i]
    \<and> live_slots (l_pool (t_loop st')) i = Some s
    \<and> extract_src_addr (e_libc E) (e_le E) (slot_addr s) = plain_addr d
    \<and> datagram (l_pool (t_loop st')) i = Some (ds @ drop (length ds) (buffer (l_pool (t_loop st)) i))"
  by (rule turn_system.delivery [OF assms])

text \<open>A session registered, and the shard's turn that takes it in.\<close>

abbreviation example_registration :: "nat turn_event list" where
  "example_registration \<equiv> [LoopControl (AddSession example_session), ShardTurn 0 0]"

abbreviation example_router :: "MessageType list ShardRouter" where
  "example_router \<equiv>
     \<lparr>senders = [[], []], endpoint_to_shard = [example_host \<mapsto> 0, example_client \<mapsto> 0], next_shard = 1\<rparr>"

lemma upt_1024: "[0..<1024] = [0..<1023] @ [1023 :: nat]"
  using upt_Suc_append [OF zero_le, of 1023] by (simp only: Suc_numeral add_num_simps)

theorem relay_forwards_datagram_witness:
  "\<exists>loop st st' s. loop_start example_env BufferPool_default ([], [], 2048) (ShardRouter_new [[], []]) = Inr loop
    \<and> turn_run example_env (list_queue 2048) True example_registration (Turn_new loop []) = Inr st
    \<and> turn_run example_env (list_queue 2048) True (delivery_round 0 0 0 example_host [1, 2, 3]) st = Inr st'
    \<and> live_slots (l_pool (t_loop st')) 1023 = Some s
    \<and> extract_src_addr linux True (slot_addr s) = example_client
    \<and> datagram (l_pool (t_loop st')) 1023 = Some ([1, 2, 3] @ drop 3 (buffer (l_pool (t_loop st)) 1023))"
proof -
  have start: "can_start example_env fst (\<lambda>k. fst (snd k)) (\<lambda>k. snd (snd k)) ([], [], 2048)"
    by (simp add: can_start_def example_env_def list_ring_ops_def POOL_SIZE_def)
  from list_turn.start_memory [OF start, of "[[], []]" "[]", where ?'sid = nat] obtain loop
    where l: "loop_start example_env BufferPool_default ([], [], 2048) (ShardRouter_new [[], []]) = Inr loop"
      "l_router loop = ShardRouter_new [[], []]" "1024 \<le> snd (snd (l_ring loop))"
      "fst (snd (l_ring loop)) = map (recv_entry 7) seed_list"
      and inv: "memory_inv example_env example_view (Turn_new loop [] :: (nat, _, _, _, _) Turn)"
    by (auto simp: POOL_SIZE_def example_env_def)
  obtain es where seed: "map (recv_entry 7) seed_list = recv_entry 7 1023 # es"
    by (rule that [of "map (recv_entry 7) (rev (map of_nat [0..<1023]))"])
      (simp only: POOL_SIZE_def upt_1024 map_append rev_append, simp del: upt_rec_numeral)
  let ?st = "(Turn_new loop [] :: (nat, _, _, _, _) Turn)\<lparr>
    t_loop := loop\<lparr>l_router := example_router\<rparr>,
    t_shards := [(add_session 0 example_session (Shard_new 0), 0), (Shard_new 1, 0)]\<rparr>"
  have r: "turn_run example_env (list_queue 2048) True example_registration (Turn_new loop []) = Inr ?st"
    by (simp add: Turn_new_def l(2) ShardRouter_new_def take_next_shard_def enqueue_at_def Let_def example_env_def
        list_queue_def shard_turn_def)
  from list_turn.memory_run [OF inv r] have mi: "memory_inv example_env example_view ?st" .
  have e: "libc (e_libc example_env)" "\<not> e_more example_env 0" "e_fd example_env = 7"
    "e_libc example_env = linux" "e_le example_env = True"
    using linux_libc by (simp_all add: example_env_def)
  have d: "lookup_peer (fst (t_shards ?st ! 0)) (plain_addr example_host) = Some example_client"
    by (simp add: lookup_peer_def add_session_def route_to_def)
  have q: "snd (q_enqueue (e_queue example_env) m (senders (l_router (t_loop ?st)) ! 0))" for m
    by (simp add: example_env_def list_queue_def)
  have s: "fst (snd (l_ring (t_loop ?st))) = recv_entry (e_fd example_env) 1023 # es"
    unfolding e(3) seed [symmetric] using l(4) by simp
  have "length [1, 2, 3 :: u8] \<le> BUFFER_SIZE" by (simp add: BUFFER_SIZE_def)
  from relay_forwards_datagram [OF list_turn_system mi e(1,2) s _ _ _ _ _ _ q d this, where oc = True and sid = 0] l(3)
  obtain st' s where "turn_run example_env (list_queue 2048) True (delivery_round 0 0 0 example_host [1, 2, 3]) ?st = Inr st'"
    "live_slots (l_pool (t_loop st')) 1023 = Some s" "extract_src_addr linux True (slot_addr s) = example_client"
    "datagram (l_pool (t_loop st')) 1023 = Some ([1, 2, 3] @ drop 3 (buffer (l_pool (t_loop ?st)) 1023))"
    by (auto simp: e Turn_new_def numeral_3_eq_3)
  with l(1) r show ?thesis by (intro exI [of _ loop] exI [of _ ?st] exI [of _ st'] exI [of _ s]) (simp del: turn_run.simps)
qed

end
