(* ===== verification/Deployment.thy ===== *)
theory Deployment
  imports TurnBytes
begin

text \<open>
  The two programs that are run against the relay: the controller (\<open>controller/src/main.rs\<close>),
  which registers the session of two fixed addresses, and the test client
  (\<open>turn_server/src/bin/test_client.rs\<close>), whose two sockets with these addresses send each other
  payloads through the relay.
\<close>

section \<open>The controller\<close>

definition controller_request :: CreateSessionRequest where
  "controller_request = \<lparr>req_host_addr = ''192.168.1.42:9001'', req_peer_addr = ''192.168.1.42:9002''\<rparr>"

text \<open>\<open>connect\<close> may fail, the call may be answered by an error; both end \<open>main\<close> with it.\<close>

datatype controller_end = Exit0 | ConnectFailed | CallFailed Status

definition controller_main ::
  "('c, MessageType) queue_ops \<Rightarrow> bool \<Rightarrow> 'c option \<Rightarrow> ('c option \<times> controller_end) option"
where
  "controller_main C connected control_tx =
     (if \<not> connected then Some (control_tx, ConnectFailed)
      else case create_session C controller_request control_tx of
             Waiting \<Rightarrow> None
           | Returned tx (Inl status) \<Rightarrow> Some (tx, CallFailed status)
           | Returned tx (Inr _) \<Rightarrow> Some (tx, Exit0))"

definition test_host :: sockaddr where "test_host = V4 0xC0A8012A 9001"
definition test_peer :: sockaddr where "test_peer = V4 0xC0A8012A 9002"

definition test_session :: Session where
  "test_session = \<lparr>host_addr = test_host, peer_addr = test_peer\<rparr>"

lemma controller_addresses:
  "parse_sockaddr ''192.168.1.42:9001'' = Some test_host"
  "parse_sockaddr ''192.168.1.42:9002'' = Some test_peer"
proof -
  note n = show_number_def digits.simps digit_char_def char_of_def bit_Suc_0_iff
  have "show_number 10 192 = ''192''" "show_number 10 168 = ''168''" "show_number 10 1 = ''1''"
    "show_number 10 42 = ''42''" "show_number 10 9001 = ''9001''" "show_number 10 9002 = ''9002''"
    by (simp_all add: n)
  moreover have "octets4 0xC0A8012A = [192, 168, 1, 42]" by (simp add: octets4_def be32_def)
  ultimately have "show_sockaddr test_host = ''192.168.1.42:9001''" "show_sockaddr test_peer = ''192.168.1.42:9002''"
    by (simp_all add: test_host_def test_peer_def show_ipv4_def)
  then show "parse_sockaddr ''192.168.1.42:9001'' = Some test_host"
    "parse_sockaddr ''192.168.1.42:9002'' = Some test_peer"
    using parse_show_sockaddr [of test_host] parse_show_sockaddr [of test_peer]
    by (simp_all add: test_host_def test_peer_def)
qed

section \<open>The test client\<close>

definition MAX_PAYLOAD :: nat where "MAX_PAYLOAD = 1000"

text \<open>The \<open>i\<close>-th payload of a sending thread, and the counter behind it.\<close>

definition payload_len :: "u64 \<Rightarrow> nat" where
  "payload_len i = 1 + unat (i mod (of_nat MAX_PAYLOAD - 1))"

definition test_payload :: "u64 \<Rightarrow> u8 list" where
  "test_payload i = replicate (payload_len i) (ucast (i mod 256))"

fun sending_thread :: "nat \<Rightarrow> u64 \<Rightarrow> u8 list list" where
  "sending_thread 0 i = []"
| "sending_thread (Suc n) i = test_payload i # sending_thread n (i + 1)"

text \<open>What \<open>recv_from\<close> gives for a datagram longer than the buffer: its front.\<close>

definition test_receive :: "u8 list \<Rightarrow> u8 list" where
  "test_receive d = take MAX_PAYLOAD d"

lemma payload_fits: "1 \<le> length (test_payload i) \<and> length (test_payload i) < MAX_PAYLOAD"
proof -
  have "unat (i mod 999) < 999" by (simp add: unat_mod)
  then show ?thesis by (simp add: test_payload_def payload_len_def MAX_PAYLOAD_def)
qed

text \<open>Every payload sent fits the client's buffer and the relay's.\<close>

lemma sending_thread_fits: "d \<in> set (sending_thread n i) \<Longrightarrow> 1 \<le> length d \<and> length d < MAX_PAYLOAD \<and> length d \<le> BUFFER_SIZE"
proof (induction n arbitrary: i)
  case (Suc n)
  then consider "d = test_payload i" | "d \<in> set (sending_thread n (i + 1))" by auto
  then show ?case
    using Suc.IH [of "i + 1"] payload_fits [of i] by cases (auto simp: MAX_PAYLOAD_def BUFFER_SIZE_def)
qed simp

section \<open>Registration\<close>

text \<open>The first session is taken in by shard 0; memory and rings are left alone.\<close>

context turn_system
begin

lemma registration:
  fixes st :: "('sid, 'q, 'c, 'k, 'st) Turn"
  assumes r: "l_router (t_loop st) = ShardRouter_new qs" and qs: "qs \<noteq> []" "msgs (qs ! 0) = []"
    and accept: "snd (q_enqueue (e_queue E) (AddSession s) (qs ! 0))"
    and sh: "length (t_shards st) = length qs" "t_shards st ! 0 = (Shard_new 0, n)"
  shows "\<exists>st'. turn_run E C oc [LoopControl (AddSession s), ShardTurn 0 sid] st = Inr st'
    \<and> l_pool (t_loop st') = l_pool (t_loop st) \<and> l_ring (t_loop st') = l_ring (t_loop st)
    \<and> t_cq st' = t_cq st \<and> t_inflight st' = t_inflight st \<and> t_channel st' = t_channel st
    \<and> endpoint_to_shard (l_router (t_loop st')) = [host_addr s \<mapsto> 0, peer_addr s \<mapsto> 0]
    \<and> msgs (senders (l_router (t_loop st')) ! 0) = []
    \<and> lookup_peer (fst (t_shards st' ! 0)) = connect s Map.empty"
proof -
  let ?r = "ShardRouter_new qs"
  define q1 where "q1 = fst (q_enqueue (e_queue E) (AddSession s) (qs ! 0))"
  have "msgs q1 = [AddSession s]"
    using rx.enqueue_contents [of "AddSession s" "qs ! 0"] accept qs(2) by (simp add: q1_def)
  from rx.dequeue_cons [OF this] obtain q2 where q2: "q_dequeue (e_queue E) q1 = (Some (AddSession s), q2)" "msgs q2 = []"
    by blast
  have c: "control_message (e_queue E) (AddSession s) ?r = Inr (?r\<lparr>senders := qs[0 := q1],
      endpoint_to_shard := [host_addr s \<mapsto> 0, peer_addr s \<mapsto> 0], next_shard := 1 mod length qs\<rparr>)"
    (is "_ = Inr ?r1")
    using control_add_session [OF router_inv_new [OF qs(1)], of "e_queue E" s]
    by (simp add: ShardRouter_new_def q1_def)
  have len: "0 < length qs" using qs(1) by simp
  have t: "shard_turn (e_queue E) C oc sid (Shard_new 0, q1, t_channel st, n)
      = Inr ((add_session sid s (Shard_new 0), q2, t_channel st, 0), Handled)"
    by (simp add: shard_turn_def q2)
  let ?st' = "st\<lparr>t_loop := (t_loop st)\<lparr>l_router := ?r1\<lparr>senders := qs[0 := q2]\<rparr>\<rparr>,
      t_shards := (t_shards st)[0 := (add_session sid s (Shard_new 0), 0)]\<rparr>"
  have "turn_run E C oc [LoopControl (AddSession s), ShardTurn 0 sid] st = Inr ?st'"
    using len sh t by (simp add: r c Let_def del: control_message.simps)
  moreover have "lookup_peer (add_session sid s (Shard_new 0)) = connect s Map.empty"
    by (simp add: lookup_peer_add Shard_new_def [of 0, THEN arg_cong [of _ _ session_table]])
  ultimately show ?thesis using q2(2) len sh by (intro exI [of _ ?st']) simp
qed

end

lemma controller_registers:
  assumes "bounded_fifo D ctrl m" and "length (ctrl tx) < m"
  shows "\<exists>tx'. controller_main D True (Some tx) = Some (Some tx', Exit0)
    \<and> ctrl tx' = ctrl tx @ [AddSession test_session]"
proof -
  have acc: "snd (q_enqueue D (AddSession test_session) tx)"
    using bounded_fifo.accepts [OF assms(1), of "AddSession test_session" tx] assms(2) by simp
  then obtain tx' where q: "q_enqueue D (AddSession test_session) tx = (tx', True)"
    by (cases "q_enqueue D (AddSession test_session) tx") simp
  moreover from q have "ctrl tx' = ctrl tx @ [AddSession test_session]"
    using fifo.enqueue_contents [OF bounded_fifo.axioms(1) [OF assms(1)], of "AddSession test_session" tx] by simp
  ultimately show ?thesis
    by (simp add: controller_main_def create_session_def controller_request_def parse_argument_def
        controller_addresses test_session_def [symmetric])
qed

section \<open>Properties of the deployment\<close>



end
