(* ===== verification/TestClient.thy ===== *)
theory TestClient
  imports Deployment
begin

text \<open>
  The test client (\<open>turn_server/src/bin/test_client.rs\<close>) as a whole: the peer's sending thread, the
  host's first receive, the host's sending thread and the display loop, interleaved in any order at
  the atomic operations on the two counters they share. What the display makes of the counts (a
  division in floating point, and the print) is left out.
\<close>

section \<open>The program\<close>

datatype test_end = HostEnd | PeerEnd

text \<open>A sending thread: its counter \<open>i\<close>, whether it is between \<open>send_to\<close> and \<open>fetch_add\<close>, and,
  as a history, the payloads handed to \<open>send_to\<close> with its success.\<close>

record SendingThread =
  st_i :: u64
  st_counting :: bool
  st_sent :: "(u8 list \<times> bool) list"

definition SendingThread_new :: SendingThread where
  "SendingThread_new = \<lparr>st_i = 0, st_counting = False, st_sent = []\<rparr>"

datatype test_phase =
    AwaitsFirst   \<comment> \<open>\<open>host.recv_from\<close>\<close>
  | Streams
  | TestEnds      \<comment> \<open>\<open>main\<close> has returned, and with it the threads are gone\<close>

text \<open>The display has, between its two \<open>swap\<close>s, the host's count and the time. \<open>tc_shown\<close> are
  the counts and the nanoseconds each print is made from.\<close>

record TestClient =
  tc_phase :: test_phase
  tc_thread :: "test_end \<Rightarrow> SendingThread"
  tc_count :: "test_end \<Rightarrow> u64"
  tc_started :: nat
  tc_last_print :: nat
  tc_swapped :: "(u64 \<times> nat) option"
  tc_shown :: "(u64 \<times> u64 \<times> nat) list"

definition TestClient_new :: TestClient where
  "TestClient_new =
     \<lparr>tc_phase = AwaitsFirst, tc_thread = (\<lambda>_. SendingThread_new), tc_count = (\<lambda>_. 0), tc_started = 0,
      tc_last_print = 0, tc_swapped = None, tc_shown = []\<rparr>"

definition SAMPLE_DURATION :: nat where "SAMPLE_DURATION = 1000000000"

definition thread_send :: "bool \<Rightarrow> SendingThread \<Rightarrow> SendingThread" where
  "thread_send ok t = t\<lparr>st_sent := st_sent t @ [(test_payload (st_i t), ok)], st_counting := True\<rparr>"

definition thread_count :: "SendingThread \<Rightarrow> SendingThread" where
  "thread_count t = t\<lparr>st_i := st_i t + 1, st_counting := False\<rparr>"

datatype test_event =
    ClientSends test_end bool
  | ClientCounts test_end
  | HostReceives "(u8 list \<times> sockaddr) option" nat   \<comment> \<open>an error, as the timeout is one, or a datagram\<close>
  | DisplayWakes nat
  | DisplayPrints

text \<open>The peer's thread runs from the start, the host's and the display behind the first receive.\<close>

definition thread_runs :: "test_end \<Rightarrow> TestClient \<Rightarrow> bool" where
  "thread_runs e st \<longleftrightarrow> tc_phase st = Streams \<or> e = PeerEnd \<and> tc_phase st = AwaitsFirst"

fun client_step :: "test_event \<Rightarrow> TestClient \<Rightarrow> TestClient" where
  "client_step (ClientSends e ok) st =
     (if thread_runs e st \<and> \<not> st_counting (tc_thread st e)
      then st\<lparr>tc_thread := (tc_thread st)(e := thread_send ok (tc_thread st e))\<rparr> else st)"
| "client_step (ClientCounts e) st =
     (if thread_runs e st \<and> st_counting (tc_thread st e)
      then st\<lparr>tc_thread := (tc_thread st)(e := thread_count (tc_thread st e)),
              tc_count := (tc_count st)(e := tc_count st e + 1)\<rparr>
      else st)"
| "client_step (HostReceives got now) st =
     (if tc_phase st \<noteq> AwaitsFirst then st
      else case got of
             None \<Rightarrow> st\<lparr>tc_phase := TestEnds\<rparr>
           | Some _ \<Rightarrow> st\<lparr>tc_phase := Streams, tc_started := now, tc_last_print := now\<rparr>)"
| "client_step (DisplayWakes now) st =
     (if tc_phase st = Streams \<and> tc_swapped st = None \<and> SAMPLE_DURATION \<le> now - tc_last_print st
      then st\<lparr>tc_swapped := Some (tc_count st HostEnd, now), tc_count := (tc_count st)(HostEnd := 0)\<rparr>
      else st)"
| "client_step DisplayPrints st =
     (case tc_swapped st of
        None \<Rightarrow> st
      | Some (h, now) \<Rightarrow>
          st\<lparr>tc_shown := tc_shown st @ [(h, tc_count st PeerEnd, now - tc_last_print st)],
             tc_count := (tc_count st)(PeerEnd := 0), tc_swapped := None, tc_last_print := now\<rparr>)"

fun client_run :: "test_event list \<Rightarrow> TestClient \<Rightarrow> TestClient" where
  "client_run [] st = st"
| "client_run (ev # evs) st = client_run evs (client_step ev st)"

section \<open>What the display shows\<close>

lemma sending_thread_snoc: "sending_thread (Suc n) i = sending_thread n i @ [test_payload (i + of_nat n)]"
proof (induction n arbitrary: i)
  case (Suc n)
  have "sending_thread (Suc (Suc n)) i = test_payload i # sending_thread (Suc n) (i + 1)"
    by (simp only: sending_thread.simps)
  also have "\<dots> = sending_thread (Suc n) i @ [test_payload (i + 1 + of_nat n)]"
    unfolding Suc.IH [of "i + 1"] by simp
  finally show ?case by (simp add: add.assoc)
qed simp

text \<open>What has been counted of an end: shown, swapped out, or still in the counter.\<close>

fun shown_count :: "test_end \<Rightarrow> u64 \<times> u64 \<times> nat \<Rightarrow> u64" where
  "shown_count HostEnd (h, p, t) = h"
| "shown_count PeerEnd (h, p, t) = p"

fun swapped_count :: "test_end \<Rightarrow> (u64 \<times> nat) option \<Rightarrow> u64" where
  "swapped_count HostEnd (Some (h, t)) = h"
| "swapped_count _ _ = 0"

definition counted :: "test_end \<Rightarrow> TestClient \<Rightarrow> u64" where
  "counted e st = sum_list (map (shown_count e) (tc_shown st)) + swapped_count e (tc_swapped st) + tc_count st e"

abbreviation shown_time :: "u64 \<times> u64 \<times> nat \<Rightarrow> nat" where
  "shown_time s \<equiv> snd (snd s)"

definition client_inv :: "TestClient \<Rightarrow> bool" where
  "client_inv st \<longleftrightarrow>
     (\<forall>e. map fst (st_sent (tc_thread st e)) = sending_thread (length (st_sent (tc_thread st e))) 0
        \<and> of_nat (length (st_sent (tc_thread st e)))
          = st_i (tc_thread st e) + (if st_counting (tc_thread st e) then 1 else 0)
        \<and> st_i (tc_thread st e) = counted e st)
     \<and> (\<forall>s\<in>set (tc_shown st). SAMPLE_DURATION \<le> shown_time s)
     \<and> tc_started st + sum_list (map shown_time (tc_shown st)) = tc_last_print st
     \<and> (tc_phase st = AwaitsFirst \<longrightarrow> tc_shown st = [] \<and> tc_swapped st = None)
     \<and> (\<forall>h now. tc_swapped st = Some (h, now) \<longrightarrow> SAMPLE_DURATION \<le> now - tc_last_print st)"

lemma counted_simps [simp]:
  "counted e (st\<lparr>tc_thread := t\<rparr>) = counted e st" "counted e (st\<lparr>tc_phase := f\<rparr>) = counted e st"
  "counted e (st\<lparr>tc_started := now\<rparr>) = counted e st" "counted e (st\<lparr>tc_last_print := now\<rparr>) = counted e st"
  by (simp_all add: counted_def)

lemma counted_swaps:
  "tc_swapped st = None \<Longrightarrow>
   counted e (st\<lparr>tc_swapped := Some (tc_count st HostEnd, now), tc_count := (tc_count st)(HostEnd := 0)\<rparr>) = counted e st"
  "tc_swapped st = Some (h, now) \<Longrightarrow>
   counted e (st\<lparr>tc_shown := tc_shown st @ [(h, tc_count st PeerEnd, t)],
     tc_count := (tc_count st)(PeerEnd := 0), tc_swapped := None\<rparr>) = counted e st"
  by (cases e; simp add: counted_def)+

lemma client_inv_step:
  assumes "client_inv st"
  shows "client_inv (client_step ev st)"
proof (cases ev)
  case (ClientSends e ok)
  show ?thesis
  proof (cases "thread_runs e st \<and> \<not> st_counting (tc_thread st e)")
    case True
    with assms have i: "of_nat (length (st_sent (tc_thread st e))) = st_i (tc_thread st e)"
      unfolding client_inv_def by simp
    have "map fst (st_sent (thread_send ok (tc_thread st e)))
        = sending_thread (length (st_sent (thread_send ok (tc_thread st e)))) 0"
      using assms i sending_thread_snoc [of "length (st_sent (tc_thread st e))" 0]
      by (simp add: thread_send_def client_inv_def del: sending_thread.simps)
    with assms i True ClientSends show ?thesis
      by (simp add: client_inv_def del: sending_thread.simps) (simp add: thread_send_def add.commute)
  qed (use assms ClientSends in auto)
next
  case (ClientCounts e)
  have "counted e' (st\<lparr>tc_thread := t, tc_count := (tc_count st)(e := tc_count st e + 1)\<rparr>)
      = counted e' st + (if e' = e then 1 else 0)" for e' t
    by (simp add: counted_def)
  with assms ClientCounts show ?thesis
    by (auto simp: client_inv_def thread_count_def)
next
  case (HostReceives got now)
  with assms show ?thesis by (cases got) (auto simp: client_inv_def)
next
  case (DisplayWakes now)
  with assms show ?thesis by (auto simp: client_inv_def counted_swaps)
next
  case DisplayPrints
  show ?thesis
  proof (cases "tc_swapped st")
    case (Some hn)
    obtain h now where hn: "hn = (h, now)" by (cases hn)
    with assms Some have late: "SAMPLE_DURATION \<le> now - tc_last_print st" by (simp add: client_inv_def)
    then have "tc_last_print st \<le> now" by (simp add: SAMPLE_DURATION_def)
    with assms Some hn late DisplayPrints show ?thesis
      by (auto simp: client_inv_def counted_swaps)
  qed (use assms DisplayPrints in simp)
qed

lemma client_inv_run: "client_inv st \<Longrightarrow> client_inv (client_run evs st)"
  by (induction evs arbitrary: st) (simp_all add: client_inv_step)

lemma client_inv_new: "client_inv TestClient_new"
proof -
  have "swapped_count e None = 0" for e by (cases e) simp_all
  then show ?thesis by (simp add: client_inv_def TestClient_new_def SendingThread_new_def counted_def)
qed

section \<open>Properties of the test client\<close>

text \<open>Property C38: under any interleaving of its threads the test client counts every datagram it hands to
  the socket exactly once (modulo \<open>2 ^ 64\<close>), those whose sending fails included: of each end the counts
  shown so far, the one just taken by the display and the counter add up to the number of its
  payloads, less the one being counted, the payloads being those of the sending loop in order; and the
  times the display divides by are at least a second each and add up to the time since it started.\<close>

theorem client_counts_everything:
  "let st = client_run evs TestClient_new; t = tc_thread st e; n = length (st_sent t) in
     map fst (st_sent t) = sending_thread n 0
     \<and> of_nat n = sum_list (map (shown_count e) (tc_shown st)) + swapped_count e (tc_swapped st)
         + tc_count st e + (if st_counting t then 1 else 0)
     \<and> (\<forall>s\<in>set (tc_shown st). 1000000000 \<le> shown_time s)
     \<and> tc_started st + sum_list (map shown_time (tc_shown st)) = tc_last_print st"
proof -
  have "client_inv (client_run evs TestClient_new)" by (rule client_inv_run [OF client_inv_new])
  then show ?thesis by (simp add: client_inv_def counted_def SAMPLE_DURATION_def Let_def)
qed

theorem client_counts_everything_witness:
  "map (shown_count PeerEnd) (tc_shown (client_run
      [ClientSends PeerEnd True, HostReceives (Some ([0], test_peer)) 5, ClientCounts PeerEnd, DisplayWakes 7,
       ClientSends PeerEnd False, ClientSends HostEnd True, DisplayWakes 2000000005, ClientCounts PeerEnd, DisplayPrints,
       ClientCounts HostEnd, ClientSends PeerEnd True] TestClient_new)) = [2]"
proof -
  define evs where "evs = [ClientSends PeerEnd True, HostReceives (Some ([0], test_peer)) 5, ClientCounts PeerEnd, DisplayWakes 7,
       ClientSends PeerEnd False, ClientSends HostEnd True, DisplayWakes 2000000005, ClientCounts PeerEnd, DisplayPrints,
       ClientCounts HostEnd, ClientSends PeerEnd True]"
  define st where "st = client_run evs TestClient_new"
  have "tc_swapped st = None" "length (tc_shown st) = 1" "tc_count st PeerEnd = 0"
    "st_counting (tc_thread st PeerEnd)" "length (st_sent (tc_thread st PeerEnd)) = 3"
    by (simp_all add: st_def evs_def TestClient_new_def SendingThread_new_def thread_runs_def thread_send_def
        thread_count_def SAMPLE_DURATION_def)
  with client_counts_everything [of evs PeerEnd, folded st_def]
  show ?thesis unfolding evs_def [symmetric] st_def [symmetric] 
    by (cases "tc_shown st") (auto simp: Let_def)
qed

end
