(* ===== verification/Rendezvous.thy ===== *)
theory Rendezvous
  imports AddrText
begin

text \<open>
  The rendezvous server (\<open>rendezvous_stun_server/src\<close>): the UDP task reads datagrams into one
  buffer, creates lobbies and asks the manager task about joins; the manager keeps the table of
  lobbies; a keep-alive task per lobby pings its host until the lobby is joined.
\<close>

section \<open>Codes\<close>

text \<open>Codes are UUIDs of the \<open>uuid\<close> crate: the conversions used are a parameter, their documented
  behaviour the locale; each \<open>new_v4\<close> is given with the datagram it answers.\<close>

record 'code uuid_ops =
  from_slice :: "u8 list \<Rightarrow> 'code option"
  as_bytes :: "'code \<Rightarrow> u8 list"

locale uuid =
  fixes U :: "'code uuid_ops"
  assumes from_slice_length: "from_slice U bs \<noteq> None \<longleftrightarrow> length bs = 16"
    and from_slice_bytes: "from_slice U (as_bytes U c) = Some c"
begin

lemma length_bytes: "length (as_bytes U c) = 16"
  using from_slice_length [of "as_bytes U c"] from_slice_bytes [of c] by simp

lemma from_slice_16: "length bs = 16 \<Longrightarrow> \<exists>c. from_slice U bs = Some c"
  using from_slice_length [of bs] by auto

end

text \<open>UUIDs as four words, most significant byte first.\<close>

definition bytes_uuid :: "(u32 \<times> u32 \<times> u32 \<times> u32) uuid_ops" where
  "bytes_uuid =
     \<lparr>from_slice = (\<lambda>bs.
        if length bs = 16
        then Some (of_be32 (bs ! 0) (bs ! 1) (bs ! 2) (bs ! 3), of_be32 (bs ! 4) (bs ! 5) (bs ! 6) (bs ! 7),
                   of_be32 (bs ! 8) (bs ! 9) (bs ! 10) (bs ! 11), of_be32 (bs ! 12) (bs ! 13) (bs ! 14) (bs ! 15))
        else None),
      as_bytes = (\<lambda>(a, b, c, d). be32 a @ be32 b @ be32 c @ be32 d)\<rparr>"

interpretation bytes_uuid: uuid bytes_uuid
  by unfold_locales (auto simp: bytes_uuid_def be32_def codec_simps)

lemmas bytes_uuid_axioms = bytes_uuid.uuid_axioms

section \<open>The manager\<close>

text \<open>The two oneshot channels of a lobby are numbered.\<close>

type_synonym chan = nat

record LobbySession =
  lobby_host :: sockaddr
  shutdown_channel :: "chan option"
  client_addr :: "sockaddr list option"

datatype 'code LobbyMessage =
    CreateLobby 'code sockaddr chan
  | JoinLobby 'code sockaddr

text \<open>What the handling of a message sends: the answer of a join, none when the sender is dropped
  with the message, and the shutdown it starts, five seconds from then.\<close>

record join_outcome =
  answer :: "sockaddr option"
  shutdown_after :: "chan option"

fun handle_lobby ::
  "'code LobbyMessage \<Rightarrow> ('code \<rightharpoonup> LobbySession) \<Rightarrow> ('code \<rightharpoonup> LobbySession) \<times> join_outcome"
where
  "handle_lobby (CreateLobby code addr tx) session =
     (session(code \<mapsto> \<lparr>lobby_host = addr, shutdown_channel = Some tx, client_addr = None\<rparr>),
      \<lparr>answer = None, shutdown_after = None\<rparr>)"
| "handle_lobby (JoinLobby code addr) session =
     (case session code of
        None \<Rightarrow> (session, \<lparr>answer = None, shutdown_after = None\<rparr>)
      | Some s \<Rightarrow>
          (session(code \<mapsto> s\<lparr>client_addr := Some [addr], shutdown_channel := None\<rparr>),
           \<lparr>answer = Some (lobby_host s), shutdown_after = shutdown_channel s\<rparr>))"

section \<open>The server\<close>

definition LOBBY_CREATE :: u8 where "LOBBY_CREATE = 0"
definition LOBBY_JOIN :: u8 where "LOBBY_JOIN = 1"

text \<open>
  The buffer of the UDP task, the mailbox between the two tasks, the table, the keep-alive tasks
  that run (by the channel that ends them), the shutdowns that wait, the next channel number.
\<close>

record 'code Server =
  buf :: "u8 list"
  mailbox :: "'code LobbyMessage list"
  sessions :: "'code \<rightharpoonup> LobbySession"
  alive :: "chan \<rightharpoonup> sockaddr"
  timers :: "chan set"
  next_chan :: chan

definition Server_new :: "'code Server" where
  "Server_new =
     \<lparr>buf = replicate 65535 0, mailbox = [], sessions = Map.empty, alive = Map.empty,
      timers = {}, next_chan = 0\<rparr>"

text \<open>\<open>recv_from\<close> overwrites the front of the buffer and leaves the rest as it was.\<close>

definition recv_into :: "u8 list \<Rightarrow> u8 list \<Rightarrow> u8 list" where
  "recv_into old bytes = take (length old) bytes @ drop (length bytes) old"

text \<open>The manager takes one message. A lobby stored over another drops the old shutdown sender,
  which ends the old keep-alive task.\<close>

definition manager_step :: "'code Server \<Rightarrow> 'code Server \<times> sockaddr option" where
  "manager_step st =
     (case mailbox st of
        [] \<Rightarrow> (st, None)
      | m # ms \<Rightarrow>
          (case handle_lobby m (sessions st) of
             (ss, out) \<Rightarrow>
               (st\<lparr>mailbox := ms, sessions := ss,
                   alive := (case m of
                       CreateLobby code _ _ \<Rightarrow>
                         (case Option.bind (sessions st code) shutdown_channel of
                            None \<Rightarrow> alive st
                          | Some tx \<Rightarrow> (alive st)(tx := None))
                     | JoinLobby _ _ \<Rightarrow> alive st),
                   timers := timers st \<union> set_option (shutdown_after out)\<rparr>,
                answer out)))"

text \<open>Awaiting the answer of the last message: the manager works through the mailbox.\<close>

fun manager_run :: "nat \<Rightarrow> 'code Server \<Rightarrow> 'code Server \<times> sockaddr option" where
  "manager_run 0 st = (st, None)"
| "manager_run (Suc n) st =
     (case manager_step st of (st', a) \<Rightarrow> if n = 0 then (st', a) else manager_run n st')"

type_synonym sends = "(u8 list \<times> sockaddr) list"

definition text_bytes :: "string \<Rightarrow> u8 list" where
  "text_bytes s = map of_char s"

text \<open>The task spawned for an answered join.\<close>

definition introduce :: "sockaddr \<Rightarrow> sockaddr \<Rightarrow> sends" where
  "introduce host client =
     replicate 5 ([0], client)
     @ [(text_bytes (show_sockaddr host), client), (text_bytes (show_sockaddr client), host)]"

text \<open>The mailbox is bounded: \<open>send(..).await\<close> on a full one waits until the manager has taken a
  message.\<close>

definition mailbox_capacity :: nat where "mailbox_capacity = 50"

definition make_room :: "'code Server \<Rightarrow> 'code Server" where
  "make_room st = (if length (mailbox st) < mailbox_capacity then st else fst (manager_step st))"

text \<open>\<open>udp_handler\<close> on one datagram; \<open>code\<close> is the id drawn if a lobby is created.\<close>

definition udp_handler ::
  "'code uuid_ops \<Rightarrow> 'code \<Rightarrow> u8 list \<Rightarrow> sockaddr \<Rightarrow> 'code Server \<Rightarrow> 'code Server \<times> sends"
where
  "udp_handler U code bytes addr st0 =
     (let st = st0\<lparr>buf := recv_into (buf st0) bytes\<rparr>
      in if buf st ! 0 = LOBBY_CREATE then
           (let st = make_room st
            in (st\<lparr>mailbox := mailbox st @ [CreateLobby code addr (next_chan st)],
                   alive := (alive st)(next_chan st \<mapsto> addr),
                   next_chan := next_chan st + 1\<rparr>,
                [(as_bytes U code, addr)]))
         else if buf st ! 0 = LOBBY_JOIN then
           (case from_slice U (take 16 (drop 1 (buf st))) of
              None \<Rightarrow> (st, [])
            | Some c \<Rightarrow>
                (let st = make_room st
                 in case manager_run (length (mailbox st) + 1)
                      (st\<lparr>mailbox := mailbox st @ [JoinLobby c addr]\<rparr>) of
                      (st, None) \<Rightarrow> (st, [])
                    | (st, Some host) \<Rightarrow> (st, introduce host addr)))
         else (st, []))"

text \<open>The keep-alive task: a tick of its interval pings the host, the shutdown ends it.\<close>

definition keep_alive_tick :: "chan \<Rightarrow> 'code Server \<Rightarrow> sends" where
  "keep_alive_tick tx st = (case alive st tx of None \<Rightarrow> [] | Some addr \<Rightarrow> [([0], addr)])"

definition shutdown_fires :: "chan \<Rightarrow> 'code Server \<Rightarrow> 'code Server" where
  "shutdown_fires tx st =
     (if tx \<in> timers st then st\<lparr>alive := (alive st)(tx := None), timers := timers st - {tx}\<rparr> else st)"

datatype 'code server_event =
    Datagram 'code "u8 list" sockaddr
  | ManagerTurn
  | KeepAlive chan
  | Shutdown chan

fun server_step :: "'code uuid_ops \<Rightarrow> 'code server_event \<Rightarrow> 'code Server \<Rightarrow> 'code Server \<times> sends" where
  "server_step U (Datagram code bytes addr) st = udp_handler U code bytes addr st"
| "server_step U ManagerTurn st = (fst (manager_step st), [])"
| "server_step U (KeepAlive tx) st = (st, keep_alive_tick tx st)"
| "server_step U (Shutdown tx) st = (shutdown_fires tx st, [])"

fun server_run :: "'code uuid_ops \<Rightarrow> 'code server_event list \<Rightarrow> 'code Server \<Rightarrow> 'code Server \<times> sends" where
  "server_run U [] st = (st, [])"
| "server_run U (ev # evs) st =
     (case server_step U ev st of (st', out) \<Rightarrow>
        case server_run U evs st' of (st'', out') \<Rightarrow> (st'', out @ out'))"

section \<open>The table the server implements\<close>

text \<open>Abstractly the server is a map from codes to hosts, with the buffer the datagrams go
  through; the manager and its mailbox are not seen.\<close>

fun hosts_after :: "('code \<rightharpoonup> sockaddr) \<Rightarrow> 'code LobbyMessage list \<Rightarrow> ('code \<rightharpoonup> sockaddr)" where
  "hosts_after m [] = m"
| "hosts_after m (CreateLobby c a tx # ms) = hosts_after (m(c \<mapsto> a)) ms"
| "hosts_after m (JoinLobby c a # ms) = hosts_after m ms"

definition stored_hosts :: "('code \<rightharpoonup> LobbySession) \<Rightarrow> ('code \<rightharpoonup> sockaddr)" where
  "stored_hosts ss = (\<lambda>c. map_option lobby_host (ss c))"

definition hosts :: "'code Server \<Rightarrow> ('code \<rightharpoonup> sockaddr)" where
  "hosts st = hosts_after (stored_hosts (sessions st)) (mailbox st)"

fun spec_step ::
  "'code uuid_ops \<Rightarrow> 'code server_event \<Rightarrow> u8 list \<times> ('code \<rightharpoonup> sockaddr)
    \<Rightarrow> (u8 list \<times> ('code \<rightharpoonup> sockaddr)) \<times> sends"
where
  "spec_step U (Datagram code bytes addr) (b, m) =
     (let b = recv_into b bytes
      in if b ! 0 = LOBBY_CREATE then ((b, m(code \<mapsto> addr)), [(as_bytes U code, addr)])
         else if b ! 0 = LOBBY_JOIN then
           ((b, m), case m (the (from_slice U (take 16 (drop 1 b)))) of
                      None \<Rightarrow> [] | Some host \<Rightarrow> introduce host addr)
         else ((b, m), []))"
| "spec_step U ev (b, m) = ((b, m), [])"

lemma hosts_after_append [simp]: "hosts_after m (xs @ ys) = hosts_after (hosts_after m xs) ys"
proof (induction xs arbitrary: m)
  case (Cons x xs)
  then show ?case by (cases x) (simp_all only: hosts_after.simps append_Cons)
qed simp

lemma stored_hosts_handle:
  "stored_hosts (fst (handle_lobby msg ss)) = hosts_after (stored_hosts ss) [msg]"
  by (cases msg) (auto simp: stored_hosts_def fun_eq_iff split: option.split)

lemma manager_step_cons:
  assumes "mailbox st = m # ms"
  shows "mailbox (fst (manager_step st)) = ms" "buf (fst (manager_step st)) = buf st"
    "sessions (fst (manager_step st)) = fst (handle_lobby m (sessions st))"
    "snd (manager_step st) = answer (snd (handle_lobby m (sessions st)))"
  using assms by (auto simp: manager_step_def split: prod.split)

lemma manager_step_hosts: "hosts (fst (manager_step st)) = hosts st" "buf (fst (manager_step st)) = buf st"
proof -
  show "hosts (fst (manager_step st)) = hosts st"
  proof (cases "mailbox st")
    case (Cons m ms)
    then show ?thesis
      using hosts_after_append [of "stored_hosts (sessions st)" "[m]" ms]
      by (simp add: hosts_def manager_step_cons [OF Cons] stored_hosts_handle)
  qed (simp add: manager_step_def)
  show "buf (fst (manager_step st)) = buf st"
    by (cases "mailbox st") (simp_all add: manager_step_def split: prod.split)
qed

lemma make_room_hosts [simp]: "hosts (make_room st) = hosts st" "buf (make_room st) = buf st"
  by (simp_all add: make_room_def manager_step_hosts)

lemma hosts_mailbox: "hosts (st\<lparr>mailbox := mailbox st @ ms\<rparr>) = hosts_after (hosts st) ms"
  by (simp add: hosts_def)

lemma hosts_frame [simp]:
  "hosts (st\<lparr>buf := b\<rparr>) = hosts st" "hosts (st\<lparr>alive := al\<rparr>) = hosts st" "hosts (st\<lparr>next_chan := n\<rparr>) = hosts st"
  by (simp_all add: hosts_def)

text \<open>Awaiting a join works off the mailbox and answers with the host in the table.\<close>

lemma manager_run_join:
  assumes "mailbox st = ms @ [JoinLobby c addr]"
  shows "mailbox (fst (manager_run (length ms + 1) st)) = [] \<and> hosts (fst (manager_run (length ms + 1) st)) = hosts st
    \<and> buf (fst (manager_run (length ms + 1) st)) = buf st
    \<and> snd (manager_run (length ms + 1) st) = hosts st c"
  using assms
proof (induction ms arbitrary: st)
  case Nil
  then have m: "mailbox st = [JoinLobby c addr]" by simp
  have "answer (snd (handle_lobby (JoinLobby c addr) (sessions st))) = stored_hosts (sessions st) c"
    by (auto simp: stored_hosts_def split: option.split)
  with m show ?case
    using manager_step_cons [OF m] manager_step_hosts [of st]
    by (auto simp: hosts_def split: prod.split)
next
  case (Cons m ms)
  then have m: "mailbox st = m # (ms @ [JoinLobby c addr])" by simp
  obtain st1 a where s: "manager_step st = (st1, a)" by fastforce
  with manager_step_cons [OF m] manager_step_hosts [of st]
  have "mailbox st1 = ms @ [JoinLobby c addr]" "hosts st1 = hosts st" "buf st1 = buf st" by auto
  with Cons.IH [of st1] s show ?case by simp
qed

lemma length_recv_into [simp]: "length (recv_into b bytes) = length b"
  by (simp add: recv_into_def)

lemma server_run_fst:
  "fst (server_run U (ev # evs) st) = fst (server_run U evs (fst (server_step U ev st)))"
  by (simp add: split_beta)

lemma server_run_append:
  "fst (server_run U (xs @ ys) st) = fst (server_run U ys (fst (server_run U xs st)))"
proof (induction xs arbitrary: st)
  case (Cons x xs)
  then show ?case by (simp only: append_Cons server_run_fst)
qed simp

lemma spec_keeps:
  assumes "length b = 65535"
  shows "length (fst (fst (spec_step U ev (b, m)))) = 65535
    \<and> ((\<forall>bytes addr. ev \<noteq> Datagram c bytes addr) \<longrightarrow> snd (fst (spec_step U ev (b, m))) c = m c)"
proof (cases ev)
  case (Datagram code bytes addr)
  then show ?thesis using assms by (simp add: Let_def)
qed (use assms in simp_all)

context uuid
begin

lemma step_refines:
  assumes "length (buf st) = 65535"
  shows "spec_step U ev (buf st, hosts st) =
    ((buf (fst (server_step U ev st)), hosts (fst (server_step U ev st))),
     case ev of KeepAlive tx \<Rightarrow> [] | _ \<Rightarrow> snd (server_step U ev st))"
proof (cases ev)
  case (Datagram code bytes addr)
  let ?b = "recv_into (buf st) bytes"
  let ?st = "st\<lparr>buf := ?b\<rparr>"
  consider "?b ! 0 = LOBBY_CREATE" | "?b ! 0 = LOBBY_JOIN" "?b ! 0 \<noteq> LOBBY_CREATE"
    | "?b ! 0 \<noteq> LOBBY_CREATE" "?b ! 0 \<noteq> LOBBY_JOIN" by blast
  then show ?thesis
  proof cases
    case 2
    have "length (take 16 (drop 1 ?b)) = 16" using assms by simp
    from from_slice_16 [OF this] obtain c where c: "from_slice U (take 16 (drop 1 ?b)) = Some c" by blast
    let ?room = "make_room ?st"
    let ?stj = "?room\<lparr>mailbox := mailbox ?room @ [JoinLobby c addr]\<rparr>"
    have "mailbox ?stj = mailbox ?room @ [JoinLobby c addr]" by simp
    note j = manager_run_join [OF this]
    have "hosts ?stj = hosts st" by (simp add: hosts_mailbox)
    obtain st1 a where r: "manager_run (length (mailbox ?room) + 1) ?stj = (st1, a)" by fastforce
    with j \<open>hosts ?stj = hosts st\<close> have "hosts st1 = hosts st" "buf st1 = ?b" "a = hosts st c" by simp_all
    with 2 c r Datagram show ?thesis
      by (simp add: udp_handler_def Let_def del: manager_run.simps split: option.split)
  next
    case 1
    let ?room = "make_room ?st"
    have "hosts (?room\<lparr>mailbox := mailbox ?room @ [CreateLobby code addr n], alive := al, next_chan := n'\<rparr>)
        = (hosts st)(code \<mapsto> addr)" for n al n'
      by (simp add: hosts_mailbox)
    with 1 show ?thesis by (simp add: Datagram udp_handler_def Let_def)
  qed (simp_all add: Datagram udp_handler_def Let_def)
next
  case ManagerTurn
  then show ?thesis by (simp add: manager_step_hosts)
qed (simp_all add: shutdown_fires_def hosts_def)

lemma run_hosts:
  assumes "length (buf st) = 65535"
  shows "length (buf (fst (server_run U evs st))) = 65535"
    and "\<forall>bytes addr. Datagram c bytes addr \<notin> set evs \<Longrightarrow> hosts (fst (server_run U evs st)) c = hosts st c"
proof -
  have step: "length (buf (fst (server_step U ev st))) = 65535
      \<and> ((\<forall>bytes addr. ev \<noteq> Datagram c bytes addr) \<longrightarrow> hosts (fst (server_step U ev st)) c = hosts st c)"
    if l: "length (buf st) = 65535" for ev st
  proof -
    from step_refines [OF l, of ev]
    have "fst (spec_step U ev (buf st, hosts st))
        = (buf (fst (server_step U ev st)), hosts (fst (server_step U ev st)))" by (simp only: fst_conv)
    with spec_keeps [OF l, of U ev "hosts st" c] show ?thesis by simp
  qed
  show "length (buf (fst (server_run U evs st))) = 65535"
    using assms
  proof (induction evs arbitrary: st)
    case (Cons ev evs)
    with step [of st ev] show ?case by (simp only: server_run_fst)
  qed simp
  show "hosts (fst (server_run U evs st)) c = hosts st c" if "\<forall>bytes addr. Datagram c bytes addr \<notin> set evs"
    using assms that
  proof (induction evs arbitrary: st)
    case (Cons ev evs)
    then have "\<forall>bytes addr. ev \<noteq> Datagram c bytes addr" "\<forall>bytes addr. Datagram c bytes addr \<notin> set evs" by auto
    with Cons.IH [of "fst (server_step U ev st)"] step [of st ev] Cons.prems(1) show ?case
      by (simp add: server_run_fst del: server_run.simps server_step.simps)
  qed simp
qed

end

section \<open>Keep-alive\<close>

text \<open>The channels: every lobby whose shutdown sender is still there has a running keep-alive
  task, no channel is used twice, waiting shutdowns belong to joined lobbies.\<close>

fun mail_chans :: "'code LobbyMessage list \<Rightarrow> (chan \<times> sockaddr) list" where
  "mail_chans [] = []"
| "mail_chans (CreateLobby c a tx # ms) = (tx, a) # mail_chans ms"
| "mail_chans (JoinLobby c a # ms) = mail_chans ms"

definition open_chans :: "('code \<rightharpoonup> LobbySession) \<Rightarrow> (chan \<times> sockaddr) set" where
  "open_chans ss = {(tx, lobby_host s) |c s tx. ss c = Some s \<and> shutdown_channel s = Some tx}"

definition chan_inv :: "'code Server \<Rightarrow> bool" where
  "chan_inv st \<longleftrightarrow>
     (\<forall>(tx, a)\<in>open_chans (sessions st) \<union> set (mail_chans (mailbox st)).
        tx < next_chan st \<and> tx \<notin> timers st \<and> alive st tx = Some a)
     \<and> (\<forall>tx\<in>timers st. tx < next_chan st)
     \<and> distinct (map fst (mail_chans (mailbox st)))
     \<and> fst ` open_chans (sessions st) \<inter> fst ` set (mail_chans (mailbox st)) = {}
     \<and> (\<forall>c c' s s' tx. sessions st c = Some s \<longrightarrow> sessions st c' = Some s' \<longrightarrow>
          shutdown_channel s = Some tx \<longrightarrow> shutdown_channel s' = Some tx \<longrightarrow> c = c')"


lemma mail_chans_append [simp]: "mail_chans (xs @ ys) = mail_chans xs @ mail_chans ys"
  by (induction xs rule: mail_chans.induct) auto

lemma open_chans_member:
  "(tx, a) \<in> open_chans ss \<longleftrightarrow> (\<exists>c s. ss c = Some s \<and> shutdown_channel s = Some tx \<and> lobby_host s = a)"
  by (auto simp: open_chans_def)

text \<open>The invariant element by element.\<close>

lemma chan_invI:
  assumes "\<And>c s tx. sessions st c = Some s \<Longrightarrow> shutdown_channel s = Some tx \<Longrightarrow>
      tx < next_chan st \<and> tx \<notin> timers st \<and> alive st tx = Some (lobby_host s)
      \<and> tx \<notin> fst ` set (mail_chans (mailbox st))"
    and "\<And>tx a. (tx, a) \<in> set (mail_chans (mailbox st)) \<Longrightarrow>
      tx < next_chan st \<and> tx \<notin> timers st \<and> alive st tx = Some a"
    and "\<And>tx. tx \<in> timers st \<Longrightarrow> tx < next_chan st"
    and "distinct (map fst (mail_chans (mailbox st)))"
    and "\<And>c c' s s' tx. sessions st c = Some s \<Longrightarrow> sessions st c' = Some s' \<Longrightarrow>
      shutdown_channel s = Some tx \<Longrightarrow> shutdown_channel s' = Some tx \<Longrightarrow> c = c'"
  shows "chan_inv st"
  unfolding chan_inv_def
proof (intro conjI)
  show "fst ` open_chans (sessions st) \<inter> fst ` set (mail_chans (mailbox st)) = {}"
    using assms(1) by (force simp: open_chans_def)
qed (use assms in \<open>auto simp: open_chans_def\<close>)

lemma chan_invD:
  assumes "chan_inv st"
  shows "sessions st c = Some s \<Longrightarrow> shutdown_channel s = Some tx \<Longrightarrow>
      tx < next_chan st \<and> tx \<notin> timers st \<and> alive st tx = Some (lobby_host s)
      \<and> tx \<notin> fst ` set (mail_chans (mailbox st))"
    and "(tx, a) \<in> set (mail_chans (mailbox st)) \<Longrightarrow>
      tx < next_chan st \<and> tx \<notin> timers st \<and> alive st tx = Some a"
    and "tx \<in> timers st \<Longrightarrow> tx < next_chan st"
    and "distinct (map fst (mail_chans (mailbox st)))"
    and "sessions st c = Some s \<Longrightarrow> sessions st c' = Some s' \<Longrightarrow>
      shutdown_channel s = Some tx \<Longrightarrow> shutdown_channel s' = Some tx \<Longrightarrow> c = c'"
proof -
  note I = assms [unfolded chan_inv_def]
  note all = I [THEN conjunct1]
  note tim = I [THEN conjunct2, THEN conjunct1]
  note dist = I [THEN conjunct2, THEN conjunct2, THEN conjunct1]
  note disj = I [THEN conjunct2, THEN conjunct2, THEN conjunct2, THEN conjunct1]
  note inj = I [THEN conjunct2, THEN conjunct2, THEN conjunct2, THEN conjunct2]
  show "tx < next_chan st \<and> tx \<notin> timers st \<and> alive st tx = Some (lobby_host s)
      \<and> tx \<notin> fst ` set (mail_chans (mailbox st))"
    if "sessions st c = Some s" "shutdown_channel s = Some tx"
  proof -
    from that have "(tx, lobby_host s) \<in> open_chans (sessions st)" by (auto simp: open_chans_def)
    with all disj show ?thesis by force
  qed
  show "tx < next_chan st \<and> tx \<notin> timers st \<and> alive st tx = Some a"
    if "(tx, a) \<in> set (mail_chans (mailbox st))" using all that by fast
  show "tx < next_chan st" if "tx \<in> timers st" using tim that by fast
  show "distinct (map fst (mail_chans (mailbox st)))" by (rule dist)
  show "c = c'" if "sessions st c = Some s" "sessions st c' = Some s'"
    "shutdown_channel s = Some tx" "shutdown_channel s' = Some tx" using inj that by blast
qed

lemma chan_inv_new: "chan_inv Server_new"
  by (rule chan_invI) (simp_all add: Server_new_def)

lemma manager_step_chan:
  assumes inv: "chan_inv st"
  shows "chan_inv (fst (manager_step st))"
proof (cases "mailbox st")
  case Nil
  with inv show ?thesis by (simp add: manager_step_def)
next
  case (Cons m ms)
  note I = chan_invD [OF inv]
  show ?thesis
  proof (cases m)
    case (JoinLobby c a)
    show ?thesis
    proof (cases "sessions st c")
      case None
      with inv Cons JoinLobby show ?thesis by (simp add: manager_step_def chan_inv_def)
    next
      case (Some s)
      have st': "fst (manager_step st) = st\<lparr>mailbox := ms,
          sessions := (sessions st)(c \<mapsto> s\<lparr>client_addr := Some [a], shutdown_channel := None\<rparr>),
          alive := alive st, timers := timers st \<union> set_option (shutdown_channel s)\<rparr>"
        by (simp add: manager_step_def Cons JoinLobby Some)
      have other: "shutdown_channel s \<noteq> Some tx" if "sessions st c' = Some s'" "shutdown_channel s' = Some tx" "c' \<noteq> c" for c' s' tx
        using I(5) [OF Some that(1)] that by auto
      show ?thesis
        unfolding st'
      proof (rule chan_invI, goal_cases)
        case (1 c' s' tx)
        then have "sessions st c' = Some s'" "c' \<noteq> c" by (auto split: if_splits)
        with 1 show ?case
          using other [of c' s' tx] I(1) [of c' s' tx] by (auto simp: Cons JoinLobby)
      next
        case (2 tx a')
        then have "tx \<in> fst ` set (mail_chans (mailbox st))" by (force simp: Cons JoinLobby)
        then have "shutdown_channel s \<noteq> Some tx" using I(1) [OF Some, of tx] by auto
        with 2 show ?case using I(2) [of tx a'] by (auto simp: Cons JoinLobby)
      next
        case (3 tx)
        then show ?case using I(3) [of tx] I(1) [OF Some, of tx] by auto
      next
        case 4
        then show ?case using I(4) by (simp add: Cons JoinLobby)
      next
        case (5 c1 c2 s1 s2 tx)
        then show ?case using I(5) [of c1 s1 c2 s2 tx] by (auto split: if_splits)
      qed
    qed
  next
    case (CreateLobby c a tx)
    let ?old = "Option.bind (sessions st c) shutdown_channel"
    let ?alive = "case ?old of None \<Rightarrow> alive st | Some tx \<Rightarrow> (alive st)(tx := None)"
    have st': "fst (manager_step st) = st\<lparr>mailbox := ms,
        sessions := (sessions st)(c \<mapsto> \<lparr>lobby_host = a, shutdown_channel = Some tx, client_addr = None\<rparr>),
        alive := ?alive, timers := timers st\<rparr>"
      by (simp add: manager_step_def Cons CreateLobby)
    have new: "tx < next_chan st" "tx \<notin> timers st" "alive st tx = Some a" "tx \<notin> fst ` set (mail_chans ms)"
      using I(2) [of tx a] I(4) by (auto simp: Cons CreateLobby)
    have old: "?alive t = alive st t" if "?old \<noteq> Some t" for t
      using that by (cases ?old) auto
    have old_tx: "?old = Some t \<Longrightarrow> t \<noteq> tx \<and> t \<notin> fst ` set (mail_chans ms)" for t
      using I(1) [of c _ t] by (cases "sessions st c") (auto simp: Cons CreateLobby)
    have "?old \<noteq> Some tx" using old_tx [of tx] by blast
    from old [OF this] new(3) have alive_tx: "?alive tx = Some a" by simp
    have other: "?old \<noteq> Some t \<and> t \<noteq> tx \<and> t \<notin> fst ` set (mail_chans ms)"
      if "sessions st c' = Some s'" "shutdown_channel s' = Some t" "c' \<noteq> c" for c' s' t
      using I(5) [OF _ that(1) _ that(2)] I(1) [OF that(1,2)] that(3)
      by (cases "sessions st c") (auto simp: Cons CreateLobby)
    show ?thesis
      unfolding st'
    proof (rule chan_invI, goal_cases)
      case (1 c' s' t)
      show ?case
      proof (cases "c' = c")
        case True
        with 1 have "t = tx" "lobby_host s' = a" by auto
        with new alive_tx show ?thesis by simp
      next
        case False
        with 1 have "sessions st c' = Some s'" by simp
        with 1 False show ?thesis using other [of c' s' t] old [of t] I(1) [of c' s' t] by auto
      qed
    next
      case (2 t b)
      then have "t \<in> fst ` set (mail_chans ms)" by force
      with 2 show ?case using I(2) [of t b] old [of t] old_tx [of t] by (auto simp: Cons CreateLobby)
    next
      case (3 t)
      then show ?case using I(3) by simp
    next
      case 4
      then show ?case using I(4) by (simp add: Cons CreateLobby)
    next
      case (5 c1 c2 s1 s2 t)
      then show ?case
        using other [of c1 s1 t] other [of c2 s2 t] I(5) [of c1 s1 c2 s2 t] by (auto split: if_splits)
    qed
  qed
qed

lemma make_room_chan: "chan_inv st \<Longrightarrow> chan_inv (make_room st)"
  by (simp add: make_room_def manager_step_chan)

lemma manager_run_chan: "chan_inv st \<Longrightarrow> chan_inv (fst (manager_run n st))"
proof (induction n arbitrary: st)
  case (Suc n)
  obtain st1 a where s: "manager_step st = (st1, a)" by fastforce
  with manager_step_chan [OF Suc.prems] have "chan_inv st1" by simp
  with Suc.IH s show ?case by simp
qed simp

lemma step_chan:
  assumes inv: "chan_inv st"
  shows "chan_inv (fst (server_step U ev st))"
proof (cases ev)
  case (Datagram code bytes addr)
  let ?st = "st\<lparr>buf := recv_into (buf st) bytes\<rparr>"
  have st: "chan_inv ?st" using inv by (simp add: chan_inv_def)
  let ?room = "make_room ?st"
  note room = make_room_chan [OF st]
  note I = chan_invD [OF room]
  have create: "chan_inv (?room\<lparr>mailbox := mailbox ?room @ [CreateLobby code addr (next_chan ?room)],
      alive := (alive ?room)(next_chan ?room \<mapsto> addr), next_chan := next_chan ?room + 1\<rparr>)"
  proof (rule chan_invI, goal_cases)
    case (1 c s tx)
    then show ?case using I(1) [of c s tx] by auto
  next
    case (2 tx a)
    then show ?case using I(2) [of tx a] I(3) [of "next_chan ?room"] by auto
  next
    case (3 tx)
    then show ?case using I(3) [of tx] by simp
  next
    case 4
    have "next_chan ?room \<notin> fst ` set (mail_chans (mailbox ?room))" using I(2) by fastforce
    with I(4) show ?case by simp
  next
    case (5 c c' s s' tx)
    then show ?case using I(5) [of c s c' s' tx] by simp
  qed
  have "chan_inv (?room\<lparr>mailbox := mailbox ?room @ [JoinLobby c addr]\<rparr>)" for c
    using room by (simp add: chan_inv_def)
  note join = manager_run_chan [OF this]
  show ?thesis
    using st create join
    by (auto simp: Datagram udp_handler_def Let_def simp del: manager_run.simps split: option.split prod.split)
       (metis fst_conv)+
next
  case ManagerTurn
  with manager_step_chan [OF inv] show ?thesis by simp
next
  case (Shutdown tx)
  note I = chan_invD [OF inv]
  show ?thesis
  proof (cases "tx \<in> timers st")
    case True
    have "chan_inv (st\<lparr>alive := (alive st)(tx := None), timers := timers st - {tx}\<rparr>)"
    proof (rule chan_invI, goal_cases)
      case (1 c s t)
      with True show ?case using I(1) [of c s t] by auto
    next
      case (2 t a)
      with True show ?case using I(2) [of t a] by auto
    next
      case (3 t)
      then show ?case using I(3) [of t] by simp
    next
      case 4
      then show ?case using I(4) by simp
    next
      case (5 c c' s s' t)
      then show ?case using I(5) [of c s c' s' t] by simp
    qed
    with True Shutdown show ?thesis by (simp add: shutdown_fires_def)
  qed (use inv Shutdown in \<open>simp add: shutdown_fires_def\<close>)
qed (use inv in simp)

lemma run_chan: "chan_inv st \<Longrightarrow> chan_inv (fst (server_run U evs st))"
proof (induction evs arbitrary: st)
  case (Cons ev evs)
  from Cons.IH [OF step_chan [OF Cons.prems]] show ?case by (simp only: server_run_fst)
qed simp

text \<open>Never do more than 50 messages wait for the manager.\<close>

lemma manager_step_mailbox: "mailbox (fst (manager_step st)) = tl (mailbox st)"
  by (cases "mailbox st") (simp_all add: manager_step_def split: prod.split)

lemma manager_run_mailbox: "mailbox (fst (manager_run n st)) = drop n (mailbox st)"
proof (induction n arbitrary: st)
  case (Suc n)
  obtain st1 a where s: "manager_step st = (st1, a)" by fastforce
  with manager_step_mailbox [of st] have "mailbox st1 = tl (mailbox st)" by simp
  with Suc.IH [of st1] s show ?case by (simp add: drop_Suc)
qed simp

lemma step_mailbox:
  assumes "length (mailbox st) \<le> mailbox_capacity"
  shows "length (mailbox (fst (server_step U ev st))) \<le> mailbox_capacity"
proof (cases ev)
  case (Datagram code bytes addr)
  let ?st = "st\<lparr>buf := recv_into (buf st) bytes\<rparr>"
  have room: "length (mailbox (make_room ?st)) < mailbox_capacity"
    using assms by (simp add: make_room_def manager_step_mailbox mailbox_capacity_def)
  have "mailbox (fst (manager_run (length (mailbox (make_room ?st)) + 1)
      (make_room ?st\<lparr>mailbox := mailbox (make_room ?st) @ [JoinLobby c addr]\<rparr>))) = []" for c
    unfolding manager_run_mailbox by simp
  with assms room show ?thesis
    by (auto simp: Datagram udp_handler_def Let_def simp del: manager_run.simps split: option.split prod.split)
      (metis fst_conv le0 list.size(3))+
next
  case ManagerTurn
  with assms show ?thesis by (simp add: manager_step_mailbox)
qed (use assms in \<open>simp_all add: shutdown_fires_def\<close>)

lemma mailbox_bounded: "length (mailbox (fst (server_run U evs Server_new))) \<le> 50"
proof -
  have "length (mailbox st) \<le> mailbox_capacity \<Longrightarrow> length (mailbox (fst (server_run U evs st))) \<le> mailbox_capacity" for st
  proof (induction evs arbitrary: st)
    case (Cons ev evs)
    from Cons.IH [OF step_mailbox [OF Cons.prems]] show ?case by (simp only: server_run_fst)
  qed simp
  from this [of Server_new] show ?thesis by (simp add: Server_new_def mailbox_capacity_def)
qed

lemma length_buf_new: "length (buf Server_new) = 65535"
  by (simp add: Server_new_def)

section \<open>Joining\<close>

lemma server_run_single: "fst (server_run U [ev] st) = fst (server_step U ev st)"
  by (simp add: split_beta)

lemma join_not_create [simp]: "LOBBY_JOIN \<noteq> LOBBY_CREATE"
  by (simp add: LOBBY_JOIN_def LOBBY_CREATE_def)

lemma take_drop_length: "take n xs @ drop (length (take n xs)) (xs @ ys) = xs @ ys"
proof -
  have "take n xs @ drop (length (take n xs)) xs = xs"
    by (cases "n \<le> length xs") (simp_all add: min_def)
  moreover have "length (take n xs) - length xs = 0" by simp
  ultimately show ?thesis by (simp flip: append_assoc del: length_take)
qed

lemma recv_into_front:
  assumes "length bytes \<le> length b"
  shows "recv_into b bytes = bytes @ drop (length bytes) b"
  using assms by (simp add: recv_into_def)

context uuid
begin

abbreviation join_packet :: "'code \<Rightarrow> u8 list" where
  "join_packet c \<equiv> LOBBY_JOIN # as_bytes U c"

lemma join_spec:
  assumes "length (buf st) = 65535"
  shows "snd (udp_handler U d (join_packet c) client st)
    = (case hosts st c of None \<Rightarrow> [] | Some host \<Rightarrow> introduce host client)"
proof -
  have b: "recv_into (buf st) (join_packet c) = join_packet c @ drop 17 (buf st)"
    using assms by (simp add: recv_into_front length_bytes)
  from arg_cong [OF step_refines [OF assms, of "Datagram d (join_packet c) client"], of snd]
  show ?thesis
    by (simp add: b length_bytes from_slice_bytes Let_def)
qed

lemma step_length: "length (buf st) = 65535 \<Longrightarrow> length (buf (fst (server_step U ev st))) = 65535"
  using run_hosts(1) [of st "[ev]"] by (simp only: server_run_single)

lemma create_spec:
  assumes "length (buf st) = 65535"
  shows "hosts (fst (udp_handler U c (LOBBY_CREATE # bs) host st)) c = Some host"
    and "snd (udp_handler U c (LOBBY_CREATE # bs) host st) = [(as_bytes U c, host)]"
proof -
  have "recv_into (buf st) (LOBBY_CREATE # bs) ! 0 = LOBBY_CREATE"
    using assms by (cases "buf st") (auto simp: recv_into_def)
  with step_refines [OF assms, of "Datagram c (LOBBY_CREATE # bs) host"]
  have h: "(hosts st)(c \<mapsto> host) = hosts (fst (udp_handler U c (LOBBY_CREATE # bs) host st))"
    and o: "[(as_bytes U c, host)] = snd (udp_handler U c (LOBBY_CREATE # bs) host st)"
    by (simp_all add: Let_def)
  from h show "hosts (fst (udp_handler U c (LOBBY_CREATE # bs) host st)) c = Some host"
    by (metis fun_upd_same)
  from o show "snd (udp_handler U c (LOBBY_CREATE # bs) host st) = [(as_bytes U c, host)]"
    by (rule sym)
qed

lemma join_buf:
  assumes "length (buf st) = 65535"
  shows "buf (fst (udp_handler U d (join_packet c) a st)) = join_packet c @ drop 17 (buf st)"
proof -
  have "recv_into (buf st) (join_packet c) = join_packet c @ drop 17 (buf st)"
    using assms by (simp add: recv_into_front length_bytes)
  with arg_cong [OF step_refines [OF assms, of "Datagram d (join_packet c) a"], of "fst \<circ> fst"]
  show ?thesis by (auto simp: Let_def LOBBY_CREATE_def LOBBY_JOIN_def)
qed

lemma short_join:
  assumes "length (buf st) = 65535" and "st' = fst (udp_handler U d (join_packet c) a st)"
  shows "udp_handler U d' (take n (join_packet c)) b st' = udp_handler U d' (join_packet c) b st'"
proof -
  have b: "buf st' = join_packet c @ drop 17 (buf st)" unfolding assms(2) by (rule join_buf [OF assms(1)])
  have "recv_into (buf st') (take n (join_packet c)) = buf st'"
  proof -
    have "recv_into (buf st') (take n (join_packet c))
        = take n (join_packet c) @ drop (length (take n (join_packet c))) (buf st')"
      using assms(1) by (intro recv_into_front) (simp add: b length_bytes)
    also have "\<dots> = buf st'"
      unfolding b by (rule take_drop_length)
    finally show ?thesis .
  qed
  moreover have "recv_into (buf st') (join_packet c) = buf st'"
    unfolding b using assms(1) by (simp add: recv_into_front length_bytes)
  ultimately show ?thesis by (simp add: udp_handler_def)
qed

lemma run_create:
  assumes "\<forall>bytes addr. Datagram c bytes addr \<notin> set between"
    and evs: "evs = before @ [Datagram c (LOBBY_CREATE # bs) host] @ between"
  shows "hosts (fst (server_run U evs Server_new)) c = Some host"
    and "length (buf (fst (server_run U evs Server_new))) = 65535"
proof -
  let ?st0 = "fst (server_run U before Server_new)"
  let ?st1 = "fst (server_step U (Datagram c (LOBBY_CREATE # bs) host) ?st0)"
  have l0: "length (buf ?st0) = 65535" by (rule run_hosts(1) [OF length_buf_new])
  have st: "fst (server_run U evs Server_new) = fst (server_run U between ?st1)"
    unfolding evs server_run_append append_Cons append_Nil by (simp only: server_run_fst)
  have l1: "length (buf ?st1) = 65535" by (rule step_length [OF l0])
  have "hosts ?st1 c = Some host" using create_spec(1) [OF l0] by simp
  then show "hosts (fst (server_run U evs Server_new)) c = Some host"
    using run_hosts(2) [OF l1 assms(1)] by (simp only: st)
  show "length (buf (fst (server_run U evs Server_new))) = 65535"
    unfolding st by (rule run_hosts(1) [OF l1])
qed

end

section \<open>Properties of the rendezvous server\<close>

abbreviation host_addr1 :: sockaddr where "host_addr1 \<equiv> V4 0xCB007107 4000"
abbreviation client_addr1 :: sockaddr where "client_addr1 \<equiv> V4 0xC6336409 5000"
abbreviation client_addr2 :: sockaddr where "client_addr2 \<equiv> V4 0x08080808 53"
abbreviation code1 :: "u32 \<times> u32 \<times> u32 \<times> u32" where "code1 \<equiv> (1, 2, 3, 4)"

text \<open>Property C17: the server, with its tasks, mailbox and table of sessions, implements a map
  from codes to hosts: a create datagram stores its sender under a fresh code and returns the
  code, a join datagram is answered from the map, everything else has no effect on it; and the
  branch for an unreadable code is never taken.\<close>

theorem server_implements_map:
  assumes "uuid U" and "length (buf st) = 65535"
  shows "spec_step U ev (buf st, hosts st) =
    ((buf (fst (server_step U ev st)), hosts (fst (server_step U ev st))),
     case ev of KeepAlive tx \<Rightarrow> [] | _ \<Rightarrow> snd (server_step U ev st))"
  by (rule uuid.step_refines [OF assms])

theorem server_implements_map_witness:
  "hosts (fst (server_step bytes_uuid (Datagram code1 [0] host_addr1) Server_new)) code1 = Some host_addr1"
proof -
  let ?ev = "Datagram code1 [LOBBY_CREATE] host_addr1"
  have c: "recv_into (buf Server_new) [LOBBY_CREATE] ! 0 = LOBBY_CREATE"
    by (simp add: recv_into_def Server_new_def)
  from server_implements_map [OF bytes_uuid_axioms length_buf_new, of ?ev]
  have "(hosts Server_new)(code1 \<mapsto> host_addr1) = hosts (fst (server_step bytes_uuid ?ev Server_new))"
    by (simp add: Let_def c)
  then show ?thesis by (metis fun_upd_same LOBBY_CREATE_def)
qed

text \<open>Whoever joins with the code a host was given is introduced to that host: five
  pings and the host's address in text to the client, the client's address in text to the host,
  whatever happened before and in between, as long as the code is not drawn again.\<close>

lemma join_introduces:
  assumes "uuid U" and "\<forall>bytes addr. Datagram c bytes addr \<notin> set between"
    and "st = fst (server_run U (before @ [Datagram c (LOBBY_CREATE # bs) host] @ between) Server_new)"
  shows "snd (udp_handler U d (LOBBY_JOIN # as_bytes U c) client st)
    = replicate 5 ([0], client)
      @ [(text_bytes (show_sockaddr host), client), (text_bytes (show_sockaddr client), host)]"
  using uuid.join_spec [OF assms(1)] uuid.run_create [OF assms(1,2) refl, of before bs host]
  by (simp add: assms(3) introduce_def)

text \<open>Property C31: after a join, a shorter datagram that agrees with it as far as it goes, even an
  empty one or the single byte 1, has the effect of the whole: the server reads the rest from
  what its buffer still holds. Its sender, who need not know any code, is introduced to the
  host of the previous client.\<close>

theorem short_datagram_joins:
  assumes "uuid U" and "length (buf st) = 65535" and "hosts st c = Some host"
  shows "let st' = fst (udp_handler U d (LOBBY_JOIN # as_bytes U c) a st)
    in udp_handler U d' (take n (LOBBY_JOIN # as_bytes U c)) b st'
         = udp_handler U d' (LOBBY_JOIN # as_bytes U c) b st'
       \<and> snd (udp_handler U d' (take n (LOBBY_JOIN # as_bytes U c)) b st') = introduce host b"
proof -
  let ?st' = "fst (udp_handler U d (LOBBY_JOIN # as_bytes U c) a st)"
  have "length (buf ?st') = 65535"
    using uuid.join_buf [OF assms(1,2), of d c a] uuid.length_bytes [OF assms(1)] assms(2) by simp
  moreover have "hosts ?st' c = Some host"
    using arg_cong [OF uuid.step_refines [OF assms(1,2), of "Datagram d (LOBBY_JOIN # as_bytes U c) a"], of "snd \<circ> fst"]
      assms(3) uuid.join_buf [OF assms(1,2), of d c a] uuid.length_bytes [OF assms(1), of c] assms(2)
    by (simp add: Let_def LOBBY_CREATE_def LOBBY_JOIN_def recv_into_def)
  ultimately show ?thesis
    using uuid.short_join [OF assms(1,2) refl] uuid.join_spec [OF assms(1)] by (simp add: Let_def)
qed

theorem short_datagram_joins_witness:
  "snd (udp_handler bytes_uuid (8, 8, 8, 8) [1] client_addr2
     (fst (udp_handler bytes_uuid (9, 9, 9, 9) (LOBBY_JOIN # as_bytes bytes_uuid code1) client_addr1
       (fst (udp_handler bytes_uuid code1 [0] host_addr1 Server_new)))))
   = introduce host_addr1 client_addr2"
proof -
  let ?st = "fst (udp_handler bytes_uuid code1 (LOBBY_CREATE # []) host_addr1 Server_new)"
  have "length (buf ?st) = 65535"
    using bytes_uuid.step_length [OF length_buf_new, of "Datagram code1 (LOBBY_CREATE # []) host_addr1"]
    by (simp only: server_step.simps)
  from short_datagram_joins [OF bytes_uuid_axioms this bytes_uuid.create_spec(1) [OF length_buf_new],
      of "(9, 9, 9, 9)" client_addr1 "(8, 8, 8, 8)" 1 client_addr2, unfolded Let_def, THEN conjunct2]
  show ?thesis by (simp add: LOBBY_CREATE_def LOBBY_JOIN_def)
qed

text \<open>As long as nobody has joined its lobby, a host is pinged at every tick: in every
  reachable state the keep-alive task of a lobby whose shutdown sender is still there runs and
  pings the lobby's host.\<close>

lemma unjoined_host_kept_alive:
  assumes "st = fst (server_run U evs Server_new)"
    and "sessions st c = Some s" and "shutdown_channel s = Some tx"
  shows "snd (server_step U (KeepAlive tx) st) = [([0], lobby_host s)]"
  using chan_invD(1) [OF run_chan [OF chan_inv_new], of U evs c s tx] assms
  by (simp add: keep_alive_tick_def)

end
