(* ===== verification/Stores.thy ===== *)
theory Stores
  imports Prelude "HOL-Library.AList"
begin

text \<open>
  The concurrent hash map of the \<open>dashmap\<close> crate, which is not part of this repository. The
  operations the code calls are the fields of a record that every definition using them takes
  as an argument; what their documentation promises is the locale \<open>dashmap\<close>, over an
  abstraction to a finite map. An association list is one map that keeps the contract.
\<close>

section \<open>The interface\<close>

record ('m, 'k, 'v) dashmap_ops =
  dm_new :: 'm
  dm_insert :: "'k \<Rightarrow> 'v \<Rightarrow> 'm \<Rightarrow> 'm"
  dm_remove :: "'k \<Rightarrow> 'm \<Rightarrow> ('k \<times> 'v) option \<times> 'm"
  dm_get :: "'k \<Rightarrow> 'm \<Rightarrow> 'v option"
  dm_keys :: "'m \<Rightarrow> 'k list"  \<comment> \<open>the order in which \<open>iter_mut\<close> visits the entries\<close>

locale dashmap =
  fixes D :: "('m, 'k, 'v) dashmap_ops"
    and entries :: "'m \<Rightarrow> 'k \<rightharpoonup> 'v"
  assumes entries_new: "entries (dm_new D) = Map.empty"
    and entries_insert: "entries (dm_insert D k v m) = (entries m)(k \<mapsto> v)"
    and remove_result: "fst (dm_remove D k m) = map_option (\<lambda>v. (k, v)) (entries m k)"
    and entries_remove: "entries (snd (dm_remove D k m)) = (entries m)(k := None)"
    and get_result: "dm_get D k m = entries m k"
    and keys_set: "set (dm_keys D m) = dom (entries m)"
    and keys_distinct: "distinct (dm_keys D m)"
begin

lemma finite_entries: "finite (dom (entries m))"
  by (simp flip: keys_set)

lemma remove_absent: "entries m k = None \<Longrightarrow> \<exists>m'. dm_remove D k m = (None, m') \<and> entries m' = entries m"
  using remove_result [of k m] entries_remove [of k m]
  by (cases "dm_remove D k m") (auto simp: fun_upd_idem)

lemma remove_present:
  "entries m k = Some v \<Longrightarrow> \<exists>m'. dm_remove D k m = (Some (k, v), m') \<and> entries m' = (entries m)(k := None)"
  using remove_result [of k m] entries_remove [of k m]
  by (cases "dm_remove D k m") auto

lemma card_remove:
  "entries m k = Some v \<Longrightarrow> card (dom ((entries m)(k := None))) < card (dom (entries m))"
  by (rule psubset_card_mono [OF finite_entries]) auto

end

section \<open>A map that keeps the contract\<close>

definition alist_ops :: "(('k \<times> 'v) list, 'k, 'v) dashmap_ops" where
  "alist_ops =
     \<lparr>dm_new = [],
      dm_insert = AList.update,
      dm_remove = (\<lambda>k m. (map_option (\<lambda>v. (k, v)) (map_of m k), AList.delete k m)),
      dm_get = (\<lambda>k m. map_of m k),
      dm_keys = (\<lambda>m. remdups (map fst m))\<rparr>"

interpretation alist: dashmap alist_ops map_of
  by unfold_locales
    (auto simp: alist_ops_def AList.update_conv AList.delete_conv' dom_map_of_conv_image_fst)

lemmas alist_dashmap = alist.dashmap_axioms

end
