(* ===== verification/ReliableUdp.thy ===== *)
theory ReliableUdp
  imports Stores SockAddr
begin

text \<open>
  The reliable one-way UDP layer of \<open>common/src/singleconnection.rs\<close> and the packet types of
  \<open>common/src/lib.rs\<close>: the wire format, the receiving task, the sending task with its
  retransmission timer, and the task that sends acknowledgements.
\<close>

section \<open>Packets and their wire format\<close>

datatype PacketType = Ack (pt_ack: u32) | Data (pt_payload: "u8 list")

record Header =
  seq :: u32
  ack :: u32

record Packet =
  header :: Header
  payload :: "u8 list option"

text \<open>An \<open>Instant\<close> is a number of nanoseconds since some fixed point.\<close>

type_synonym instant = nat

definition from_millis :: "nat \<Rightarrow> nat" where
  "from_millis n = n * 1000000"

text \<open>\<open>Instant::duration_since\<close> saturates at zero, as subtraction on \<open>nat\<close> does.\<close>

definition duration_since :: "instant \<Rightarrow> instant \<Rightarrow> nat" where
  "duration_since later earlier = later - earlier"

record SentPacket =
  packet :: Packet
  time_sent :: instant

record AckInfo =
  ack_num :: u32
  ack_peer :: sockaddr

definition serialize :: "Packet \<Rightarrow> u8 list" where
  "serialize p =
     be32 (seq (header p)) @ be32 (ack (header p))
       @ (case payload p of Some pl \<Rightarrow> pl | None \<Rightarrow> [])"

fun deserialize :: "u8 list \<Rightarrow> Packet option" where
  "deserialize (a # b # c # d # e # f # g # h # rest) =
     Some \<lparr>header = \<lparr>seq = of_be32 a b c d, ack = of_be32 e f g h\<rparr>,
           payload = (if rest = [] then None else Some rest)\<rparr>"
| "deserialize _ = None"

definition ack_packet :: "u32 \<Rightarrow> Packet" where
  "ack_packet n = \<lparr>header = \<lparr>seq = 0, ack = n\<rparr>, payload = None\<rparr>"

section \<open>Shared state\<close>

record ('rb, 'ub) SharedState =
  expected_sequence :: u32
  receiver_acknowledged :: u32
  recv_buffer :: 'rb
  next_seq :: u32
  sender_acknowdgeded :: u32
  unacked :: 'ub

definition SharedState_new ::
  "('rb, u32, Packet) dashmap_ops \<Rightarrow> ('ub, u32, SentPacket) dashmap_ops \<Rightarrow> ('rb, 'ub) SharedState"
where
  "SharedState_new R U =
     \<lparr>expected_sequence = 0, receiver_acknowledged = 0, recv_buffer = dm_new R,
      next_seq = 0, sender_acknowdgeded = 0, unacked = dm_new U\<rparr>"

section \<open>The receiving task\<close>

text \<open>
  What the task does to the outside, in order: \<open>output_tx.send\<close>, \<open>ack_tx.send\<close> and
  \<open>socket.send_to\<close>. Their results are ignored by the code. \<open>Panicked\<close> is a task that stopped
  on an arithmetic overflow (only with overflow checks); its state stays shared.
\<close>

datatype UdpEffect =
    OutputSend Packet sockaddr
  | AckSend AckInfo
  | SocketSend "u8 list" sockaddr

datatype task = Running | Panicked

type_synonym ('rb, 'ub) outcome = "task \<times> ('rb, 'ub) SharedState \<times> UdpEffect list"

text \<open>
  The \<open>while let\<close> loop over the reorder buffer. \<open>None\<close> would be a loop that never ends.
\<close>

partial_function (option) drain ::
  "('rb, u32, Packet) dashmap_ops \<Rightarrow> bool \<Rightarrow> sockaddr \<Rightarrow> u32 \<Rightarrow> ('rb, 'ub) SharedState
    \<Rightarrow> UdpEffect list \<Rightarrow> ('rb, 'ub) outcome option"
where
  "drain R oc addr next_expected st out =
     (case dm_remove R next_expected (recv_buffer st) of
        (None, m) \<Rightarrow> Some (Running, st\<lparr>recv_buffer := m\<rparr>, out)
      | (Some (_, p), m) \<Rightarrow>
          (let st' = st\<lparr>recv_buffer := m,
                        receiver_acknowledged := receiver_acknowledged st + 1,
                        expected_sequence := expected_sequence st + 1\<rparr>;
               out' = out @ [OutputSend p addr]
           in case plus_oc oc next_expected 1 of
                None \<Rightarrow> Some (Panicked, st', out')
              | Some n \<Rightarrow> drain R oc addr n st' out'))"

text \<open>The three branches of \<open>match packet_seq.cmp(expected)\<close>.\<close>

definition recv_equal ::
  "('rb, u32, Packet) dashmap_ops \<Rightarrow> bool \<Rightarrow> sockaddr \<Rightarrow> Packet \<Rightarrow> ('rb, 'ub) SharedState
    \<Rightarrow> ('rb, 'ub) outcome option"
where
  "recv_equal R oc addr p st =
     (let st' = st\<lparr>expected_sequence := expected_sequence st + 1,
                   receiver_acknowledged := seq (header p)\<rparr>;
          out = [OutputSend p addr, AckSend \<lparr>ack_num = seq (header p), ack_peer = addr\<rparr>]
      in case plus_oc oc (seq (header p)) 1 of
           None \<Rightarrow> Some (Panicked, st', out)
         | Some n \<Rightarrow> drain R oc addr n st' out)"

definition recv_greater ::
  "('rb, u32, Packet) dashmap_ops \<Rightarrow> sockaddr \<Rightarrow> Packet \<Rightarrow> ('rb, 'ub) SharedState
    \<Rightarrow> ('rb, 'ub) outcome"
where
  "recv_greater R addr p st =
     (let st' = st\<lparr>recv_buffer := dm_insert R (seq (header p)) p (recv_buffer st)\<rparr>
      in (Running, st',
          [SocketSend (serialize (ack_packet (receiver_acknowledged st'))) addr]))"

definition recv_less ::
  "sockaddr \<Rightarrow> Packet \<Rightarrow> ('rb, 'ub) SharedState \<Rightarrow> ('rb, 'ub) outcome"
where
  "recv_less addr p st =
     (Running, st,
      (if payload p = None \<or> payload p = Some []
       then [AckSend \<lparr>ack_num = ack (header p), ack_peer = addr\<rparr>] else []))"

definition recv_packet ::
  "('rb, u32, Packet) dashmap_ops \<Rightarrow> bool \<Rightarrow> sockaddr \<Rightarrow> Packet \<Rightarrow> ('rb, 'ub) SharedState
    \<Rightarrow> ('rb, 'ub) outcome option"
where
  "recv_packet R oc addr p st =
     (if seq (header p) = expected_sequence st then recv_equal R oc addr p st
      else if expected_sequence st < seq (header p) then Some (recv_greater R addr p st)
      else Some (recv_less addr p st))"

text \<open>
  One turn of the \<open>loop\<close> of \<open>recv\<close>: \<open>recv_from\<close> fails, or fills the 6600-byte buffer with a
  datagram (what does not fit is lost) and names its source.
\<close>

datatype SocketEvent = RecvErr | RecvFrom "u8 list" sockaddr

definition recv_buf_len :: nat where
  "recv_buf_len = 6600"

fun recv_step ::
  "('rb, u32, Packet) dashmap_ops \<Rightarrow> bool \<Rightarrow> sockaddr \<Rightarrow> ('rb, 'ub) SharedState \<Rightarrow> SocketEvent
    \<Rightarrow> ('rb, 'ub) outcome option"
where
  "recv_step R oc peer st RecvErr = Some (Running, st, [])"
| "recv_step R oc peer st (RecvFrom datagram addr) =
     (if addr \<noteq> peer then Some (Running, st, [])
      else case deserialize (take recv_buf_len datagram) of
             None \<Rightarrow> Some (Running, st, [])
           | Some p \<Rightarrow> recv_packet R oc addr p st)"

fun recv ::
  "('rb, u32, Packet) dashmap_ops \<Rightarrow> bool \<Rightarrow> sockaddr \<Rightarrow> ('rb, 'ub) SharedState
    \<Rightarrow> SocketEvent list \<Rightarrow> ('rb, 'ub) outcome option"
where
  "recv R oc peer st [] = Some (Running, st, [])"
| "recv R oc peer st (ev # evs) =
     (case recv_step R oc peer st ev of
        None \<Rightarrow> None
      | Some (Panicked, st', out) \<Rightarrow> Some (Panicked, st', out)
      | Some (Running, st', out) \<Rightarrow>
          (case recv R oc peer st' evs of
             None \<Rightarrow> None
           | Some (t, st'', out') \<Rightarrow> Some (t, st'', out @ out')))"

section \<open>The sending task\<close>

definition retransmit_timeout :: nat where
  "retransmit_timeout = from_millis 2000"

text \<open>The \<open>for mut entry in unacked.iter_mut()\<close> loop, over the keys in the map's order.\<close>

fun collect_expired ::
  "('ub, u32, SentPacket) dashmap_ops \<Rightarrow> instant \<Rightarrow> u32 list \<Rightarrow> 'ub \<Rightarrow> Packet list
    \<Rightarrow> 'ub \<times> Packet list"
where
  "collect_expired U now [] m acc = (m, acc)"
| "collect_expired U now (k # ks) m acc =
     (case dm_get U k m of
        None \<Rightarrow> collect_expired U now ks m acc
      | Some e \<Rightarrow>
          (if retransmit_timeout < duration_since now (time_sent e)
           then collect_expired U now ks (dm_insert U k (e\<lparr>time_sent := now\<rparr>) m) (acc @ [packet e])
           else collect_expired U now ks m acc))"

definition check_retransmission ::
  "('ub, u32, SentPacket) dashmap_ops \<Rightarrow> sockaddr \<Rightarrow> instant \<Rightarrow> ('rb, 'ub) SharedState
    \<Rightarrow> ('rb, 'ub) SharedState \<times> UdpEffect list"
where
  "check_retransmission U addr now st =
     (case collect_expired U now (dm_keys U (unacked st)) (unacked st) [] of
        (m, to_retransmit) \<Rightarrow>
          (st\<lparr>unacked := m\<rparr>, map (\<lambda>p. SocketSend (serialize p) addr) to_retransmit))"

text \<open>The branches of the \<open>select!\<close> of \<open>send\<close>: a packet of the application, or the timer.\<close>

datatype SendEvent = FromApp PacketType | Tick

definition send_data ::
  "('ub, u32, SentPacket) dashmap_ops \<Rightarrow> bool \<Rightarrow> sockaddr \<Rightarrow> instant \<Rightarrow> u8 list
    \<Rightarrow> ('rb, 'ub) SharedState \<Rightarrow> ('rb, 'ub) outcome"
where
  "send_data U oc addr now pl st =
     (let st' = st\<lparr>next_seq := next_seq st + 1\<rparr>
      in case plus_oc oc (next_seq st) 1 of
           None \<Rightarrow> (Panicked, st', [])
         | Some s \<Rightarrow>
             (let p = \<lparr>header = \<lparr>seq = s, ack = receiver_acknowledged st'\<rparr>, payload = Some pl\<rparr>
              in (Running,
                  st'\<lparr>unacked := dm_insert U s \<lparr>packet = p, time_sent = now\<rparr> (unacked st')\<rparr>,
                  [SocketSend (serialize p) addr])))"

fun send_step ::
  "('ub, u32, SentPacket) dashmap_ops \<Rightarrow> bool \<Rightarrow> sockaddr \<Rightarrow> instant \<Rightarrow> SendEvent
    \<Rightarrow> ('rb, 'ub) SharedState \<Rightarrow> ('rb, 'ub) outcome"
where
  "send_step U oc addr now (FromApp (Ack n)) st = (Running, st, [])"
| "send_step U oc addr now (FromApp (Data pl)) st = send_data U oc addr now pl st"
| "send_step U oc addr now Tick st =
     (case check_retransmission U addr now st of (st', out) \<Rightarrow> (Running, st', out))"

fun send ::
  "('ub, u32, SentPacket) dashmap_ops \<Rightarrow> bool \<Rightarrow> sockaddr \<Rightarrow> ('rb, 'ub) SharedState
    \<Rightarrow> (instant \<times> SendEvent) list \<Rightarrow> ('rb, 'ub) outcome"
where
  "send U oc addr st [] = (Running, st, [])"
| "send U oc addr st ((now, ev) # evs) =
     (case send_step U oc addr now ev st of
        (Panicked, st', out) \<Rightarrow> (Panicked, st', out)
      | (Running, st', out) \<Rightarrow>
          (case send U oc addr st' evs of (t, st'', out') \<Rightarrow> (t, st'', out @ out')))"

section \<open>The acknowledgement task\<close>

definition periodic_ack :: "AckInfo \<Rightarrow> UdpEffect" where
  "periodic_ack i = SocketSend (serialize (ack_packet (ack_num i))) (ack_peer i)"

definition periodic_acks :: "AckInfo list \<Rightarrow> UdpEffect list" where
  "periodic_acks infos = map periodic_ack infos"

end
