(* ===== verification/Peer.thy ===== *)
theory Peer
  imports Rendezvous ReliableUdp
begin

text \<open>
  The command-line peer (\<open>peer/src/main.rs\<close>): learning the other side's address from the
  rendezvous server as host or as client, punching the hole, and the chat on top of the
  reliable UDP layer.
\<close>

section \<open>UTF-8\<close>

text \<open>\<open>str::from_utf8\<close> of the standard library: the byte sequences it accepts. A text is the list of
  its bytes, read as characters.\<close>

definition cont_byte :: "u8 \<Rightarrow> bool" where
  "cont_byte b \<longleftrightarrow> 0x80 \<le> b \<and> b \<le> 0xBF"

fun utf8_valid :: "u8 list \<Rightarrow> bool" where
  "utf8_valid [] = True"
| "utf8_valid (a # bs) =
     (if a < 0x80 then utf8_valid bs
      else if 0xC2 \<le> a \<and> a \<le> 0xDF then
        (case bs of b # bs \<Rightarrow> cont_byte b \<and> utf8_valid bs | _ \<Rightarrow> False)
      else if 0xE0 \<le> a \<and> a \<le> 0xEF then
        (case bs of b # c # bs \<Rightarrow>
            cont_byte b \<and> (a = 0xE0 \<longrightarrow> 0xA0 \<le> b) \<and> (a = 0xED \<longrightarrow> b \<le> 0x9F) \<and> cont_byte c \<and> utf8_valid bs
          | _ \<Rightarrow> False)
      else if 0xF0 \<le> a \<and> a \<le> 0xF4 then
        (case bs of b # c # d # bs \<Rightarrow>
            cont_byte b \<and> (a = 0xF0 \<longrightarrow> 0x90 \<le> b) \<and> (a = 0xF4 \<longrightarrow> b \<le> 0x8F)
            \<and> cont_byte c \<and> cont_byte d \<and> utf8_valid bs
          | _ \<Rightarrow> False)
      else False)"

definition from_utf8 :: "u8 list \<Rightarrow> string option" where
  "from_utf8 bs = (if utf8_valid bs then Some (map (\<lambda>b. char_of (unat b)) bs) else None)"

section \<open>Learning the other address\<close>

text \<open>What \<open>recv_from\<close> returns: an error, or a datagram and its source. Both roles read into a
  buffer of 120 bytes whose rest keeps its content.\<close>

type_synonym received = "(u8 list \<times> sockaddr) option"

definition peer_buf :: "u8 list" where
  "peer_buf = replicate 120 0"

datatype 'a outcome =
    Waiting             \<comment> \<open>for the next datagram\<close>
  | Found 'a
  | Failed              \<comment> \<open>the function returns an error\<close>
  | Panicked

text \<open>\<open>request_host_addr\<close>: the join packet, then the loop over what arrives.\<close>

fun request_loop :: "received list \<Rightarrow> u8 list \<Rightarrow> sockaddr outcome \<times> sends" where
  "request_loop [] b = (Waiting, [])"
| "request_loop (None # rs) b = request_loop rs b"
| "request_loop (Some (bytes, addr) # rs) b =
     (let b = recv_into b bytes; n = min (length bytes) (length b)
      in if b ! 0 = 0 then
           (case request_loop rs b of (r, out) \<Rightarrow> (r, ([2], addr) # out))
         else
           (case from_utf8 (take n b) of
              None \<Rightarrow> request_loop rs b
            | Some s \<Rightarrow> (case parse_sockaddr s of None \<Rightarrow> (Failed, []) | Some a \<Rightarrow> (Found a, []))))"

definition request_host_addr ::
  "'code uuid_ops \<Rightarrow> 'code \<Rightarrow> sockaddr \<Rightarrow> received list \<Rightarrow> sockaddr outcome \<times> sends"
where
  "request_host_addr U code addr rs =
     (case request_loop rs peer_buf of
        (r, out) \<Rightarrow> (r, (LOBBY_JOIN # as_bytes U code, addr) # out))"

text \<open>\<open>listen_to_relay\<close>: the create packet; the first datagram must be the code; then the loop.\<close>

fun listen_loop :: "received list \<Rightarrow> u8 list \<Rightarrow> sockaddr outcome \<times> sends" where
  "listen_loop [] b = (Waiting, [])"
| "listen_loop (None # rs) b = listen_loop rs b"
| "listen_loop (Some (bytes, addr) # rs) b =
     (let b = recv_into b bytes; n = min (length bytes) (length b)
      in case Option.bind (from_utf8 (take n b)) parse_sockaddr of
           Some a \<Rightarrow> (Found a, [])
         | None \<Rightarrow> (case listen_loop rs b of (r, out) \<Rightarrow> (r, ([2], addr) # out)))"

definition listen_to_relay ::
  "'code uuid_ops \<Rightarrow> sockaddr \<Rightarrow> received list \<Rightarrow> sockaddr outcome \<times> sends"
where
  "listen_to_relay U server rs =
     (let create = ([LOBBY_CREATE], server)
      in case rs of
           [] \<Rightarrow> (Waiting, [create])
         | None # rs \<Rightarrow> (case listen_loop rs peer_buf of (r, out) \<Rightarrow> (r, create # out))
         | Some (bytes, addr) # rs \<Rightarrow>
             (let b = recv_into peer_buf bytes; n = min (length bytes) (length b)
              in case from_slice U (take n b) of
                   None \<Rightarrow> (Panicked, [create])
                 | Some code \<Rightarrow> (case listen_loop rs b of (r, out) \<Rightarrow> (r, create # out))))"

section \<open>The program\<close>

text \<open>\<open>main\<close> up to hole punching. The code is optional on the command line; without it a peer does
  nothing, and an address not found is logged.\<close>

datatype mode = HostMode | PeerMode

record 'code Args =
  arg_mode :: mode
  arg_code :: "'code option"
  arg_addr :: sockaddr

datatype start =
    PunchHole sockaddr   \<comment> \<open>the reliable layer's tasks are spawned, then \<open>hole_punching_wan\<close>\<close>
  | StartWaits
  | Returns
  | StartPanics

fun start_of :: "sockaddr outcome \<Rightarrow> start" where
  "start_of (Found a) = PunchHole a"
| "start_of Waiting = StartWaits"
| "start_of Failed = Returns"
| "start_of Panicked = StartPanics"

definition peer_main :: "'code uuid_ops \<Rightarrow> 'code Args \<Rightarrow> received list \<Rightarrow> start \<times> sends" where
  "peer_main U args rs =
     (case arg_mode args of
        HostMode \<Rightarrow> map_prod start_of id (listen_to_relay U (arg_addr args) rs)
      | PeerMode \<Rightarrow>
          (case arg_code args of
             None \<Rightarrow> (Returns, [])
           | Some code \<Rightarrow> map_prod start_of id (request_host_addr U code (arg_addr args) rs)))"

section \<open>Hole punching\<close>

definition HOLE_PUNCH :: "u8 list" where "HOLE_PUNCH = text_bytes ''HOLE_PUNCH''"
definition CONNECTED :: "u8 list" where "CONNECTED = text_bytes ''CONNECTED''"
definition KEEP_ALIVE :: "u8 list" where "KEEP_ALIVE = text_bytes ''KEEP_ALIVE''"
definition GOODBYE :: "u8 list" where "GOODBYE = text_bytes ''GOODBYE''"

text \<open>The punching task sends until the channel is closed: \<open>accepted\<close> tells for each attempt
  whether the send succeeded.\<close>

fun punch_task :: "bool list \<Rightarrow> nat \<Rightarrow> PacketType list" where
  "punch_task accepted 0 = []"
| "punch_task [] (Suc n) = []"
| "punch_task (ok # accepted) (Suc n) =
     (if ok then Data HOLE_PUNCH # punch_task accepted n else [])"

definition punch_attempts :: nat where "punch_attempts = 6"  \<comment> \<open>\<open>for i in 0..=5\<close>\<close>

text \<open>The waiting loop: each round sees the time elapsed (nanoseconds) and then either a delivered
  packet or the end of a 10 ms sleep.\<close>

datatype punch_result = Chat | TimedOut | StillWaiting

definition punch_timeout :: nat where "punch_timeout = 5000000000"

fun hole_punching_wan :: "(nat \<times> (Packet \<times> sockaddr) option) list \<Rightarrow> punch_result \<times> PacketType list" where
  "hole_punching_wan [] = (StillWaiting, [])"
| "hole_punching_wan ((elapsed, got) # rounds) =
     (if punch_timeout \<le> elapsed then (TimedOut, [])
      else case got of
             None \<Rightarrow> hole_punching_wan rounds
           | Some (p, addr) \<Rightarrow>
               (case payload p of
                  None \<Rightarrow> hole_punching_wan rounds
                | Some pl \<Rightarrow>
                    if pl = HOLE_PUNCH \<or> pl = CONNECTED then (Chat, [Data CONNECTED])
                    else hole_punching_wan rounds))"

section \<open>The chat\<close>

text \<open>\<open>SocketAddr::ip\<close>.\<close>

fun ip_of :: "sockaddr \<Rightarrow> u32 + u128" where
  "ip_of (V4 i p) = Inl i"
| "ip_of (V6 i p f z) = Inr i"

datatype chat_action = Ignore | ExitProcess | Print string

definition chat_receive :: "sockaddr \<Rightarrow> Packet \<times> sockaddr \<Rightarrow> chat_action" where
  "chat_receive peer got =
     (case got of (p, addr) \<Rightarrow>
        if ip_of addr \<noteq> ip_of peer then Ignore
        else case payload p of
               None \<Rightarrow> Ignore
             | Some pl \<Rightarrow>
                 (case from_utf8 pl of
                    None \<Rightarrow> Ignore
                  | Some message \<Rightarrow>
                      if message = ''KEEP_ALIVE'' then Ignore
                      else if message = ''GOODBYE'' then ExitProcess
                      else if message = ''CONNECTED'' \<or> message = ''HOLE_PUNCH'' then Ignore
                      else Print message))"

text \<open>The receiver task, up to the end of the process.\<close>

fun chat_receiver :: "sockaddr \<Rightarrow> (Packet \<times> sockaddr) list \<Rightarrow> string list \<times> bool" where
  "chat_receiver peer [] = ([], False)"
| "chat_receiver peer (x # xs) =
     (case chat_receive peer x of
        Ignore \<Rightarrow> chat_receiver peer xs
      | ExitProcess \<Rightarrow> ([], True)
      | Print m \<Rightarrow> (case chat_receiver peer xs of (ms, ended) \<Rightarrow> (m # ms, ended)))"

text \<open>The main loop over the trimmed input lines; \<open>accepted\<close> tells whether the channel takes the
  next packet. The flag of the result: the loop has ended.\<close>

fun chat_sender :: "(string \<times> bool) list \<Rightarrow> PacketType list \<times> bool" where
  "chat_sender [] = ([], False)"
| "chat_sender ((message, accepted) # lines) =
     (if message = ''exit'' then ((if accepted then [Data GOODBYE] else []), True)
      else if message = [] then chat_sender lines
      else if accepted then
        (case chat_sender lines of (ps, ended) \<Rightarrow> (Data (text_bytes message) # ps, ended))
      else ([], True))"

section \<open>Texts\<close>

definition printable :: "string \<Rightarrow> bool" where
  "printable s \<longleftrightarrow> (\<forall>c\<in>set s. 0 < (of_char c :: nat) \<and> (of_char c :: nat) < 128)"

lemma printable_simps [simp]: "printable []"
  "printable (xs @ ys) \<longleftrightarrow> printable xs \<and> printable ys"
  "printable (c # xs) \<longleftrightarrow> 0 < (of_char c :: nat) \<and> (of_char c :: nat) < 128 \<and> printable xs"
  by (auto simp: printable_def)

lemma digit_char_printable: "d < 16 \<Longrightarrow> 0 < (of_char (digit_char d) :: nat) \<and> (of_char (digit_char d) :: nat) < 128"
  by (simp add: digit_char_def)

lemma printable_number: "2 \<le> b \<Longrightarrow> b \<le> 16 \<Longrightarrow> printable (show_number b n)"
proof -
  assume b: "2 \<le> b" "b \<le> 16"
  have "d < 16" if "d \<in> set (digits b n)" for d using digits_less [OF b(1) that] b(2) by simp
  with digit_char_printable show ?thesis by (auto simp: printable_def show_number_def)
qed

lemma printable_ipv4: "printable (show_ipv4 i)"
  by (simp add: show_ipv4_def printable_number split: list.split)

lemma printable_groups: "printable (show_groups ss)"
  by (induction ss rule: show_groups.induct) (simp_all add: printable_number)

lemma printable_ipv6: "printable (show_ipv6 i)"
  by (simp add: show_ipv6_def Let_def printable_ipv4 printable_groups split: prod.split)

lemma printable_sockaddr: "printable (show_sockaddr a)"
  by (cases a) (simp_all add: printable_ipv4 printable_ipv6 printable_number)

lemma length_number: "2 \<le> b \<Longrightarrow> 0 < k \<Longrightarrow> n < b ^ k \<Longrightarrow> length (show_number b n) \<le> k"
  by (simp add: show_number_def digits_length)

lemma length_octet: "length (show_number 10 (unat (a :: u8))) \<le> 3"
  using unsigned_less [of a, where ?'a = nat] by (intro length_number) simp_all

lemma length_ipv4: "length (show_ipv4 i) \<le> 15"
proof -
  obtain a b c d where "octets4 i = [a, b, c, d]" by (simp add: octets4_def be32_def)
  with length_octet [of a] length_octet [of b] length_octet [of c] length_octet [of d]
  show ?thesis by (simp add: show_ipv4_def)
qed

lemma length_groups: "length (show_groups ss) \<le> 5 * length ss"
proof (induction ss rule: show_groups.induct)
  case (2 s)
  have "length (show_number 16 (unat s)) \<le> 4"
    using unsigned_less [of s, where ?'a = nat] by (intro length_number) simp_all
  then show ?case by simp
next
  case (3 s t ss)
  have "length (show_number 16 (unat s)) \<le> 4"
    using unsigned_less [of s, where ?'a = nat] by (intro length_number) simp_all
  with 3 show ?case by simp
qed simp

lemma length_ipv6: "length (show_ipv6 i) \<le> 82"
proof -
  obtain a n where z: "longest_zeros (segments i) 0 (0, 0) (0, 0) = (a, n)" by fastforce
  have "length (show_groups (take a (segments i))) \<le> 40" "length (show_groups (drop (a + n) (segments i))) \<le> 40"
    "length (show_groups (segments i)) \<le> 40"
    using length_groups [of "take a (segments i)"] length_groups [of "drop (a + n) (segments i)"]
      length_groups [of "segments i"] by simp_all
  with length_ipv4 [of "ucast i"] show ?thesis by (simp add: show_ipv6_def Let_def z)
qed

lemma length_sockaddr: "length (show_sockaddr a) \<le> 120"
proof -
  have p: "length (show_number 10 (unat p)) \<le> 5" for p :: u16
    using unsigned_less [of p, where ?'a = nat] by (intro length_number) simp_all
  have z: "length (show_number 10 (unat z)) \<le> 10" for z :: u32
    using unsigned_less [of z, where ?'a = nat] by (intro length_number) simp_all
  show ?thesis
  proof (cases a)
    case (V4 i q)
    with p [of q] length_ipv4 [of i] show ?thesis by simp
  next
    case (V6 i q f s)
    with p [of q] z [of s] length_ipv6 [of i] show ?thesis by simp
  qed
qed

lemma u8_char: "unat (of_char c :: u8) = of_char c"
proof -
  have "(of_char c :: u8) = of_nat (of_char c)" by (simp only: of_nat_of_char)
  moreover have "(of_char c :: nat) < 256" by (rule nat_of_char_less_256)
  ultimately show ?thesis by (simp add: unat_of_nat)
qed

lemma length_text_bytes [simp]: "length (text_bytes s) = length s"
  by (simp add: text_bytes_def)

lemma utf8_ascii: "\<forall>b\<in>set bs. b < 0x80 \<Longrightarrow> utf8_valid bs"
  by (induction bs) auto

lemma from_utf8_valid:
  assumes "utf8_valid (text_bytes s)"
  shows "from_utf8 (text_bytes s) = Some s"
proof -
  have "map (\<lambda>b. char_of (unat b)) (text_bytes s) = s"
    by (simp add: text_bytes_def comp_def u8_char)
  with assms show ?thesis by (simp add: from_utf8_def)
qed

lemma from_utf8_text:
  assumes "printable s"
  shows "from_utf8 (text_bytes s) = Some s"
proof -
  have "(of_char c :: u8) < 0x80" if "c \<in> set s" for c
    using assms that u8_char [of c] by (simp add: printable_def word_less_nat_alt)
  then show ?thesis by (intro from_utf8_valid utf8_ascii) (auto simp: text_bytes_def)
qed

lemma text_front:
  assumes "printable s" and "s \<noteq> []"
  shows "text_bytes s ! 0 \<noteq> 0"
proof -
  obtain c cs where s: "s = c # cs" using assms(2) by (cases s) auto
  with assms(1) have "unat (of_char c :: u8) \<noteq> 0" by (simp add: u8_char)
  with s show ?thesis by (auto simp: text_bytes_def)
qed

section \<open>What the loops make of pings and texts\<close>

definition ping :: "received \<Rightarrow> bool" where
  "ping r \<longleftrightarrow> (case r of None \<Rightarrow> True | Some (bs, a) \<Rightarrow> bs \<noteq> [] \<and> hd bs = 0)"

lemma recv_into_hd: "0 < length b \<Longrightarrow> bs \<noteq> [] \<Longrightarrow> recv_into b bs ! 0 = hd bs"
  by (cases bs; cases b) (auto simp: recv_into_def)

lemma recv_into_take:
  "length bs \<le> length b \<Longrightarrow> take (min (length bs) (length b)) (recv_into b bs) = bs"
  by (simp add: recv_into_def min_absorb1)

lemma request_pings:
  assumes "\<forall>r\<in>set rs. ping r" and "length b = 120"
  shows "\<exists>b'. length b' = 120 \<and> fst (request_loop (rs @ rest) b) = fst (request_loop rest b')"
  using assms
proof (induction rs arbitrary: b)
  case (Cons r rs)
  show ?case
  proof (cases r)
    case (Some x)
    obtain bs a where x: "x = (bs, a)" by fastforce
    with Cons.prems Some have "recv_into b bs ! 0 = 0" by (simp add: ping_def recv_into_hd)
    then have "fst (request_loop ((r # rs) @ rest) b) = fst (request_loop (rs @ rest) (recv_into b bs))"
      by (simp add: Some x Let_def split: prod.split)
    with Cons.IH [of "recv_into b bs"] Cons.prems show ?thesis by simp
  qed (use Cons in simp)
qed auto

lemma request_text:
  assumes "printable s" and "s \<noteq> []" and "length s \<le> 120" and "length b = 120"
  shows "fst (request_loop (Some (text_bytes s, a) # rs) b)
    = (case parse_sockaddr s of None \<Rightarrow> Failed | Some x \<Rightarrow> Found x)"
proof -
  have "text_bytes s \<noteq> []" using assms(2) by (simp add: text_bytes_def)
  then have "recv_into b (text_bytes s) ! 0 \<noteq> 0"
    using text_front [OF assms(1,2)] assms(4) by (simp add: recv_into_hd hd_conv_nth)
  then show ?thesis
    using recv_into_take [of "text_bytes s" b] assms(3,4) from_utf8_text [OF assms(1)]
    by (simp add: Let_def split: option.split)
qed

lemma parse_nul: "parse_sockaddr [char_of (0::nat)] = None"
proof -
  have "no_digit 10 [char_of (0::nat)]" by (simp add: no_digit_def to_digit_def)
  moreover have "read_char CHR ''['' [char_of (0::nat)] = None" by (simp add: read_char_def char_of_def)
  ultimately show ?thesis
    by (simp add: parse_sockaddr_def read_socket_addr_v4_def read_ipv4_def read_octet_def
        read_number_no_digit read_socket_addr_v6_def)
qed

lemma listen_pings:
  assumes "length b = 120"
  shows "\<exists>b'. length b' = 120
    \<and> fst (listen_loop (replicate n (Some ([0], a)) @ rest) b) = fst (listen_loop rest b')"
  using assms
proof (induction n arbitrary: b)
  case (Suc n)
  have "take (min (length [0 :: u8]) (length b)) (recv_into b [0]) = [0]"
    using Suc.prems by (intro recv_into_take) simp
  moreover have "from_utf8 [0] = Some [char_of (0::nat)]" by (simp add: from_utf8_def)
  ultimately have "fst (listen_loop (replicate (Suc n) (Some ([0], a)) @ rest) b)
      = fst (listen_loop (replicate n (Some ([0], a)) @ rest) (recv_into b [0]))"
    by (simp add: Let_def parse_nul split: prod.split)
  with Suc.IH [of "recv_into b [0]"] Suc.prems show ?case by simp
qed auto

lemma listen_text:
  assumes "printable s" and "parse_sockaddr s = Some x" and "length s \<le> 120" and "length b = 120"
  shows "fst (listen_loop (Some (text_bytes s, a) # rs) b) = Found x"
  using recv_into_take [of "text_bytes s" b] assms from_utf8_text [OF assms(1)]
  by (simp add: Let_def)

lemma listen_loop_no_panic: "fst (listen_loop rs b) \<noteq> Panicked"
proof (induction rs arbitrary: b)
  case (Cons r rs)
  show ?case
  proof (cases r)
    case (Some x)
    obtain bs a where "x = (bs, a)" by fastforce
    with Cons.IH [of "recv_into b bs"] Some show ?thesis
      by (auto simp: Let_def split: option.split prod.split)
  qed (use Cons in simp)
qed simp

lemma show_sockaddr_nonempty [simp]: "show_sockaddr a \<noteq> []"
  by (cases a) simp_all

section \<open>Properties of the peer\<close>

text \<open>What arrives at an address of what the server sends, as \<open>recv_from\<close> returns it.\<close>

definition inbox :: "sockaddr \<Rightarrow> sockaddr \<Rightarrow> sends \<Rightarrow> received list" where
  "inbox server x out = map (\<lambda>(bs, _). Some (bs, server)) (filter (\<lambda>(_, a). a = x) out)"

lemma inbox_introduce:
  assumes "host \<noteq> client"
  shows "inbox server client (introduce host client)
      = replicate 5 (Some ([0], server)) @ [Some (text_bytes (show_sockaddr host), server)]"
    and "inbox server host (introduce host client) = [Some (text_bytes (show_sockaddr client), server)]"
  using assms by (auto simp: inbox_def introduce_def numeral_eq_Suc)

text \<open>What client and host find.\<close>

lemma addresses_found:
  assumes "uuid U" and "\<forall>bytes addr. Datagram c bytes addr \<notin> set between"
    and "st = fst (server_run U (before @ [Datagram c (LOBBY_CREATE # bs) host] @ between) Server_new)"
    and "host \<noteq> client"
    and "out = snd (udp_handler U d (LOBBY_JOIN # as_bytes U c) client st)"
  shows "fst (request_host_addr U c server (inbox server client out)) = Found (no_flowinfo host)
    \<and> fst (listen_to_relay U server
        (Some (as_bytes U c, server) # replicate n (Some ([0], server)) @ inbox server host out))
      = Found (no_flowinfo client)"
proof -
  have "hosts st c = Some host" and l: "length (buf st) = 65535"
    using uuid.run_create [OF assms(1,2) refl, of before bs host] by (simp_all add: assms(3))
  with uuid.join_spec [OF assms(1) l, of d c client] have out: "out = introduce host client"
    by (simp add: assms(5))
  have ascii: "printable (show_sockaddr a)" "length (show_sockaddr a) \<le> 120" for a
    by (rule printable_sockaddr, rule length_sockaddr)
  have pb: "length peer_buf = 120" by (simp add: peer_buf_def)
  let ?b = "recv_into peer_buf (as_bytes U c)"
  have "\<forall>r\<in>set (replicate 5 (Some ([0], server))). ping r" by (simp add: ping_def)
  from request_pings [OF this pb, of "[Some (text_bytes (show_sockaddr host), server)]"] obtain b
    where b: "length b = 120"
      and e: "fst (request_loop (inbox server client out) peer_buf)
        = fst (request_loop [Some (text_bytes (show_sockaddr host), server)] b)"
    by (auto simp: out inbox_introduce [OF assms(4)])
  have "fst (request_host_addr U c server (inbox server client out)) = Found (no_flowinfo host)"
    using request_text [OF ascii(1) _ ascii(2) b] e
    by (simp add: request_host_addr_def parse_show_sockaddr split: prod.split del: request_loop.simps)
      (metis fst_conv option.simps(5) parse_show_sockaddr show_sockaddr_nonempty)
  moreover have "length (as_bytes U c) = 16" by (rule uuid.length_bytes [OF assms(1)])
  then have "take (min (length (as_bytes U c)) (length ?b)) ?b = as_bytes U c"
    using recv_into_take [of "as_bytes U c" peer_buf] pb by simp
  then have "fst (listen_to_relay U server
        (Some (as_bytes U c, server) # replicate n (Some ([0], server)) @ inbox server host out))
      = fst (listen_loop (replicate n (Some ([0], server)) @ inbox server host out) ?b)"
    by (simp add: listen_to_relay_def Let_def uuid.from_slice_bytes [OF assms(1)] split: prod.split)
  moreover have "length ?b = 120" by (simp add: pb)
  from listen_pings [OF this, of n server "inbox server host out"] obtain b'
    where "length b' = 120"
      "fst (listen_loop (replicate n (Some ([0], server)) @ inbox server host out) ?b)
        = fst (listen_loop (inbox server host out) b')" by blast
  ultimately show ?thesis
    using listen_text [OF ascii(1) parse_show_sockaddr ascii(2)]
    by (simp add: out inbox_introduce [OF assms(4)] del: listen_loop.simps)
qed

text \<open>Property C12: host and client find each other. When a client sends the join datagram of a code
  the server gave to a host, then from what the server sends it the program in client mode comes to
  punch a hole to the host's address, and the program in host mode, which has the code and any number
  of pings behind it, to the client's (less the flow info of an IPv6 address).\<close>

theorem rendezvous_connects:
  assumes "uuid U" and "\<forall>bytes addr. Datagram c bytes addr \<notin> set between"
    and "st = fst (server_run U (before @ [Datagram c (LOBBY_CREATE # bs) host] @ between) Server_new)"
    and "host \<noteq> client"
    and "out = snd (udp_handler U d (LOBBY_JOIN # as_bytes U c) client st)"
  shows "fst (peer_main U \<lparr>arg_mode = PeerMode, arg_code = Some c, arg_addr = server\<rparr> (inbox server client out))
      = PunchHole (no_flowinfo host)
    \<and> fst (peer_main U \<lparr>arg_mode = HostMode, arg_code = None, arg_addr = server\<rparr>
        (Some (as_bytes U c, server) # replicate n (Some ([0], server)) @ inbox server host out))
      = PunchHole (no_flowinfo client)"
  using addresses_found [OF assms, of server n] by (simp add: peer_main_def)

theorem rendezvous_connects_witness:
  "\<exists>out. out = snd (udp_handler bytes_uuid (9, 9, 9, 9) (LOBBY_JOIN # as_bytes bytes_uuid code1) client_addr1
      (fst (server_run bytes_uuid ([] @ [Datagram code1 (LOBBY_CREATE # []) host_addr1] @ []) Server_new)))
    \<and> fst (peer_main bytes_uuid \<lparr>arg_mode = PeerMode, arg_code = Some code1, arg_addr = client_addr2\<rparr>
        (inbox client_addr2 client_addr1 out)) = PunchHole host_addr1"
proof -
  from rendezvous_connects [OF bytes_uuid_axioms _ refl _ refl, where between = "[]" and before = "[]" and bs = "[]" and c = code1 and host = host_addr1
      and client = client_addr1 and server = client_addr2 and d = "(9, 9, 9, 9)" and n = 3]
  show ?thesis by (simp del: server_run.simps)
qed

text \<open>Property C39: a host panics unless the first datagram it receives is sixteen bytes long, so
  a ping of the server that overtakes its code ends the program, as does any other datagram.\<close>

theorem host_needs_code_first:
  assumes "uuid U"
  shows "fst (listen_to_relay U server (Some (bs, a) # rs)) = Panicked \<longleftrightarrow> length (take 120 bs) \<noteq> 16"
proof -
  let ?read = "take (min (length bs) 120) (recv_into peer_buf bs)"
  have "length ?read = length (take 120 bs)" by (simp add: peer_buf_def min_def)
  then have "from_slice U ?read = None \<longleftrightarrow> length (take 120 bs) \<noteq> 16"
    using uuid.from_slice_length [OF assms, of ?read] by metis
  moreover have "length (recv_into peer_buf bs) = 120" by (simp add: peer_buf_def)
  ultimately show ?thesis
    using listen_loop_no_panic [of rs "recv_into peer_buf bs"]
    by (auto simp: listen_to_relay_def Let_def split: option.split prod.split)
qed

theorem host_needs_code_first_witness:
  "fst (listen_to_relay bytes_uuid host_addr1 [Some ([0], host_addr1)]) = Panicked"
  using host_needs_code_first [OF bytes_uuid_axioms, of host_addr1 "[0]" host_addr1 "[]"] by simp

text \<open>A typed line is printed by the other side exactly as it was typed unless it is
  one of the words the program uses itself: three of them vanish, and typing \<open>GOODBYE\<close> ends the
  other side's program.\<close>

lemma chat_line_delivered:
  assumes "\<forall>c\<in>set m. 0 < (of_char c :: nat) \<and> (of_char c :: nat) < 128" and "m \<noteq> []" and "m \<noteq> ''exit''"
    and "ip_of addr = ip_of peer"
  shows "chat_sender [(m, True)] = ([Data (text_bytes m)], False)
    \<and> chat_receive peer (\<lparr>header = h, payload = Some (text_bytes m)\<rparr>, addr) =
      (if m \<in> {''KEEP_ALIVE'', ''CONNECTED'', ''HOLE_PUNCH''} then Ignore
       else if m = ''GOODBYE'' then ExitProcess else Print m)"
proof -
  have "printable m" using assms(1) by (simp add: printable_def)
  from from_utf8_text [OF this] assms(2-4) show ?thesis by (auto simp: chat_receive_def)
qed

end
