(* ===== verification/PeerChat.thy ===== *)
theory PeerChat
  imports Peer "HOL-Library.Sublist"
begin

text \<open>
  The chat of the peer (\<open>start_chat\<close> in \<open>peer/src/main.rs\<close>) as the tasks and the thread it runs,
  interleaved in any order: the thread that reads lines, the main loop, the keep-alive task, the
  receiver task, the punching task still going on, and the task that empties the channel into
  the reliable UDP layer.
\<close>

section \<open>Trimming\<close>

text \<open>\<open>str::trim\<close> on the bytes of a text: the length of the white space character at the front (0:
  none), and, on the reversed bytes, at the end; the characters are those with Unicode's property
  \<open>White_Space\<close>.\<close>

definition white1 :: "u8 \<Rightarrow> bool" where
  "white1 a \<longleftrightarrow> 9 \<le> a \<and> a \<le> 13 \<or> a = 32"

definition white2 :: "u8 \<Rightarrow> u8 \<Rightarrow> bool" where
  "white2 a b \<longleftrightarrow> a = 0xC2 \<and> (b = 0x85 \<or> b = 0xA0)"

definition white3 :: "u8 \<Rightarrow> u8 \<Rightarrow> u8 \<Rightarrow> bool" where
  "white3 a b c \<longleftrightarrow>
     a = 0xE1 \<and> b = 0x9A \<and> c = 0x80
     \<or> a = 0xE2 \<and> b = 0x80 \<and> (0x80 \<le> c \<and> c \<le> 0x8A \<or> c = 0xA8 \<or> c = 0xA9 \<or> c = 0xAF)
     \<or> a = 0xE2 \<and> b = 0x81 \<and> c = 0x9F
     \<or> a = 0xE3 \<and> b = 0x80 \<and> c = 0x80"

fun white_front :: "u8 list \<Rightarrow> nat" where
  "white_front (a # b # c # bs) =
     (if white1 a then 1 else if white2 a b then 2 else if white3 a b c then 3 else 0)"
| "white_front [a, b] = (if white1 a then 1 else if white2 a b then 2 else 0)"
| "white_front [a] = (if white1 a then 1 else 0)"
| "white_front [] = 0"

fun white_back :: "u8 list \<Rightarrow> nat" where
  "white_back (c # b # a # bs) =
     (if white1 c then 1 else if white2 b c then 2 else if white3 a b c then 3 else 0)"
| "white_back [c, b] = (if white1 c then 1 else if white2 b c then 2 else 0)"
| "white_back [c] = (if white1 c then 1 else 0)"
| "white_back [] = 0"

function strip :: "(u8 list \<Rightarrow> nat) \<Rightarrow> u8 list \<Rightarrow> u8 list" where
  "strip w bs = (if bs = [] \<or> w bs = 0 then bs else strip w (drop (w bs) bs))"
  by auto
termination by (relation "measure (\<lambda>(w, bs). length bs)") auto

declare strip.simps [simp del]

definition trim :: "u8 list \<Rightarrow> u8 list" where
  "trim bs = rev (strip white_back (rev (strip white_front bs)))"

lemma strip_end: "w [] = 0 \<Longrightarrow> w (strip w bs) = 0"
  by (induction w bs rule: strip.induct) (subst strip.simps, auto)

lemma strip_suffix: "\<exists>xs. bs = xs @ strip w bs"
proof (induction w bs rule: strip.induct)
  case (1 w bs)
  show ?case
  proof (cases "bs = [] \<or> w bs = 0")
    case False
    with 1 obtain xs where "drop (w bs) bs = xs @ strip w (drop (w bs) bs)" by auto
    moreover have "bs = take (w bs) bs @ drop (w bs) bs" by simp
    ultimately have "bs = (take (w bs) bs @ xs) @ strip w (drop (w bs) bs)" by (metis append.assoc)
    moreover have "strip w bs = strip w (drop (w bs) bs)" using False by (subst strip.simps) simp
    ultimately show ?thesis by metis
  qed (auto simp: strip.simps)
qed

lemma length_strip: "length (strip w bs) \<le> length bs"
  using strip_suffix [of bs w] by (metis le_add2 length_append)

lemma length_trim: "length (trim bs) \<le> length bs"
  using length_strip [of white_back "rev (strip white_front bs)"] length_strip [of white_front bs]
  by (simp add: trim_def)

lemma strip_pred:
  assumes "P bs" and "\<And>bs. P bs \<Longrightarrow> bs \<noteq> [] \<Longrightarrow> w bs \<noteq> 0 \<Longrightarrow> P (drop (w bs) bs)"
  shows "P (strip w bs)"
  using assms(1)
proof (induction bs rule: length_induct)
  case (1 bs)
  show ?case
  proof (cases "bs = [] \<or> w bs = 0")
    case False
    then have "P (drop (w bs) bs)" "length (drop (w bs) bs) < length bs" using 1(2) assms(2) by auto
    with 1(1) have "P (strip w (drop (w bs) bs))" by blast
    moreover have "strip w bs = strip w (drop (w bs) bs)" using False by (subst strip.simps) simp
    ultimately show ?thesis by simp
  qed (use 1 in \<open>auto simp: strip.simps\<close>)
qed

text \<open>Trimming keeps UTF-8.\<close>

lemma white1_ascii: "white1 a \<Longrightarrow> a < 0x80"
  by (auto simp: white1_def word_less_nat_alt word_le_nat_alt)

lemma utf8_two:
  assumes "0xC2 \<le> a" and "a \<le> 0xDF"
  shows "utf8_valid (a # bs) = (case bs of b # bs \<Rightarrow> cont_byte b \<and> utf8_valid bs | _ \<Rightarrow> False)"
proof -
  have "\<not> a < 0x80" using assms by (simp add: word_less_nat_alt word_le_nat_alt)
  with assms show ?thesis by simp
qed

lemma utf8_three:
  assumes "0xE0 \<le> a" and "a \<le> 0xEF"
  shows "utf8_valid (a # bs) = (case bs of b # c # bs \<Rightarrow>
      cont_byte b \<and> (a = 0xE0 \<longrightarrow> 0xA0 \<le> b) \<and> (a = 0xED \<longrightarrow> b \<le> 0x9F) \<and> cont_byte c \<and> utf8_valid bs
    | _ \<Rightarrow> False)"
proof -
  have "(a < 0x80) = False" "(0xC2 \<le> a \<and> a \<le> 0xDF) = False"
    using assms by (auto simp: word_less_nat_alt word_le_nat_alt)
  then show ?thesis by (simp only: utf8_valid.simps(2) assms if_False if_True simp_thms)
qed

lemma utf8_four:
  assumes "0xF0 \<le> a" and "a \<le> 0xF4"
  shows "utf8_valid (a # bs) = (case bs of b # c # d # bs \<Rightarrow>
      cont_byte b \<and> (a = 0xF0 \<longrightarrow> 0x90 \<le> b) \<and> (a = 0xF4 \<longrightarrow> b \<le> 0x8F)
      \<and> cont_byte c \<and> cont_byte d \<and> utf8_valid bs
    | _ \<Rightarrow> False)"
proof -
  have "(a < 0x80) = False" "(0xC2 \<le> a \<and> a \<le> 0xDF) = False" "(0xE0 \<le> a \<and> a \<le> 0xEF) = False"
    using assms by (auto simp: word_less_nat_alt word_le_nat_alt)
  then show ?thesis by (simp only: utf8_valid.simps(2) assms if_False if_True simp_thms)
qed

lemma utf8_lead:
  assumes "utf8_valid (a # bs)"
  obtains "a < 0x80" | "0xC2 \<le> a" "a \<le> 0xDF" | "0xE0 \<le> a" "a \<le> 0xEF" | "0xF0 \<le> a" "a \<le> 0xF4"
  using assms by (auto split: if_splits)

lemma utf8_one: "a < 0x80 \<Longrightarrow> utf8_valid (a # bs) = utf8_valid bs"
  by simp

lemmas utf8_steps = utf8_one utf8_two utf8_three utf8_four

lemma white_tail:
  "white1 a \<Longrightarrow> utf8_valid (a # bs) = utf8_valid bs"
  "white2 a b \<Longrightarrow> utf8_valid (a # b # bs) \<Longrightarrow> utf8_valid bs"
  "white3 a b c \<Longrightarrow> utf8_valid (a # b # c # bs) \<Longrightarrow> utf8_valid bs"
proof -
  show "white1 a \<Longrightarrow> utf8_valid (a # bs) = utf8_valid bs" by (rule utf8_one) (rule white1_ascii)
  have "0xC2 \<le> a \<and> a \<le> 0xDF" if "white2 a b" using that by (simp add: white2_def)
  then show "white2 a b \<Longrightarrow> utf8_valid (a # b # bs) \<Longrightarrow> utf8_valid bs"
    by (simp only: utf8_two list.case)
  have "0xE0 \<le> a \<and> a \<le> 0xEF" if "white3 a b c" using that by (auto simp: white3_def)
  then show "white3 a b c \<Longrightarrow> utf8_valid (a # b # c # bs) \<Longrightarrow> utf8_valid bs"
    by (simp only: utf8_three list.case)
qed

lemma white_front_valid:
  assumes "utf8_valid bs"
  shows "utf8_valid (drop (white_front bs) bs)"
proof (cases bs rule: white_front.cases)
  case (1 a b c bs')
  with assms white_tail(1) [of a "b # c # bs'"] white_tail(2) [of a b "c # bs'"] white_tail(3) [of a b c bs']
  show ?thesis by (simp del: utf8_valid.simps)
next
  case (2 a b)
  with assms white_tail(1) [of a "[b]"] white_tail(2) [of a b "[]"] show ?thesis by (simp del: utf8_valid.simps(2))
next
  case (3 a)
  with assms show ?thesis by (cases "white1 a") simp_all
qed simp

lemma utf8_valid_prefix:
  assumes "utf8_valid (xs @ b # bs)" and "\<not> cont_byte b"
  shows "utf8_valid xs"
  using assms(1)
proof (induction xs rule: length_induct)
  case (1 xs)
  note IH = 1(1) [rule_format] and valid = 1(2)
  show ?case
  proof (cases xs)
    case (Cons a ys)
    from valid Cons have "utf8_valid (a # ys @ b # bs)" by simp
    then show ?thesis
    proof (cases rule: utf8_lead)
      case 1
      with IH [of ys] valid Cons show ?thesis by simp
    next
      case 2
      with IH valid assms(2) Cons show ?thesis
        by (cases ys) (simp_all add: utf8_steps del: utf8_valid.simps(2))
    next
      case 3
      with IH valid assms(2) Cons show ?thesis
        by (cases ys rule: remdups_adj.cases) (auto simp: utf8_steps simp del: utf8_valid.simps(2) split: list.splits)
    next
      case 4
      with IH valid assms(2) Cons show ?thesis
        by (cases ys rule: white_front.cases) (auto simp: utf8_steps simp del: utf8_valid.simps(2) split: list.splits)
    qed
  qed simp
qed

lemma white_back_valid:
  assumes "utf8_valid (rev bs)"
  shows "utf8_valid (rev (drop (white_back bs) bs))"
proof -
  have n: "\<not> cont_byte b" if "white1 b \<or> b = 0xC2 \<or> b = 0xE1 \<or> b = 0xE2 \<or> b = 0xE3" for b
    using that white1_ascii [of b] by (auto simp: cont_byte_def word_less_nat_alt word_le_nat_alt)
  have w: "\<not> cont_byte b" if "white2 b c \<or> white3 b c d" for b c d
    using that n by (auto simp: white2_def white3_def)
  show ?thesis
  proof (cases bs rule: white_back.cases)
    case (1 c b a bs')
    with assms n [of c] w [of b c] w [of a b c] utf8_valid_prefix [of "rev bs' @ [a, b]" c "[]"]
      utf8_valid_prefix [of "rev bs' @ [a]" b "[c]"] utf8_valid_prefix [of "rev bs'" a "[b, c]"]
    show ?thesis by (simp del: utf8_valid.simps(2))
  next
    case (2 c b)
    with assms n [of c] w [of b c] utf8_valid_prefix [of "[b]" c "[]"] show ?thesis
      by (simp del: utf8_valid.simps(2))
  next
    case (3 c)
    with assms show ?thesis by (cases "white1 c") simp_all
  qed simp
qed

lemma trim_valid:
  assumes "utf8_valid bs"
  shows "utf8_valid (trim bs)"
proof -
  have "utf8_valid (strip white_front bs)"
    using assms white_front_valid by (rule strip_pred)
  then have "utf8_valid (rev (strip white_back (rev (strip white_front bs))))"
    using white_back_valid by (intro strip_pred [where P = "\<lambda>bs. utf8_valid (rev bs)"]) simp_all
  then show ?thesis by (simp add: trim_def)
qed

lemma white_front_append: "white_front xs \<noteq> 0 \<Longrightarrow> white_front (xs @ ys) = white_front xs"
  by (cases xs rule: white_front.cases; cases ys rule: white_front.cases) (auto split: if_splits)

text \<open>No white space is left at either end.\<close>

lemma trim_clean: "white_front (trim bs) = 0" "white_back (rev (trim bs)) = 0"
proof -
  obtain xs where "rev (strip white_front bs) = xs @ strip white_back (rev (strip white_front bs))"
    using strip_suffix by blast
  then have "strip white_front bs = trim bs @ rev xs" unfolding trim_def by (metis rev_append rev_rev_ident)
  with strip_end [of white_front bs] white_front_append [of "trim bs" "rev xs"] show "white_front (trim bs) = 0" by auto
  show "white_back (rev (trim bs)) = 0" by (simp add: trim_def strip_end)
qed

section \<open>The chat\<close>

text \<open>A line as the reader thread passes it on.\<close>

definition line_text :: "u8 list \<Rightarrow> string" where
  "line_text bs = map (\<lambda>b. char_of (unat b)) (trim bs)"

text \<open>The state of \<open>start_chat\<close>. What was ever put into a channel is kept with the number of elements
  taken out; the bounded one has room for \<open>chat_capacity\<close> packets not yet taken, the
  one from the reader thread is unbounded.\<close>

datatype chat_status =
    Chatting
  | Leaving     \<comment> \<open>the main loop has ended; the process ends when \<open>main\<close> has returned\<close>
  | Gone        \<comment> \<open>\<open>main\<close> has returned\<close>
  | Exited      \<comment> \<open>by the receiver task\<close>
  | ChatPanicked

record ChatState =
  c_status :: chat_status
  c_punches :: nat                          \<comment> \<open>attempts left of the punching task\<close>
  c_sent :: "PacketType list"               \<comment> \<open>accepted by the channel to the sending task\<close>
  c_taken :: nat
  c_closed :: bool                          \<comment> \<open>the sending task has ended\<close>
  c_incoming :: "(Packet \<times> sockaddr) list"   \<comment> \<open>delivered, not yet received\<close>
  c_lines :: "string list"                  \<comment> \<open>sent by the reader thread\<close>
  c_handled :: nat
  c_reading :: bool                         \<comment> \<open>the reader thread runs\<close>
  c_screen :: "string list"

definition chat_capacity :: nat where "chat_capacity = 100"

text \<open>\<open>start_chat\<close> begins with what hole punching has put into the channel.\<close>

definition Chat_new :: "nat \<Rightarrow> PacketType list \<Rightarrow> nat \<Rightarrow> ChatState" where
  "Chat_new punches ps taken =
     \<lparr>c_status = Chatting, c_punches = punches, c_sent = ps, c_taken = taken, c_closed = False,
      c_incoming = [], c_lines = [], c_handled = 0, c_reading = True, c_screen = []\<rparr>"

text \<open>\<open>send(..).await\<close> on the bounded channel: an error when the other end is gone, else it waits for
  room.\<close>

datatype send_attempt = Accepted ChatState | NoRoom | NoReceiver

definition chat_send :: "PacketType \<Rightarrow> ChatState \<Rightarrow> send_attempt" where
  "chat_send p st =
     (if c_closed st then NoReceiver
      else if length (c_sent st) - c_taken st < chat_capacity then Accepted (st\<lparr>c_sent := c_sent st @ [p]\<rparr>)
      else NoRoom)"

datatype chat_event =
    PunchTick                              \<comment> \<open>the punching task's next attempt\<close>
  | KeepAliveTick
  | StdinRead "u8 list option"             \<comment> \<open>\<open>read_line\<close>: the bytes read, none at the end of input; or an error\<close>
  | MainTurn                               \<comment> \<open>the main loop's \<open>select!\<close>\<close>
  | ReceiverTurn
  | SenderTake                             \<comment> \<open>the sending task takes a packet\<close>
  | SenderEnd
  | Deliver "Packet \<times> sockaddr"
  | MainReturn

text \<open>A turn of the main loop with the line \<open>m\<close>. A send that waits for room is the turn not yet
  taken.\<close>

definition main_line :: "string \<Rightarrow> ChatState \<Rightarrow> ChatState" where
  "main_line m st =
     (let next = (\<lambda>st. st\<lparr>c_handled := c_handled st + 1\<rparr>)
      in if m = ''exit'' then
           (case chat_send (Data GOODBYE) st of
              Accepted st \<Rightarrow> (next st)\<lparr>c_status := Leaving\<rparr>
            | NoReceiver \<Rightarrow> (next st)\<lparr>c_status := Leaving\<rparr>
            | NoRoom \<Rightarrow> st)
         else if m = [] then next st
         else
           (case chat_send (Data (text_bytes m)) st of
              Accepted st \<Rightarrow> next st
            | NoReceiver \<Rightarrow> (next st)\<lparr>c_status := Leaving\<rparr>
            | NoRoom \<Rightarrow> st))"

fun chat_step :: "sockaddr \<Rightarrow> chat_event \<Rightarrow> ChatState \<Rightarrow> ChatState" where
  "chat_step peer PunchTick st =
     (case c_punches st of
        0 \<Rightarrow> st
      | Suc n \<Rightarrow>
          (case chat_send (Data HOLE_PUNCH) st of
             Accepted st \<Rightarrow> st\<lparr>c_punches := n\<rparr>
           | NoReceiver \<Rightarrow> st\<lparr>c_punches := 0\<rparr>
           | NoRoom \<Rightarrow> st))"
| "chat_step peer KeepAliveTick st =
     (case chat_send (Data KEEP_ALIVE) st of Accepted st \<Rightarrow> st | _ \<Rightarrow> st)"
| "chat_step peer (StdinRead r) st =
     (if \<not> c_reading st then st
      else case r of
             None \<Rightarrow> st\<lparr>c_reading := False\<rparr>
           | Some bs \<Rightarrow>
               if utf8_valid bs \<and> c_status st = Chatting then st\<lparr>c_lines := c_lines st @ [line_text bs]\<rparr>
               else st\<lparr>c_reading := False\<rparr>)"
| "chat_step peer MainTurn st =
     (if c_status st \<noteq> Chatting then st
      else if c_handled st < length (c_lines st) then main_line (c_lines st ! c_handled st) st
      else if c_reading st then st
      else st\<lparr>c_status := ChatPanicked\<rparr>)"
| "chat_step peer ReceiverTurn st =
     (if c_status st \<noteq> Chatting then st
      else case c_incoming st of
             [] \<Rightarrow> st
           | x # xs \<Rightarrow>
               (let st = st\<lparr>c_incoming := xs\<rparr>
                in case chat_receive peer x of
                     Ignore \<Rightarrow> st
                   | ExitProcess \<Rightarrow> st\<lparr>c_status := Exited\<rparr>
                   | Print m \<Rightarrow> st\<lparr>c_screen := c_screen st @ [m]\<rparr>))"
| "chat_step peer SenderTake st =
     (if c_taken st < length (c_sent st) \<and> \<not> c_closed st then st\<lparr>c_taken := c_taken st + 1\<rparr> else st)"
| "chat_step peer SenderEnd st = st\<lparr>c_closed := True\<rparr>"
| "chat_step peer (Deliver x) st = st\<lparr>c_incoming := c_incoming st @ [x]\<rparr>"
| "chat_step peer MainReturn st = (if c_status st = Leaving then st\<lparr>c_status := Gone\<rparr> else st)"

text \<open>While the process lives, anything may happen next.\<close>

fun chat_run :: "sockaddr \<Rightarrow> chat_event list \<Rightarrow> ChatState \<Rightarrow> ChatState" where
  "chat_run peer [] st = st"
| "chat_run peer (ev # evs) st =
     (if c_status st \<in> {Chatting, Leaving} then chat_run peer evs (chat_step peer ev st) else st)"

section \<open>What the chat says\<close>

text \<open>The lines the input has, up to the first that cannot be read.\<close>

fun typed_lines :: "chat_event list \<Rightarrow> string list" where
  "typed_lines [] = []"
| "typed_lines (StdinRead None # evs) = []"
| "typed_lines (StdinRead (Some bs) # evs) = (if utf8_valid bs then line_text bs # typed_lines evs else [])"
| "typed_lines (_ # evs) = typed_lines evs"

text \<open>What is to be said for lines: those that are not empty, up to \<open>exit\<close>, which is a goodbye.\<close>

definition spoken :: "string list \<Rightarrow> string list" where
  "spoken ms = filter (\<lambda>m. m \<noteq> []) (takeWhile (\<lambda>m. m \<noteq> ''exit'') ms)
     @ (if ''exit'' \<in> set ms then [''GOODBYE''] else [])"

definition own_words :: "string set" where
  "own_words = {''KEEP_ALIVE'', ''CONNECTED'', ''HOLE_PUNCH''}"

definition said :: "string list \<Rightarrow> PacketType list" where
  "said = map (\<lambda>m. Data (text_bytes m))"

lemma chat_sender_spoken: "fst (chat_sender (map (\<lambda>m. (m, True)) ms)) = said (spoken ms)"
  by (induction ms) (auto simp: spoken_def said_def GOODBYE_def split: prod.splits)

lemma spoken_snoc:
  assumes "''exit'' \<notin> set ms"
  shows "spoken (ms @ [m]) = spoken ms @ spoken [m]"
proof -
  have "takeWhile (\<lambda>m. m \<noteq> ''exit'') ms = ms" using assms by (intro takeWhile_eq_all_conv [THEN iffD2]) auto
  note * = this
  show ?thesis using assms by (auto simp: spoken_def takeWhile_append *)
qed

abbreviation visible :: "string list \<Rightarrow> string list" where
  "visible \<equiv> filter (\<lambda>m. m \<notin> own_words)"

text \<open>The invariant: up to the program's own words, the channel has been given what the handled lines
  call for, behind what it held at the start; only a refusal can leave something out, and ends
  the loop.\<close>

definition chat_said :: "string list \<Rightarrow> ChatState \<Rightarrow> bool" where
  "chat_said ps st \<longleftrightarrow>
     (\<exists>ms. c_sent st = said (ps @ ms)
        \<and> prefix (visible ms) (visible (spoken (take (c_handled st) (c_lines st))))
        \<and> (c_status st = Chatting \<longrightarrow> visible ms = visible (spoken (take (c_handled st) (c_lines st)))))"

definition chat_inv :: "string list \<Rightarrow> ChatState \<Rightarrow> bool" where
  "chat_inv ps st \<longleftrightarrow>
     chat_said ps st \<and> c_handled st \<le> length (c_lines st)
     \<and> (c_status st = Chatting \<longrightarrow> ''exit'' \<notin> set (take (c_handled st) (c_lines st)))
     \<and> c_taken st \<le> length (c_sent st) \<and> length (c_sent st) \<le> c_taken st + chat_capacity"

lemma chat_inv_new:
  assumes "k \<le> length ps" and "length ps \<le> k + chat_capacity"
  shows "chat_inv ps (Chat_new n (said ps) k)"
  using assms by (auto simp: chat_inv_def chat_said_def Chat_new_def spoken_def said_def intro: exI [of _ "[]"])

lemma chat_send_cases:
  obtains (accepted) "chat_send p st = Accepted (st\<lparr>c_sent := c_sent st @ [p]\<rparr>)" "\<not> c_closed st"
      "length (c_sent st) < c_taken st + chat_capacity"
    | (no_room) "chat_send p st = NoRoom"
    | (no_receiver) "chat_send p st = NoReceiver" "c_closed st"
  by (cases "c_closed st"; cases "length (c_sent st) - c_taken st < chat_capacity") (auto simp: chat_send_def)

text \<open>Sending one of the program's own words.\<close>

lemma chat_inv_own:
  assumes "chat_inv ps st" and "w \<in> own_words" and "length (c_sent st) < c_taken st + chat_capacity"
  shows "chat_inv ps (st\<lparr>c_sent := c_sent st @ [Data (text_bytes w)]\<rparr>)"
proof -
  from assms(1) obtain ms where ms: "c_sent st = said (ps @ ms)"
    "prefix (visible ms) (visible (spoken (take (c_handled st) (c_lines st))))"
    "c_status st = Chatting \<longrightarrow> visible ms = visible (spoken (take (c_handled st) (c_lines st)))"
    by (auto simp: chat_inv_def chat_said_def)
  then have "chat_said ps (st\<lparr>c_sent := c_sent st @ [Data (text_bytes w)]\<rparr>)"
    unfolding chat_said_def using assms(2) by (intro exI [of _ "ms @ [w]"]) (simp add: said_def)
  with assms show ?thesis by (simp add: chat_inv_def)
qed

lemma spoken_take:
  assumes "k < length ls" and "''exit'' \<notin> set (take k ls)"
  shows "spoken (take (Suc k) ls) = spoken (take k ls) @ spoken [ls ! k]"
  unfolding take_Suc_conv_app_nth [OF assms(1)] by (rule spoken_snoc [OF assms(2)])

text \<open>Handling a line: what it calls for is sent, or the loop ends.\<close>

lemma chat_inv_handled:
  assumes inv: "chat_inv ps st" and "c_status st = Chatting" and k: "c_handled st < length (c_lines st)"
    and st': "c_handled st' = Suc (c_handled st)" "c_lines st' = c_lines st" "c_taken st' = c_taken st"
    and out: "c_sent st' = c_sent st @ said xs" "prefix xs (spoken [c_lines st ! c_handled st])"
      "length xs + length (c_sent st) \<le> c_taken st + chat_capacity"
    and run: "c_status st' = Chatting \<Longrightarrow> xs = spoken [c_lines st ! c_handled st] \<and> c_lines st ! c_handled st \<noteq> ''exit''"
  shows "chat_inv ps st'"
proof -
  let ?k = "c_handled st"
  have e: "''exit'' \<notin> set (take ?k (c_lines st))" using inv assms(2) by (simp add: chat_inv_def)
  note sp = spoken_take [OF k e]
  from inv assms(2) obtain ms where ms: "c_sent st = said (ps @ ms)"
    "visible ms = visible (spoken (take ?k (c_lines st)))"
    by (auto simp: chat_inv_def chat_said_def)
  have "chat_said ps st'"
    unfolding chat_said_def st' sp
    using ms out(1) filter_mono_prefix [OF out(2), of "\<lambda>m. m \<notin> own_words"] run
    by (intro exI [of _ "ms @ xs"]) (auto simp: said_def)
  moreover have "''exit'' \<notin> set (take (Suc ?k) (c_lines st))" if "c_status st' = Chatting"
    using e run [OF that] k by (auto simp: take_Suc_conv_app_nth)
  moreover have "length (c_sent st') = length (c_sent st) + length xs" by (simp add: out(1) said_def)
  ultimately show ?thesis using inv out(3) k by (simp add: chat_inv_def st')
qed

lemma chat_inv_line:
  assumes inv: "chat_inv ps st" and c: "c_status st = Chatting" and k: "c_handled st < length (c_lines st)"
  shows "chat_inv ps (main_line (c_lines st ! c_handled st) st)"
proof -
  define m where "m = c_lines st ! c_handled st"
  note h = chat_inv_handled [OF assms, folded m_def]
  have full: "length (c_sent st) \<le> c_taken st + chat_capacity" using inv by (simp add: chat_inv_def)
  consider (quit) "m = ''exit''" | (empty) "m = []" | (line) "m \<noteq> ''exit''" "m \<noteq> []" by blast
  then have "chat_inv ps (main_line m st)"
  proof cases
    case quit
    show ?thesis
    proof (cases rule: chat_send_cases [of "Data GOODBYE" st])
      case accepted
      then show ?thesis
        by (intro h [where xs = "[''GOODBYE'']"]) (simp_all add: main_line_def quit said_def spoken_def GOODBYE_def)
    next
      case no_receiver
      with full show ?thesis by (intro h [where xs = "[]"]) (simp_all add: main_line_def quit said_def)
    qed (simp add: main_line_def quit inv)
  next
    case empty
    with full show ?thesis
      by (intro h [where xs = "[]"]) (simp_all add: main_line_def said_def spoken_def)
  next
    case line
    show ?thesis
    proof (cases rule: chat_send_cases [of "Data (text_bytes m)" st])
      case accepted
      with line show ?thesis
        by (intro h [where xs = "[m]"]) (simp_all add: main_line_def said_def spoken_def)
    next
      case no_receiver
      with full line show ?thesis by (intro h [where xs = "[]"]) (simp_all add: main_line_def said_def)
    qed (simp add: main_line_def line inv)
  qed
  then show ?thesis by (simp add: m_def)
qed

lemma chat_inv_status:
  assumes "chat_inv ps st" and "c_sent st' = c_sent st" "c_handled st' = c_handled st" "c_lines st' = c_lines st"
    "c_taken st' = c_taken st" and "c_status st' = Chatting \<Longrightarrow> c_status st = Chatting"
  shows "chat_inv ps st'"
  using assms unfolding chat_inv_def chat_said_def by metis

lemma chat_inv_step:
  assumes "chat_inv ps st"
  shows "chat_inv ps (chat_step peer ev st)"
proof (cases ev)
  case PunchTick
  have own: "''HOLE_PUNCH'' \<in> own_words" by (simp add: own_words_def)
  show ?thesis
  proof (cases "c_punches st")
    case (Suc n)
    show ?thesis
    proof (cases rule: chat_send_cases [of "Data HOLE_PUNCH" st])
      case accepted
      have "chat_inv ps (st\<lparr>c_sent := c_sent st @ [Data HOLE_PUNCH]\<rparr>)"
        unfolding HOLE_PUNCH_def by (rule chat_inv_own [OF assms own accepted(3)])
      then show ?thesis using accepted Suc PunchTick by (auto elim: chat_inv_status)
    next
      case no_receiver
      then show ?thesis using Suc PunchTick assms by (auto elim: chat_inv_status)
    qed (use Suc PunchTick assms in simp)
  qed (use PunchTick assms in simp)
next
  case KeepAliveTick
  have own: "''KEEP_ALIVE'' \<in> own_words" by (simp add: own_words_def)
  show ?thesis
  proof (cases rule: chat_send_cases [of "Data KEEP_ALIVE" st])
    case accepted
    have "chat_inv ps (st\<lparr>c_sent := c_sent st @ [Data KEEP_ALIVE]\<rparr>)"
      unfolding KEEP_ALIVE_def by (rule chat_inv_own [OF assms own accepted(3)])
    then show ?thesis using accepted KeepAliveTick by simp
  qed (use KeepAliveTick assms in simp_all)
next
  case (StdinRead r)
  have "chat_inv ps (st\<lparr>c_lines := c_lines st @ [m]\<rparr>)" for m
    using assms by (simp add: chat_inv_def chat_said_def)
  moreover have "chat_inv ps (st\<lparr>c_reading := False\<rparr>)" using assms by (auto elim: chat_inv_status)
  ultimately show ?thesis using assms StdinRead by (simp split: option.split)
next
  case MainTurn
  then show ?thesis using assms chat_inv_line [OF assms] by (auto elim: chat_inv_status)
next
  case ReceiverTurn
  then show ?thesis using assms
    by (auto simp: Let_def split: list.split chat_action.split elim: chat_inv_status)
next
  case SenderTake
  then show ?thesis using assms by (auto simp: chat_inv_def chat_said_def)
qed (use assms in \<open>auto elim: chat_inv_status\<close>)

lemma chat_inv_run: "chat_inv ps st \<Longrightarrow> chat_inv ps (chat_run peer evs st)"
  by (induction evs arbitrary: st) (simp_all add: chat_inv_step)

lemma chat_step_lines:
  "c_lines (chat_step peer ev st) = c_lines st \<and> c_reading (chat_step peer ev st) = c_reading st"
  if "\<And>r. ev \<noteq> StdinRead r"
  using that
  by (cases ev)
    (auto simp: main_line_def chat_send_def Let_def split: nat.split list.split chat_action.split send_attempt.split)

lemma chat_run_lines:
  "prefix (c_lines (chat_run peer evs st)) (c_lines st @ (if c_reading st then typed_lines evs else []))"
proof (induction evs arbitrary: st)
  case (Cons ev evs)
  let ?st = "chat_step peer ev st"
  note IH = Cons.IH [of ?st]
  show ?case
  proof (cases "\<exists>r. ev = StdinRead r")
    case False
    then have "typed_lines (ev # evs) = typed_lines evs" by (cases ev) auto
    moreover from False chat_step_lines [of ev peer st] have "c_lines ?st = c_lines st" "c_reading ?st = c_reading st"
      by auto
    ultimately show ?thesis using IH by (cases "c_reading st") simp_all
  next
    case True
    then obtain r where r: "ev = StdinRead r" by blast
    show ?thesis
    proof (cases "c_reading st \<and> (\<exists>bs. r = Some bs \<and> utf8_valid bs \<and> c_status st = Chatting)")
      case True
      with IH r show ?thesis by auto
    next
      case False
      then have s: "c_lines ?st = c_lines st" "\<not> c_reading ?st" using r by (auto split: option.split)
      then have "prefix (c_lines (chat_run peer evs ?st)) (c_lines st)" using IH by simp
      then show ?thesis by (simp only: chat_run.simps(2) split: if_split) (simp add: prefix_prefix)
    qed
  qed
qed simp

text \<open>Every text said can be read back: what was there, the program's own words, and trimmed lines.\<close>

lemma text_bytes_line [simp]: "text_bytes (line_text bs) = trim bs"
proof -
  have "of_char (char_of (unat b) :: char) = b" for b :: u8
    using u8_char [of "char_of (unat b)"] unsigned_less [of b, where ?'a = nat] by (simp add: word_unat_eq_iff)
  then show ?thesis by (simp add: line_text_def text_bytes_def comp_def)
qed

lemma typed_lines_valid: "m \<in> set (typed_lines evs) \<Longrightarrow> utf8_valid (text_bytes m)"
  by (induction evs rule: typed_lines.induct) (auto simp: trim_valid split: if_splits)

lemma chat_run_said:
  assumes "k \<le> length ps" and "length ps \<le> k + chat_capacity"
  shows "\<exists>ms ls. c_sent (chat_run peer evs (Chat_new n (said ps) k)) = said (ps @ ms)
    \<and> prefix ls (typed_lines evs) \<and> prefix (visible ms) (visible (spoken ls))
    \<and> (c_status (chat_run peer evs (Chat_new n (said ps) k)) = Chatting \<longrightarrow> visible ms = visible (spoken ls))"
    (is "\<exists>ms ls. c_sent ?st = _ \<and> _")
proof -
  have inv: "chat_inv ps ?st" by (rule chat_inv_run [OF chat_inv_new [OF assms]])
  have "prefix (c_lines ?st) (typed_lines evs)"
    using chat_run_lines [of peer evs "Chat_new n (said ps) k"] by (simp add: Chat_new_def)
  then have "prefix (take (c_handled ?st) (c_lines ?st)) (typed_lines evs)"
    by (rule prefix_order.trans [OF take_is_prefix])
  with inv show ?thesis unfolding chat_inv_def chat_said_def by blast
qed

text \<open>While the chat goes on and the reader thread reads, no line is lost.\<close>

lemma chat_send_status: "chat_send p st = Accepted st' \<Longrightarrow> c_status st' = c_status st"
  by (auto simp: chat_send_def split: if_splits)

lemma chat_step_chatting: "c_status (chat_step peer ev st) = Chatting \<Longrightarrow> c_status st = Chatting"
proof (cases ev)
  case PunchTick
  then show "c_status (chat_step peer ev st) = Chatting \<Longrightarrow> c_status st = Chatting"
    by (auto simp: chat_send_status split: nat.splits send_attempt.splits)
next
  case KeepAliveTick
  then show "c_status (chat_step peer ev st) = Chatting \<Longrightarrow> c_status st = Chatting"
    by (auto simp: chat_send_status split: send_attempt.splits)
next
  case (StdinRead r)
  then show "c_status (chat_step peer ev st) = Chatting \<Longrightarrow> c_status st = Chatting"
    by (auto split: if_splits option.splits)
qed (auto split: if_splits)

lemma chat_step_reading: "c_reading (chat_step peer ev st) \<Longrightarrow> c_reading st"
proof (cases "\<exists>r. ev = StdinRead r")
  case True
  then show "c_reading (chat_step peer ev st) \<Longrightarrow> c_reading st" by (auto split: if_splits)
qed (use chat_step_lines [of ev peer st] in auto)

lemma chat_run_back:
  "c_status (chat_run peer evs st) = Chatting \<Longrightarrow> c_status st = Chatting"
  "c_reading (chat_run peer evs st) \<Longrightarrow> c_reading st"
  by (induction evs arbitrary: st) (auto dest: chat_step_chatting chat_step_reading split: if_splits)

lemma chat_run_all_lines:
  assumes "c_status (chat_run peer evs st) = Chatting" and "c_reading (chat_run peer evs st)"
  shows "c_lines (chat_run peer evs st) = c_lines st @ typed_lines evs"
  using assms
proof (induction evs arbitrary: st)
  case (Cons ev evs)
  let ?st = "chat_step peer ev st"
  from chat_run_back(1) [OF Cons.prems(1)] have c: "c_status st = Chatting" .
  then have run: "chat_run peer (ev # evs) st = chat_run peer evs ?st" by simp
  with Cons.prems have s: "c_status (chat_run peer evs ?st) = Chatting" "c_reading (chat_run peer evs ?st)"
    by simp_all
  note IH = Cons.IH [OF s]
  show ?case
  proof (cases "\<exists>r. ev = StdinRead r")
    case False
    then have "typed_lines (ev # evs) = typed_lines evs" by (cases ev) auto
    with chat_step_lines [of ev peer st] False IH run show ?thesis by auto
  next
    case True
    then obtain r where r: "ev = StdinRead r" by blast
    with chat_run_back(2) [OF s(2)] obtain bs where "r = Some bs" "utf8_valid bs"
      by (auto split: if_splits option.splits)
    moreover from chat_run_back(2) [OF Cons.prems(2)] have "c_reading st" .
    ultimately show ?thesis using IH run r c by simp
  qed
qed simp

text \<open>A chat still going on, its input handled, has said exactly the lines typed.\<close>

lemma chat_run_says_all:
  assumes "k \<le> length ps" and "length ps \<le> k + chat_capacity"
    and st: "st = chat_run peer evs (Chat_new n (said ps) k)"
    and c: "c_status st = Chatting" and r: "c_reading st" and h: "c_handled st = length (c_lines st)"
  shows "\<exists>ms. c_sent st = said (ps @ ms)
    \<and> visible ms = filter (\<lambda>m. m \<noteq> [] \<and> m \<notin> own_words) (typed_lines evs)"
proof -
  have lines: "c_lines st = typed_lines evs"
    using chat_run_all_lines [of peer evs "Chat_new n (said ps) k"] c r unfolding st by (simp add: Chat_new_def)
  have "chat_inv ps st" unfolding st by (rule chat_inv_run [OF chat_inv_new [OF assms(1,2)]])
  with c h lines obtain ms where ms: "c_sent st = said (ps @ ms)" "visible ms = visible (spoken (typed_lines evs))"
    and e: "''exit'' \<notin> set (typed_lines evs)"
    by (auto simp: chat_inv_def chat_said_def)
  from e have tw: "takeWhile (\<lambda>m. m \<noteq> ''exit'') (typed_lines evs) = typed_lines evs"
    by (auto simp: takeWhile_eq_all_conv)
  with e have "visible (spoken (typed_lines evs)) = filter (\<lambda>m. m \<noteq> [] \<and> m \<notin> own_words) (typed_lines evs)"
    by (simp only: spoken_def tw) (simp add: conj_commute)
  with ms show ?thesis by auto
qed

text \<open>Hole punching leaves only the program's own words in the channel, and few of them: what the chat
  is assumed to begin with is what it does begin with.\<close>

lemma punch_task_said: "\<exists>m. punch_task accepted n = said (replicate m ''HOLE_PUNCH'') \<and> m \<le> n"
proof (induction accepted n rule: punch_task.induct)
  case (3 ok accepted n)
  then show ?case
  proof (cases ok)
    case True
    with 3 obtain m where "punch_task accepted n = said (replicate m ''HOLE_PUNCH'')" "m \<le> n" by blast
    with True show ?thesis by (intro exI [of _ "Suc m"]) (simp add: said_def HOLE_PUNCH_def)
  qed (simp add: said_def)
qed (simp_all add: said_def)

lemma hole_punching_said: "snd (hole_punching_wan rounds) \<in> {[], said [''CONNECTED'']}"
  by (induction rounds rule: hole_punching_wan.induct)
    (auto simp: said_def CONNECTED_def split: option.splits prod.splits)

lemma hole_punching_words:
  assumes "pkts \<in> shuffles (punch_task accepted punch_attempts) (snd (hole_punching_wan rounds))"
  shows "\<exists>ps. pkts = said ps \<and> set ps \<subseteq> own_words \<and> length ps \<le> chat_capacity"
proof -
  from punch_task_said obtain m where m: "punch_task accepted punch_attempts = said (replicate m ''HOLE_PUNCH'')"
    "m \<le> punch_attempts" by blast
  have "set pkts \<subseteq> (\<lambda>w. Data (text_bytes w)) ` own_words"
    using set_shuffles [OF assms] hole_punching_said [of rounds] m(1) by (auto simp: said_def own_words_def)
  then have "pkts \<in> lists ((\<lambda>w. Data (text_bytes w)) ` own_words)" by blast
  then obtain ps where ps: "pkts = said ps" "set ps \<subseteq> own_words"
    unfolding lists_image said_def by (auto simp: lists_eq_set)
  have "length pkts \<le> punch_attempts + 1"
    using length_shuffles [OF assms] hole_punching_said [of rounds] m by (auto simp: said_def)
  with ps show ?thesis by (auto simp: said_def punch_attempts_def chat_capacity_def)
qed

section \<open>Properties of the chat\<close>

abbreviation example_input :: "chat_event list" where
  "example_input \<equiv>
     [KeepAliveTick, StdinRead (Some (text_bytes '' Hi'' @ [10])), SenderTake, MainTurn,
      StdinRead (Some (text_bytes ''exit'' @ [10])), MainTurn]"



text \<open>Property C37: the end of the input is not handled. At end of file the reader thread reads
  nothing, for ever, and hands on an empty line each time, so that the two threads spin, the chat neither
  says anything nor ends; and a read error, as invalid UTF-8 is one, ends the reader thread, whereupon the
  main loop's \<open>select!\<close>, left without a branch, panics.\<close>

theorem input_end_not_handled:
  assumes "c_status st = Chatting" and "c_reading st" and "c_handled st = length (c_lines st)"
    and "r = None \<or> (\<exists>bs. r = Some bs \<and> \<not> utf8_valid bs)"
  shows "chat_run peer (concat (replicate n [StdinRead (Some []), MainTurn])) st
      = st\<lparr>c_lines := c_lines st @ replicate n [], c_handled := c_handled st + n\<rparr>
    \<and> c_status (chat_run peer [StdinRead r, MainTurn] st) = ChatPanicked"
proof
  have e: "line_text [] = []" by (simp add: line_text_def trim_def strip.simps)
  show "chat_run peer (concat (replicate n [StdinRead (Some []), MainTurn])) st
      = st\<lparr>c_lines := c_lines st @ replicate n [], c_handled := c_handled st + n\<rparr>"
    using assms(1-3)
  proof (induction n arbitrary: st)
    case (Suc n)
    let ?st = "st\<lparr>c_lines := c_lines st @ [[]], c_handled := c_handled st + 1\<rparr>"
    have "chat_run peer [StdinRead (Some []), MainTurn] st = ?st"
      using Suc.prems by (simp add: e main_line_def)
    with Suc.IH [of ?st] Suc.prems show ?case by (simp add: e main_line_def)
  qed simp
  show "c_status (chat_run peer [StdinRead r, MainTurn] st) = ChatPanicked"
    using assms by auto
qed

theorem input_end_not_handled_witness:
  "c_sent (chat_run host_addr1 (concat (replicate 1000 [StdinRead (Some []), MainTurn])) (Chat_new 0 [] 0)) = []
   \<and> c_status (chat_run host_addr1 [StdinRead (Some [0xFF]), MainTurn] (Chat_new 0 [] 0)) = ChatPanicked"
proof -
  have "Some [0xFF] = None \<or> (\<exists>bs. Some [0xFF] = Some bs \<and> \<not> utf8_valid bs)" by simp
  from input_end_not_handled [of "Chat_new 0 [] 0", OF _ _ _ this, where peer = host_addr1 and n = 1000]
  show ?thesis by (simp add: Chat_new_def del: chat_run.simps replicate.simps)
qed

text \<open>The goodbye is only put into the channel: the process may end with it still there.\<close>

lemma goodbye_may_be_lost:
  assumes "c_status st = Chatting" and "c_reading st" and "c_handled st = length (c_lines st)"
    and "\<not> c_closed st" and "length (c_sent st) < c_taken st + chat_capacity" and "c_taken st \<le> length (c_sent st)"
  shows "let st' = chat_run peer ([StdinRead (Some (text_bytes ''exit'' @ [10])), MainTurn, MainReturn] @ evs) st
    in c_status st' = Gone \<and> c_sent st' = c_sent st @ [Data GOODBYE] \<and> c_taken st' < length (c_sent st')"
proof -
  have v: "utf8_valid (text_bytes ''exit'' @ [10])" and t: "line_text (text_bytes ''exit'' @ [10]) = ''exit''"
    by code_simp+
  let ?st = "st\<lparr>c_lines := c_lines st @ [''exit''], c_sent := c_sent st @ [Data GOODBYE],
    c_handled := c_handled st + 1, c_status := Gone\<rparr>"
  have "chat_run peer evs ?st = ?st" by (cases evs) simp_all
  moreover have "chat_send (Data GOODBYE) (st\<lparr>c_lines := c_lines st @ [''exit'']\<rparr>)
      = Accepted (st\<lparr>c_lines := c_lines st @ [''exit''], c_sent := c_sent st @ [Data GOODBYE]\<rparr>)"
    using assms by (simp add: chat_send_def less_diff_conv2)
  ultimately have "chat_run peer ([StdinRead (Some (text_bytes ''exit'' @ [10])), MainTurn, MainReturn] @ evs) st = ?st"
    using assms by (simp add: v t main_line_def)
  with assms(6) show ?thesis by (simp add: Let_def)
qed

end
