(* ===== verification/ReliableReceiver.thy ===== *)
theory ReliableReceiver
  imports ReliableUdp
begin

text \<open>
  The receiving task of \<open>common/src/singleconnection.rs\<close>: the wire format's round trips, the
  reorder buffer and its draining, and what the application gets for whatever arrives, proved for
  any hash map that keeps the contract of \<open>dashmap\<close>.
\<close>

section \<open>The wire format\<close>

lemma serialize_bytes:
  "serialize p =
     [ucast (drop_bit 24 (seq (header p))), ucast (drop_bit 16 (seq (header p))),
      ucast (drop_bit 8 (seq (header p))), ucast (seq (header p)),
      ucast (drop_bit 24 (ack (header p))), ucast (drop_bit 16 (ack (header p))),
      ucast (drop_bit 8 (ack (header p))), ucast (ack (header p))]
     @ (case payload p of Some pl \<Rightarrow> pl | None \<Rightarrow> [])"
  by (simp add: serialize_def be32_def)

text \<open>What the wire cannot carry is the difference between no payload and an empty one.\<close>

definition wire_payload :: "u8 list option \<Rightarrow> u8 list option" where
  "wire_payload pl = (if pl = Some [] then None else pl)"

lemma deserialize_serialize:
  "deserialize (serialize p) = Some (p\<lparr>payload := wire_payload (payload p)\<rparr>)"
  by (cases p; cases "header p"; cases "payload p")
    (auto simp: serialize_bytes codec_simps wire_payload_def)

lemma take_serialize:
  "take (8 + n) (serialize p) = serialize (p\<lparr>payload := map_option (take n) (payload p)\<rparr>)"
  by (simp add: serialize_def split: option.split)

lemma length_serialize:
  "length (serialize p) = 8 + (case payload p of Some pl \<Rightarrow> length pl | None \<Rightarrow> 0)"
  by (simp add: serialize_def split: option.split)

lemma deserialize_ack:
  "deserialize (take recv_buf_len (serialize (ack_packet n))) = Some (ack_packet n)"
proof -
  have "take recv_buf_len (serialize (ack_packet n)) = serialize (ack_packet n)"
    by (simp add: recv_buf_len_def length_serialize ack_packet_def)
  then show ?thesis
    by (simp add: deserialize_serialize) (simp add: ack_packet_def wire_payload_def)
qed

lemmas deserialize_ack_fields = deserialize_ack [unfolded ack_packet_def]

lemma deserialize_None: "deserialize b = None \<longleftrightarrow> length b < 8"
  by (cases b rule: deserialize.cases) auto

lemma serialize_deserialize: "deserialize b = Some p \<Longrightarrow> serialize p = b"
  by (cases b rule: deserialize.cases) (auto simp: serialize_def codec_simps)

section \<open>The receiving task\<close>

fun delivered :: "UdpEffect list \<Rightarrow> Packet list" where
  "delivered [] = []"
| "delivered (OutputSend p a # es) = p # delivered es"
| "delivered (_ # es) = delivered es"

lemma delivered_append [simp]: "delivered (xs @ ys) = delivered xs @ delivered ys"
  by (induction xs rule: delivered.induct) auto

lemma delivered_outputs [simp]: "delivered (map (\<lambda>p. OutputSend p a) ps) = ps"
  by (induction ps) auto

text \<open>
  The reorder buffer holds each packet under its own sequence number, and only packets that
  are still ahead of the stream.
\<close>

definition recv_inv :: "('rb \<Rightarrow> u32 \<rightharpoonup> Packet) \<Rightarrow> ('rb, 'ub) SharedState \<Rightarrow> bool" where
  "recv_inv entries st \<longleftrightarrow>
     (\<forall>k p. entries (recv_buffer st) k = Some p \<longrightarrow> seq (header p) = k \<and> expected_sequence st < k)"

definition keyed_from :: "u32 \<Rightarrow> (u32 \<rightharpoonup> Packet) \<Rightarrow> bool" where
  "keyed_from n m \<longleftrightarrow> (\<forall>k p. m k = Some p \<longrightarrow> seq (header p) = k \<and> n \<le> k)"

text \<open>
  \<open>drained n m m' ps\<close>: \<open>ps\<close> is the longest run of consecutive packets of \<open>m\<close> from \<open>n\<close> on, and
  \<open>m'\<close> is \<open>m\<close> without it.
\<close>

definition drained :: "u32 \<Rightarrow> (u32 \<rightharpoonup> Packet) \<Rightarrow> (u32 \<rightharpoonup> Packet) \<Rightarrow> Packet list \<Rightarrow> bool" where
  "drained n m m' ps \<longleftrightarrow>
     map Some ps = map m (seqs_from n (length ps)) \<and>
     m' = m |` (- set (seqs_from n (length ps))) \<and>
     m' (n + of_nat (length ps)) = None"

lemma drained_stop: "m n = None \<Longrightarrow> drained n m m []"
  by (auto simp: drained_def restrict_map_def fun_eq_iff)

lemma drained_step:
  assumes "m n = Some p" and "drained (n + 1) (m(n := None)) m' ps"
    and "n \<notin> set (seqs_from (n + 1) (length ps))"
  shows "drained n m m' (p # ps)"
  using assms
  by (auto simp: drained_def seqs_from_Suc add.assoc restrict_map_def fun_eq_iff cong: map_cong)

lemma drained_seqs:
  assumes "drained n m m' ps" and "keyed_from n m"
  shows "map (\<lambda>p. seq (header p)) ps = seqs_from n (length ps)"
proof (rule nth_equalityI)
  show "length (map (\<lambda>p. seq (header p)) ps) = length (seqs_from n (length ps))" by simp
next
  fix i assume "i < length (map (\<lambda>p. seq (header p)) ps)"
  then have i: "i < length ps" by simp
  from assms(1) have "map Some ps ! i = map m (seqs_from n (length ps)) ! i"
    by (simp add: drained_def)
  with i have "m (seqs_from n (length ps) ! i) = Some (ps ! i)" by simp
  with assms(2) show "map (\<lambda>p. seq (header p)) ps ! i = seqs_from n (length ps) ! i"
    using i by (auto simp: keyed_from_def)
qed

lemma drained_keys:
  assumes "drained n m m' ps" and "keyed_from n m" and "k \<in> set (seqs_from n (length ps))"
  shows "n \<le> k"
proof -
  from assms(3) have "m k \<in> set (map m (seqs_from n (length ps)))" by simp
  also have "\<dots> = set (map Some ps)" using assms(1) by (simp add: drained_def)
  finally have "m k \<in> set (map Some ps)" .
  then obtain p where "m k = Some p" by auto
  with assms(2) show ?thesis by (auto simp: keyed_from_def)
qed

lemma drained_rest:
  assumes d: "drained n m m' ps" and kf: "keyed_from n m" and k: "m' k = Some p"
  shows "seq (header p) = k \<and> n + of_nat (length ps) < k"
proof -
  from d have m': "m' = m |` (- set (seqs_from n (length ps)))"
    and stop: "m' (n + of_nat (length ps)) = None" unfolding drained_def by blast+
  from k m' have mk: "m k = Some p" and notin: "k \<notin> set (seqs_from n (length ps))"
    by (auto simp: restrict_map_def split: if_splits)
  from mk kf have seq: "seq (header p) = k" and "n \<le> k" by (auto simp: keyed_from_def)
  have "n + of_nat i \<le> k" if "i \<le> length ps" for i
    using that
  proof (induction i)
    case 0
    then show ?case using \<open>n \<le> k\<close> by simp
  next
    case (Suc i)
    then have "seqs_from n (length ps) ! i = n + of_nat i" by (simp add: nth_seqs_from)
    with notin Suc.prems have "k \<noteq> n + of_nat i"
      by (metis Suc_le_eq length_seqs_from nth_mem)
    with Suc have "n + of_nat i < k" by (simp add: order.strict_iff_order)
    then show ?case by (auto simp: add_ac dest: word_gt_inc_le)
  qed
  from this [of "length ps"] stop k seq show ?thesis
    by (auto simp: order.strict_iff_order)
qed

lemma keyed_from_remove:
  assumes "keyed_from n m"
  shows "keyed_from (n + 1) (m(n := None))"
  unfolding keyed_from_def
proof (intro allI impI)
  fix k p assume k: "(m(n := None)) k = Some p"
  then have "k \<noteq> n" and "m k = Some p" by (auto split: if_splits)
  with assms have "seq (header p) = k" and "n < k"
    by (auto simp: keyed_from_def order.strict_iff_order)
  then show "seq (header p) = k \<and> n + 1 \<le> k" by (simp add: word_gt_inc_le)
qed

lemma keyed_from_max: "keyed_from (- 1) m \<Longrightarrow> m(- 1 := None) = Map.empty"
proof (rule ext)
  fix k assume kf: "keyed_from (- 1) m"
  show "(m(- 1 := None)) k = None"
  proof (cases "m k")
    case (Some p)
    with kf have "- 1 \<le> k" by (simp add: keyed_from_def)
    then have "k = - 1" by (intro antisym) simp_all
    then show ?thesis by simp
  qed simp
qed

lemma drain_step_apart:
  assumes "drained (n + 1) (m(n := None)) m' ps" and "keyed_from n m"
  shows "n \<notin> set (seqs_from (n + 1) (length ps))"
proof
  assume n: "n \<in> set (seqs_from (n + 1) (length ps))"
  show False
  proof (cases "n = - 1")
    case True
    with assms have "map Some ps = map Map.empty (seqs_from (n + 1) (length ps))"
      by (simp add: drained_def keyed_from_max)
    with n show False by (cases ps) (auto simp: seqs_from_Suc)
  next
    case False
    from drained_keys [OF assms(1) keyed_from_remove [OF assms(2)] n]
    have "n + 1 \<le> n" .
    with word_less_inc [OF False] show False by simp
  qed
qed

text \<open>What a run of the receiving task leaves alone: the fields of the sending task.\<close>

definition sender_frame :: "('rb, 'ub) SharedState \<Rightarrow> ('rb, 'ub) SharedState \<Rightarrow> bool" where
  "sender_frame st st' \<longleftrightarrow>
     next_seq st' = next_seq st \<and> unacked st' = unacked st \<and>
     sender_acknowdgeded st' = sender_acknowdgeded st"

text \<open>
  \<open>advanced st st' out\<close>: the effects deliver exactly the packets numbered from the expected
  sequence number on, and both counters end just behind the last of them.
\<close>

definition advanced ::
  "('rb, 'ub) SharedState \<Rightarrow> ('rb, 'ub) SharedState \<Rightarrow> UdpEffect list \<Rightarrow> bool"
where
  "advanced st st' out \<longleftrightarrow>
     map (\<lambda>p. seq (header p)) (delivered out)
       = seqs_from (expected_sequence st) (length (delivered out)) \<and>
     expected_sequence st' = expected_sequence st + of_nat (length (delivered out)) \<and>
     receiver_acknowledged st' =
       (if delivered out = [] then receiver_acknowledged st else expected_sequence st' - 1) \<and>
     sender_frame st st'"

lemma advanced_refl [simp]: "delivered out = [] \<Longrightarrow> advanced st st out"
  by (simp add: advanced_def sender_frame_def)

lemma advanced_trans:
  "advanced st st' out \<Longrightarrow> advanced st' st'' out' \<Longrightarrow> advanced st st'' (out @ out')"
  by (auto simp: advanced_def sender_frame_def seqs_from_add add_ac)

text \<open>The packets a socket event brings in from the peer, after truncation to the buffer.\<close>

fun arrivals :: "sockaddr \<Rightarrow> SocketEvent \<Rightarrow> Packet set" where
  "arrivals peer RecvErr = {}"
| "arrivals peer (RecvFrom d a) =
     (if a = peer then set_option (deserialize (take recv_buf_len d)) else {})"

locale receiver = dashmap R entries
  for R :: "('rb, u32, Packet) dashmap_ops" and entries :: "'rb \<Rightarrow> u32 \<rightharpoonup> Packet"
begin

text \<open>
  The draining loop ends, delivers exactly the longest consecutive run of the buffer, and
  advances both counters by its length. It panics only at the last sequence number.
\<close>

lemma drain_spec:
  fixes st :: "('rb, 'ub) SharedState"
  assumes "keyed_from n (entries (recv_buffer st))"
  shows "\<exists>t st' ps. drain R oc addr n st out = Some (t, st', out @ map (\<lambda>p. OutputSend p addr) ps)
    \<and> drained n (entries (recv_buffer st)) (entries (recv_buffer st')) ps
    \<and> expected_sequence st' = expected_sequence st + of_nat (length ps)
    \<and> receiver_acknowledged st' = receiver_acknowledged st + of_nat (length ps)
    \<and> sender_frame st st'
    \<and> (t = Panicked \<longrightarrow> oc \<and> ps \<noteq> [] \<and> n + of_nat (length ps) = 0)"
  using assms
proof (induction "card (dom (entries (recv_buffer st)))" arbitrary: n st out rule: less_induct)
  case less
  let ?m = "entries (recv_buffer st)"
  show ?case
  proof (cases "?m n")
    case None
    from remove_absent [of "recv_buffer st" n, OF None] obtain m'
      where "dm_remove R n (recv_buffer st) = (None, m')" and "entries m' = ?m" by blast
    with None show ?thesis
      by (intro exI [of _ Running] exI [of _ "st\<lparr>recv_buffer := m'\<rparr>"] exI [of _ "[]"])
        (simp add: drain.simps drained_stop sender_frame_def)
  next
    case (Some p)
    from remove_present [of "recv_buffer st" n, OF Some] obtain m'
      where rm: "dm_remove R n (recv_buffer st) = (Some (n, p), m')"
        and m': "entries m' = ?m(n := None)" by blast
    let ?st = "st\<lparr>recv_buffer := m', receiver_acknowledged := receiver_acknowledged st + 1,
      expected_sequence := expected_sequence st + 1\<rparr>"
    show ?thesis
    proof (cases "plus_oc oc n 1")
      case None
      then have oc: "oc" and n: "n = - 1" by (auto simp: plus_oc_inc_None)
      have "(?m(n := None)) 0 = None"
        using less.prems n Some by (cases "?m 0") (force simp: keyed_from_def)+
      then have "drained n ?m (entries m') [p]"
        using Some m' n by (auto simp: drained_def seqs_from_Suc restrict_map_def fun_eq_iff)
      then show ?thesis using None rm oc n
        by (intro exI [of _ Panicked] exI [of _ ?st] exI [of _ "[p]"])
          (simp add: drain.simps sender_frame_def)
    next
      case inc: (Some n1)
      then have n1: "n1 = n + 1" by (rule plus_oc_Some)
      have card: "card (dom (entries (recv_buffer ?st))) < card (dom ?m)"
        using card_remove [OF Some] by (simp add: m')
      have kf: "keyed_from n1 (entries (recv_buffer ?st))"
        using keyed_from_remove [OF less.prems] by (simp add: m' n1)
      from less.hyps [OF card kf, of "out @ [OutputSend p addr]"] obtain t st' ps
        where d: "drain R oc addr n1 ?st (out @ [OutputSend p addr]) =
            Some (t, st', (out @ [OutputSend p addr]) @ map (\<lambda>p. OutputSend p addr) ps)"
          and dr: "drained n1 (entries m') (entries (recv_buffer st')) ps"
          and e: "expected_sequence st' = expected_sequence ?st + of_nat (length ps)"
          and r: "receiver_acknowledged st' = receiver_acknowledged ?st + of_nat (length ps)"
          and f: "sender_frame ?st st'"
          and p: "t = Panicked \<longrightarrow> oc \<and> ps \<noteq> [] \<and> n1 + of_nat (length ps) = 0"
        by auto
      have "n \<notin> set (seqs_from n1 (length ps))"
        using drain_step_apart [OF _ less.prems, of "entries (recv_buffer st')" ps] dr
        by (simp add: m' n1)
      then have "drained n ?m (entries (recv_buffer st')) (p # ps)"
        using drained_step [where m = ?m and n = n and p = p, OF Some] dr by (simp add: m' n1)
      moreover have "drain R oc addr n st out =
          Some (t, st', out @ map (\<lambda>p. OutputSend p addr) (p # ps))"
        using rm inc d by (subst drain.simps) (simp add: Let_def)
      ultimately show ?thesis using e r f p
        by (intro exI [of _ t] exI [of _ st'] exI [of _ "p # ps"])
          (auto simp: sender_frame_def n1 add_ac)
    qed
  qed
qed


lemma recv_inv_keyed: "recv_inv entries st \<Longrightarrow> keyed_from (expected_sequence st + 1) (entries (recv_buffer st))"
  by (auto simp: recv_inv_def keyed_from_def intro: word_gt_inc_le)

lemma recv_equal_spec:
  fixes st :: "('rb, 'ub) SharedState"
  assumes inv: "recv_inv entries st" and eq: "seq (header p) = expected_sequence st"
  shows "\<exists>t st' ps. recv_equal R oc addr p st = Some (t, st',
        [OutputSend p addr, AckSend \<lparr>ack_num = seq (header p), ack_peer = addr\<rparr>]
          @ map (\<lambda>p. OutputSend p addr) ps)
    \<and> recv_inv entries st'
    \<and> map (\<lambda>p. seq (header p)) (p # ps) = seqs_from (expected_sequence st) (Suc (length ps))
    \<and> map Some ps = map (entries (recv_buffer st)) (seqs_from (expected_sequence st + 1) (length ps))
    \<and> entries (recv_buffer st') =
        entries (recv_buffer st) |` (- set (seqs_from (expected_sequence st + 1) (length ps)))
    \<and> expected_sequence st' = expected_sequence st + of_nat (Suc (length ps))
    \<and> receiver_acknowledged st' = expected_sequence st' - 1
    \<and> sender_frame st st'
    \<and> (t = Panicked \<longrightarrow> oc \<and> expected_sequence st' = 0)"
proof -
  let ?e = "expected_sequence st" and ?m = "entries (recv_buffer st)"
  let ?out = "[OutputSend p addr, AckSend \<lparr>ack_num = seq (header p), ack_peer = addr\<rparr>]"
  let ?st = "st\<lparr>expected_sequence := ?e + 1, receiver_acknowledged := ?e\<rparr>"
  note kf = recv_inv_keyed [OF inv]
  show ?thesis
  proof (cases "plus_oc oc ?e 1")
    case None
    then have oc: "oc" and e: "?e = - 1" by (auto simp: plus_oc_inc_None)
    from inv e have "?m = Map.empty"
      by (auto simp: recv_inv_def fun_eq_iff)
    then have "recv_inv entries ?st" by (simp add: recv_inv_def)
    with None oc e eq \<open>?m = Map.empty\<close> show ?thesis
      by (intro exI [of _ Panicked] exI [of _ ?st] exI [of _ "[]"])
        (simp add: recv_equal_def sender_frame_def seqs_from_Suc)
  next
    case (Some n)
    then have n: "n = ?e + 1" by (rule plus_oc_Some)
    have "keyed_from n (entries (recv_buffer ?st))" using kf n by simp
    from drain_spec [OF this, of oc addr ?out] obtain t st' ps
      where d: "drain R oc addr n ?st ?out =
          Some (t, st', ?out @ map (\<lambda>p. OutputSend p addr) ps)"
        and dr: "drained n ?m (entries (recv_buffer st')) ps"
        and x: "expected_sequence st' = expected_sequence ?st + of_nat (length ps)"
        and r: "receiver_acknowledged st' = receiver_acknowledged ?st + of_nat (length ps)"
        and f: "sender_frame ?st st'"
        and p: "t = Panicked \<longrightarrow> oc \<and> ps \<noteq> [] \<and> n + of_nat (length ps) = 0"
      by auto
    have "recv_inv entries st'"
      using drained_rest [OF dr kf [folded n]] x by (auto simp: recv_inv_def n)
    moreover have "map (\<lambda>p. seq (header p)) (p # ps) = seqs_from ?e (Suc (length ps))"
      using drained_seqs [OF dr kf [folded n]] eq by (simp add: seqs_from_Suc n)
    moreover have "recv_equal R oc addr p st =
        Some (t, st', ?out @ map (\<lambda>p. OutputSend p addr) ps)"
      using Some d eq by (simp add: recv_equal_def)
    moreover from dr have "map Some ps = map ?m (seqs_from (?e + 1) (length ps))"
      "entries (recv_buffer st') = ?m |` (- set (seqs_from (?e + 1) (length ps)))"
      by (simp_all add: drained_def n)
    ultimately show ?thesis using x r f p n
      by (intro exI [of _ t] exI [of _ st'] exI [of _ ps])
        (auto simp: sender_frame_def algebra_simps)
  qed
qed


lemma recv_packet_spec:
  fixes st :: "('rb, 'ub) SharedState"
  assumes inv: "recv_inv entries st"
  shows "\<exists>t st' out. recv_packet R oc addr p st = Some (t, st', out)
    \<and> recv_inv entries st' \<and> advanced st st' out
    \<and> set (delivered out) \<union> ran (entries (recv_buffer st')) \<subseteq> insert p (ran (entries (recv_buffer st)))
    \<and> (t = Panicked \<longrightarrow> oc \<and> expected_sequence st' = 0)"
proof -
  consider (eq) "seq (header p) = expected_sequence st"
    | (gt) "expected_sequence st < seq (header p)" "seq (header p) \<noteq> expected_sequence st"
    | (lt) "seq (header p) \<noteq> expected_sequence st" "\<not> expected_sequence st < seq (header p)"
    by auto
  then show ?thesis
  proof cases
    case eq
    from recv_equal_spec [OF inv eq, of oc addr] obtain t st' ps
      where r: "recv_equal R oc addr p st = Some (t, st',
          [OutputSend p addr, AckSend \<lparr>ack_num = seq (header p), ack_peer = addr\<rparr>]
            @ map (\<lambda>p. OutputSend p addr) ps)"
        and i: "recv_inv entries st'"
        and q: "map (\<lambda>p. seq (header p)) (p # ps)
          = seqs_from (expected_sequence st) (Suc (length ps))"
        and c: "map Some ps = map (entries (recv_buffer st)) (seqs_from (expected_sequence st + 1) (length ps))"
        and b: "entries (recv_buffer st') = entries (recv_buffer st) |`
            (- set (seqs_from (expected_sequence st + 1) (length ps)))"
        and x: "expected_sequence st' = expected_sequence st + of_nat (Suc (length ps))"
          "receiver_acknowledged st' = expected_sequence st' - 1" "sender_frame st st'"
        and p: "t = Panicked \<longrightarrow> oc \<and> expected_sequence st' = 0"
      by blast
    have "Some ` set ps \<subseteq> range (entries (recv_buffer st))"
      using arg_cong [OF c, of set] by auto
    then have "set ps \<subseteq> ran (entries (recv_buffer st))"
      by (force simp: ran_def image_iff)
    moreover have "ran (entries (recv_buffer st')) \<subseteq> ran (entries (recv_buffer st))"
      by (auto simp: b ran_def restrict_map_def split: if_splits)
    ultimately show ?thesis using eq r i q x p
      by (auto simp: recv_packet_def advanced_def)
  next
    case gt
    let ?st = "st\<lparr>recv_buffer := dm_insert R (seq (header p)) p (recv_buffer st)\<rparr>"
    have "recv_inv entries ?st"
      using inv gt by (auto simp: recv_inv_def entries_insert)
    moreover have "ran (entries (recv_buffer ?st)) \<subseteq> insert p (ran (entries (recv_buffer st)))"
      by (auto simp: entries_insert ran_def split: if_splits)
    ultimately show ?thesis using gt
      by (simp add: recv_packet_def recv_greater_def Let_def advanced_def sender_frame_def)
  next
    case lt
    then show ?thesis using inv
      by (auto simp: recv_packet_def recv_less_def)
  qed
qed

lemma recv_step_spec:
  fixes st :: "('rb, 'ub) SharedState"
  assumes inv: "recv_inv entries st"
  shows "\<exists>t st' out. recv_step R oc peer st ev = Some (t, st', out)
    \<and> recv_inv entries st' \<and> advanced st st' out
    \<and> set (delivered out) \<union> ran (entries (recv_buffer st'))
        \<subseteq> arrivals peer ev \<union> ran (entries (recv_buffer st))
    \<and> (t = Panicked \<longrightarrow> oc \<and> expected_sequence st' = 0)"
proof (cases ev)
  case RecvErr
  then show ?thesis using inv by simp
next
  case (RecvFrom d a)
  show ?thesis
  proof (cases "a = peer")
    case True
    show ?thesis
    proof (cases "deserialize (take recv_buf_len d)")
      case None
      then show ?thesis using inv RecvFrom True by simp
    next
      case (Some p)
      then show ?thesis using recv_packet_spec [OF inv, of oc peer p] RecvFrom True by simp
    qed
  qed (use inv RecvFrom in simp)
qed

text \<open>Any run of the receiving task, over any datagrams from anywhere.\<close>

lemma recv_spec:
  fixes st :: "('rb, 'ub) SharedState"
  assumes "recv_inv entries st"
  shows "\<exists>t st' out. recv R oc peer st evs = Some (t, st', out)
    \<and> recv_inv entries st' \<and> advanced st st' out
    \<and> set (delivered out) \<union> ran (entries (recv_buffer st'))
        \<subseteq> (\<Union>ev\<in>set evs. arrivals peer ev) \<union> ran (entries (recv_buffer st))
    \<and> (t = Panicked \<longrightarrow> oc \<and> expected_sequence st' = 0)"
  using assms
proof (induction evs arbitrary: st)
  case Nil
  then show ?case by simp
next
  case (Cons ev evs)
  from recv_step_spec [OF Cons.prems, of oc peer ev] obtain t st1 out1
    where s: "recv_step R oc peer st ev = Some (t, st1, out1)"
      and i: "recv_inv entries st1" and a: "advanced st st1 out1"
      and c: "set (delivered out1) \<union> ran (entries (recv_buffer st1))
        \<subseteq> arrivals peer ev \<union> ran (entries (recv_buffer st))"
      and p: "t = Panicked \<longrightarrow> oc \<and> expected_sequence st1 = 0"
    by blast
  show ?case
  proof (cases t)
    case Panicked
    then show ?thesis using s i a c p by auto
  next
    case Running
    from Cons.IH [OF i] obtain t' st2 out2
      where r: "recv R oc peer st1 evs = Some (t', st2, out2)"
        and i2: "recv_inv entries st2" and a2: "advanced st1 st2 out2"
        and c2: "set (delivered out2) \<union> ran (entries (recv_buffer st2))
          \<subseteq> (\<Union>ev\<in>set evs. arrivals peer ev) \<union> ran (entries (recv_buffer st1))"
        and p2: "t' = Panicked \<longrightarrow> oc \<and> expected_sequence st2 = 0"
      by blast
    from Running s r have "recv R oc peer st (ev # evs) = Some (t', st2, out1 @ out2)" by simp
    moreover have "set (delivered (out1 @ out2)) \<union> ran (entries (recv_buffer st2))
        \<subseteq> (\<Union>ev\<in>set (ev # evs). arrivals peer ev) \<union> ran (entries (recv_buffer st))"
      using c c2 by auto
    ultimately show ?thesis using i2 advanced_trans [OF a a2] p2 by blast
  qed
qed

end

definition covers ::
  "('rb \<Rightarrow> u32 \<rightharpoonup> Packet) \<Rightarrow> ('rb, 'ub) SharedState \<Rightarrow> u32 set \<Rightarrow> bool"
where
  "covers entries st A \<longleftrightarrow>
     (\<forall>k\<in>A. k < expected_sequence st \<or> k \<in> dom (entries (recv_buffer st)))"

context receiver
begin

text \<open>No packet is lost: what has arrived is either delivered or waiting in the buffer.\<close>

lemma recv_packet_covers:
  fixes st :: "('rb, 'ub) SharedState"
  assumes inv: "recv_inv entries st" and cov: "covers entries st A"
    and nomax: "seq (header p) \<noteq> - 1" "- 1 \<notin> dom (entries (recv_buffer st))"
  shows "\<exists>st' out. recv_packet R oc addr p st = Some (Running, st', out)
    \<and> recv_inv entries st' \<and> covers entries st' (insert (seq (header p)) A)
    \<and> - 1 \<notin> dom (entries (recv_buffer st'))"
proof -
  let ?e = "expected_sequence st" and ?m = "entries (recv_buffer st)"
  consider (eq) "seq (header p) = ?e"
    | (gt) "?e < seq (header p)" "seq (header p) \<noteq> ?e"
    | (lt) "seq (header p) \<noteq> ?e" "\<not> ?e < seq (header p)"
    by auto
  then show ?thesis
  proof cases
    case eq
    from recv_equal_spec [OF inv eq, of oc addr] obtain t st' ps out
      where r: "recv_equal R oc addr p st = Some (t, st', out)"
        and i: "recv_inv entries st'"
        and c: "map Some ps = map ?m (seqs_from (?e + 1) (length ps))"
        and b: "entries (recv_buffer st') = ?m |` (- set (seqs_from (?e + 1) (length ps)))"
        and x: "expected_sequence st' = ?e + of_nat (Suc (length ps))"
        and p: "t = Panicked \<longrightarrow> expected_sequence st' = 0"
      by blast
    have "?m k \<noteq> None" if "k \<in> set (seqs_from (?e + 1) (length ps))" for k
      using arg_cong [OF c, of set] that by (auto simp: image_iff)
    with nomax eq have "- 1 \<notin> set (seqs_from ?e (Suc (length ps)))"
      by (auto simp: seqs_from_Suc)
    from seqs_from_no_wrap [OF this] x
    have le: "?e \<le> expected_sequence st'"
      and s: "insert ?e (set (seqs_from (?e + 1) (length ps)))
        = {k. ?e \<le> k \<and> k < expected_sequence st'}"
      by (auto simp: seqs_from_Suc)
    from s have lt: "?e < expected_sequence st'" by blast
    then have "t = Running" using p by (cases t) auto
    moreover have "covers entries st' (insert (seq (header p)) A)"
      using cov lt s eq unfolding covers_def b
      by (auto simp: restrict_map_def dom_def)
    moreover have "- 1 \<notin> dom (entries (recv_buffer st'))"
      using nomax by (auto simp: b restrict_map_def split: if_splits)
    ultimately show ?thesis using r i eq by (simp add: recv_packet_def)
  next
    case gt
    then show ?thesis using inv cov nomax
      by (auto simp: recv_packet_def recv_greater_def Let_def recv_inv_def covers_def entries_insert)
  next
    case lt
    then show ?thesis using inv cov nomax
      by (auto simp: recv_packet_def recv_less_def covers_def not_less)
  qed
qed

lemma recv_covers:
  fixes st :: "('rb, 'ub) SharedState"
  assumes "recv_inv entries st" and "covers entries st A"
    and "- 1 \<notin> dom (entries (recv_buffer st))"
    and "- 1 \<notin> (\<lambda>p. seq (header p)) ` (\<Union>ev\<in>set evs. arrivals peer ev)"
  shows "\<exists>st' out. recv R oc peer st evs = Some (Running, st', out) \<and> recv_inv entries st'
    \<and> covers entries st' (A \<union> (\<lambda>p. seq (header p)) ` (\<Union>ev\<in>set evs. arrivals peer ev))"
  using assms
proof (induction evs arbitrary: st A)
  case Nil
  then show ?case by simp
next
  case (Cons ev evs)
  let ?seqs = "\<lambda>X. (\<lambda>p. seq (header p)) ` X"
  have "\<exists>st1 out1. recv_step R oc peer st ev = Some (Running, st1, out1) \<and> recv_inv entries st1
    \<and> covers entries st1 (A \<union> ?seqs (arrivals peer ev)) \<and> - 1 \<notin> dom (entries (recv_buffer st1))"
  proof (cases ev)
    case RecvErr
    then show ?thesis using Cons.prems by simp
  next
    case (RecvFrom d a)
    show ?thesis
    proof (cases "a = peer \<and> deserialize (take recv_buf_len d) \<noteq> None")
      case True
      then obtain p where p: "a = peer" "deserialize (take recv_buf_len d) = Some p" by auto
      then have "seq (header p) \<noteq> - 1" using Cons.prems(4) RecvFrom by auto
      from recv_packet_covers [OF Cons.prems(1,2) this Cons.prems(3), of oc peer]
      show ?thesis using RecvFrom p by simp
    next
      case False
      then show ?thesis using Cons.prems RecvFrom by auto
    qed
  qed
  then obtain st1 out1
    where s: "recv_step R oc peer st ev = Some (Running, st1, out1)"
      and i: "recv_inv entries st1" and c: "covers entries st1 (A \<union> ?seqs (arrivals peer ev))"
      and n: "- 1 \<notin> dom (entries (recv_buffer st1))"
    by blast
  have "- 1 \<notin> ?seqs (\<Union>ev\<in>set evs. arrivals peer ev)" using Cons.prems(4) by auto
  from Cons.IH [OF i c n this] s show ?case
    by (auto simp: image_Un Un_assoc)
qed

lemma new_state:
  "recv_inv entries (SharedState_new R U)" "entries (recv_buffer (SharedState_new R U)) = Map.empty"
  "expected_sequence (SharedState_new R U) = 0" "receiver_acknowledged (SharedState_new R U) = 0"
  by (simp_all add: recv_inv_def SharedState_new_def entries_new)


lemma recv_new:
  "\<exists>t st out. recv R oc peer (SharedState_new R U) evs = Some (t, st, out)
    \<and> map (\<lambda>p. seq (header p)) (delivered out) = seqs_from 0 (length (delivered out))
    \<and> expected_sequence st = of_nat (length (delivered out))
    \<and> set (delivered out) \<subseteq> (\<Union>ev\<in>set evs. arrivals peer ev)"
  using recv_spec [OF new_state(1) [of U], of oc peer evs]
  by (fastforce simp: advanced_def new_state)

lemma recv_new_complete:
  assumes nomax: "- 1 \<notin> (\<lambda>p. seq (header p)) ` (\<Union>ev\<in>set evs. arrivals peer ev)"
  shows "\<exists>st out. recv R oc peer (SharedState_new R U) evs = Some (Running, st, out)
    \<and> map (\<lambda>p. seq (header p)) (delivered out) = seqs_from 0 (length (delivered out))
    \<and> {k. k < expected_sequence st} = (\<lambda>p. seq (header p)) ` set (delivered out)
    \<and> {k. k < expected_sequence st} \<subseteq> (\<lambda>p. seq (header p)) ` (\<Union>ev\<in>set evs. arrivals peer ev)
    \<and> expected_sequence st \<notin> (\<lambda>p. seq (header p)) ` (\<Union>ev\<in>set evs. arrivals peer ev)"
proof -
  let ?seqs = "(\<lambda>p. seq (header p)) ` (\<Union>ev\<in>set evs. arrivals peer ev)"
  have "covers entries (SharedState_new R U) {}" by (simp add: covers_def)
  moreover have "- 1 \<notin> dom (entries (recv_buffer (SharedState_new R U)))"
    by (simp add: new_state)
  ultimately obtain st out
    where r: "recv R oc peer (SharedState_new R U) evs = Some (Running, st, out)"
      and i: "recv_inv entries st" and c: "covers entries st ?seqs"
    using recv_covers [OF new_state(1) _ _ nomax, where oc = oc and A = "{}"]
    by (metis Un_empty_left)
  from recv_new [of oc peer U evs] r
  have s: "map (\<lambda>p. seq (header p)) (delivered out) = seqs_from 0 (length (delivered out))"
    and x: "expected_sequence st = of_nat (length (delivered out))"
    and a: "set (delivered out) \<subseteq> (\<Union>ev\<in>set evs. arrivals peer ev)"
    by auto
  from arg_cong [OF s, of set] have im: "(\<lambda>p. seq (header p)) ` set (delivered out)
      = set (seqs_from 0 (length (delivered out)))" by simp
  with a nomax have "- 1 \<notin> set (seqs_from 0 (length (delivered out)))" by (metis image_mono subsetD)
  from seqs_from_no_wrap [OF this] im x
  have "{k. k < expected_sequence st} = (\<lambda>p. seq (header p)) ` set (delivered out)" by simp
  moreover from this a have "{k. k < expected_sequence st} \<subseteq> ?seqs"
    by (simp only: image_mono)
  moreover have "expected_sequence st \<notin> ?seqs"
    using c i unfolding covers_def recv_inv_def by (metis domD less_irrefl)
  ultimately show ?thesis using r s by blast
qed

lemma recv_new_stuck:
  assumes "0 \<notin> (\<lambda>p. seq (header p)) ` (\<Union>ev\<in>set evs. arrivals peer ev)"
  shows "\<exists>t st out. recv R oc peer (SharedState_new R U) evs = Some (t, st, out)
    \<and> delivered out = []"
proof -
  from recv_new [of oc peer U evs] obtain t st out
    where r: "recv R oc peer (SharedState_new R U) evs = Some (t, st, out)"
      and s: "map (\<lambda>p. seq (header p)) (delivered out) = seqs_from 0 (length (delivered out))"
      and a: "set (delivered out) \<subseteq> (\<Union>ev\<in>set evs. arrivals peer ev)"
    by blast
  have "delivered out = []"
  proof (cases "delivered out")
    case (Cons p ps)
    with s have "seq (header p) = 0" by (simp add: seqs_from_Suc)
    with a assms Cons show ?thesis by (auto simp: image_iff)
  qed simp
  with r show ?thesis by blast
qed

end

section \<open>Properties of the wire format\<close>

text \<open>Property C23: decoding an encoded packet gives the packet back, except that an empty
  payload comes back as no payload (the wire does not distinguish the two).\<close>

theorem wire_round_trip:
  "deserialize (serialize p) = Some (p\<lparr>payload := wire_payload (payload p)\<rparr>)"
  by (rule deserialize_serialize)

text \<open>The decoder accepts exactly the datagrams of at least eight bytes, and what
  it accepts is re-encoded byte for byte.\<close>

lemma deserialize_exact:
  "(\<exists>p. deserialize b = Some p \<and> serialize p = b) \<longleftrightarrow> 8 \<le> length b"
  using deserialize_None [of b] serialize_deserialize [of b]
  by (cases "deserialize b") auto

text \<open>A datagram whose payload is longer than the receive buffer leaves room for
  (6592 bytes) is accepted and delivered with its tail cut off, without any error.\<close>

lemma long_payload_truncated:
  assumes "payload p = Some pl"
  shows "deserialize (take recv_buf_len (serialize p)) =
    Some (p\<lparr>payload := wire_payload (Some (take 6592 pl))\<rparr>)"
  using assms take_serialize [of 6592 p] by (simp add: recv_buf_len_def deserialize_serialize)

section \<open>Properties of the receiving task\<close>

definition example_peer :: sockaddr where
  "example_peer = ip4 203 0 113 7 4000"

definition example_data :: "u32 \<Rightarrow> u8 list \<Rightarrow> SocketEvent" where
  "example_data s pl =
     RecvFrom (serialize \<lparr>header = \<lparr>seq = s, ack = 0\<rparr>, payload = Some pl\<rparr>) example_peer"

definition example_ack :: "u32 \<Rightarrow> SocketEvent" where
  "example_ack n = RecvFrom (serialize (ack_packet n)) example_peer"

abbreviation example_start ::
  "((u32 \<times> Packet) list, (u32 \<times> SentPacket) list) SharedState"
where
  "example_start \<equiv> SharedState_new alist_ops alist_ops"

lemmas recv_eval =
  example_data_def example_ack_def SharedState_new_def alist_ops_def
  serialize_def deserialize.simps ack_packet_def recv_buf_len_def be32_def codec_simps
  recv_packet_def recv_equal_def recv_greater_def recv_less_def drain.simps plus_oc_def Let_def
  of_be32_def

text \<open>Property C14: whatever datagrams arrive, from whomever and in whatever order, the receiving
  task never loops forever, hands the application packets of the peer only, and hands them over
  in order: numbered 0, 1, 2, \<dots> without a gap or a repetition.\<close>

theorem recv_in_order:
  assumes "dashmap R entries"
  shows "\<exists>t st out. recv R oc peer (SharedState_new R U) evs = Some (t, st, out)
    \<and> map (\<lambda>p. seq (header p)) (delivered out) = seqs_from 0 (length (delivered out))
    \<and> expected_sequence st = of_nat (length (delivered out))
    \<and> set (delivered out) \<subseteq> (\<Union>ev\<in>set evs. arrivals peer ev)"
  by (rule receiver.recv_new [OF receiver.intro [OF assms]])

theorem recv_in_order_witness:
  "\<exists>t st out. recv alist_ops True example_peer example_start
      [example_data 2 [66], example_data 1 [65], example_ack 0, example_data 1 [65]]
      = Some (t, st, out)
    \<and> map (\<lambda>p. seq (header p)) (delivered out) = [0, 1, 2]"
proof -
  let ?evs = "[example_data 2 [66], example_data 1 [65], example_ack 0, example_data 1 [65]]"
  from recv_in_order [OF alist_dashmap, of True example_peer alist_ops ?evs]
  obtain t st out where r: "recv alist_ops True example_peer example_start ?evs = Some (t, st, out)"
    and s: "map (\<lambda>p. seq (header p)) (delivered out) = seqs_from 0 (length (delivered out))"
    by blast
  from r have "length (delivered out) = 3" by (auto simp: recv_eval)
  with s have "map (\<lambda>p. seq (header p)) (delivered out) = [0, 1, 2]"
    by (simp add: seqs_from_def numeral_3_eq_3)
  with r show ?thesis by auto
qed

text \<open>Property C13: nothing is lost or held back: as long as the last sequence number
  (\<open>2 ^ 32 - 1\<close>) has not arrived, the task keeps running and what it has delivered is exactly
  the longest gap-free run, from number 0, of what has arrived from the peer.\<close>

theorem recv_complete:
  assumes "dashmap R entries"
    and "- 1 \<notin> (\<lambda>p. seq (header p)) ` (\<Union>ev\<in>set evs. arrivals peer ev)"
  shows "\<exists>st out. recv R oc peer (SharedState_new R U) evs = Some (Running, st, out)
    \<and> map (\<lambda>p. seq (header p)) (delivered out) = seqs_from 0 (length (delivered out))
    \<and> {k. k < expected_sequence st} = (\<lambda>p. seq (header p)) ` set (delivered out)
    \<and> {k. k < expected_sequence st} \<subseteq> (\<lambda>p. seq (header p)) ` (\<Union>ev\<in>set evs. arrivals peer ev)
    \<and> expected_sequence st \<notin> (\<lambda>p. seq (header p)) ` (\<Union>ev\<in>set evs. arrivals peer ev)"
  by (rule receiver.recv_new_complete [OF receiver.intro [OF assms(1)] assms(2)])

theorem recv_complete_witness:
  "\<exists>st out. recv alist_ops True example_peer example_start
      [example_data 1 [65], example_ack 0, example_data 3 [67]] = Some (Running, st, out)
    \<and> expected_sequence st = 2"
proof -
  let ?evs = "[example_data 1 [65], example_ack 0, example_data 3 [67]]"
  have "- 1 \<notin> (\<lambda>p. seq (header p)) ` (\<Union>ev\<in>set ?evs. arrivals example_peer ev)"
    by (simp add: recv_eval)
  from recv_complete [OF alist_dashmap this, of True alist_ops] show ?thesis
    by (auto simp: recv_eval)
qed

text \<open>Property C28: the stream starts at number 0 while the sending task numbers data from 1, so
  data alone is never delivered: the application gets nothing until a packet numbered 0 (only
  acknowledgements are) has come from the peer.\<close>

theorem recv_needs_packet_zero:
  assumes "dashmap R entries"
    and "0 \<notin> (\<lambda>p. seq (header p)) ` (\<Union>ev\<in>set evs. arrivals peer ev)"
  shows "\<exists>t st out. recv R oc peer (SharedState_new R U) evs = Some (t, st, out)
    \<and> delivered out = []"
  by (rule receiver.recv_new_stuck [OF receiver.intro [OF assms(1)] assms(2)])

theorem recv_needs_packet_zero_witness:
  "\<exists>t st out. recv alist_ops True example_peer example_start
      [example_data 1 [65], example_data 2 [66], example_data 1 [65]] = Some (t, st, out)
    \<and> delivered out = []"
  by (rule recv_needs_packet_zero [OF alist_dashmap]) (simp add: recv_eval)

text \<open>A data packet that was already delivered changes nothing and is not
  acknowledged again.\<close>

lemma duplicate_data_ignored:
  assumes "deserialize (take recv_buf_len d) = Some p"
    and "seq (header p) < expected_sequence st" and "payload p = Some pl" and "pl \<noteq> []"
  shows "recv_step R oc peer st (RecvFrom d peer) = Some (Running, st, [])"
  using assms by (auto simp: recv_packet_def recv_less_def)

text \<open>Once the stream has started, an acknowledgement is answered by the very same
  acknowledgement and changes no state; two started endpoints send it back and forth forever.\<close>

lemma ack_echoed:
  assumes "0 < expected_sequence st"
  shows "\<exists>out. recv_step R oc peer st (RecvFrom (serialize (ack_packet n)) peer)
      = Some (Running, st, map AckSend out)
    \<and> periodic_acks out = [SocketSend (serialize (ack_packet n)) peer]"
  using assms
  by (intro exI [of _ "[\<lparr>ack_num = n, ack_peer = peer\<rparr>]"])
    (auto simp: deserialize_ack_fields ack_packet_def recv_packet_def recv_less_def periodic_acks_def
      periodic_ack_def)

text \<open>The receiving task never touches the sending side, whatever arrives:
  acknowledgements do not remove packets from the retransmission table.\<close>

lemma recv_keeps_unacked:
  assumes "dashmap R entries" and "recv_inv entries st"
  shows "\<exists>t st' out. recv R oc peer st evs = Some (t, st', out)
    \<and> unacked st' = unacked st \<and> next_seq st' = next_seq st
    \<and> sender_acknowdgeded st' = sender_acknowdgeded st"
  using receiver.recv_spec [OF receiver.intro [OF assms(1)] assms(2), of oc peer evs]
  by (auto simp: advanced_def sender_frame_def)

end
