(* ===== verification/ReliableSender.thy ===== *)
theory ReliableSender
  imports ReliableReceiver
begin

text \<open>
  The sending task of \<open>common/src/singleconnection.rs\<close>: numbering, the table of packets that
  are not acknowledged yet, and the retransmission timer.
\<close>

definition expired :: "instant \<Rightarrow> SentPacket \<Rightarrow> bool" where
  "expired now e \<longleftrightarrow> retransmit_timeout < duration_since now (time_sent e)"

definition refresh :: "instant \<Rightarrow> SentPacket \<Rightarrow> SentPacket" where
  "refresh now e = (if expired now e then e\<lparr>time_sent := now\<rparr> else e)"

lemma refresh_packet [simp]: "packet (refresh now e) = packet e"
  by (simp add: refresh_def)

definition expired_packet :: "instant \<Rightarrow> (u32 \<rightharpoonup> SentPacket) \<Rightarrow> u32 \<rightharpoonup> Packet" where
  "expired_packet now m k =
     (case m k of Some e \<Rightarrow> if expired now e then Some (packet e) else None | None \<Rightarrow> None)"

fun sockets :: "UdpEffect list \<Rightarrow> u8 list list" where
  "sockets [] = []"
| "sockets (SocketSend d a # es) = d # sockets es"
| "sockets (_ # es) = sockets es"

lemma sockets_append [simp]: "sockets (xs @ ys) = sockets xs @ sockets ys"
  by (induction xs rule: sockets.induct) auto

lemma sockets_sends [simp]: "sockets (map (\<lambda>p. SocketSend (f p) a) ps) = map f ps"
  by (induction ps) auto

text \<open>The payloads the application handed over, in order.\<close>

fun event_payloads :: "SendEvent \<Rightarrow> u8 list list" where
  "event_payloads (FromApp (Data pl)) = [pl]"
| "event_payloads _ = []"

definition submitted :: "(instant \<times> SendEvent) list \<Rightarrow> u8 list list" where
  "submitted evs = concat (map (\<lambda>(_, ev). event_payloads ev) evs)"

lemma submitted_simps [simp]:
  "submitted [] = []" "submitted ((now, ev) # evs) = event_payloads ev @ submitted evs"
  by (simp_all add: submitted_def)

lemma sockets_outputs [simp]: "sockets (map (\<lambda>p. OutputSend p a) ps) = []"
  by (induction ps) auto

definition data_packet :: "u32 \<Rightarrow> u32 \<Rightarrow> u8 list \<Rightarrow> Packet" where
  "data_packet s a pl = \<lparr>header = \<lparr>seq = s, ack = a\<rparr>, payload = Some pl\<rparr>"

text \<open>What an endpoint can have sent when its application has submitted \<open>pls\<close>.\<close>

definition genuine_datagram :: "u8 list list \<Rightarrow> u8 list \<Rightarrow> bool" where
  "genuine_datagram pls d \<longleftrightarrow>
     (\<exists>n. d = serialize (ack_packet n)) \<or>
     (\<exists>i<length pls. \<exists>a. d = serialize (data_packet (of_nat (Suc i)) a (pls ! i)))"

lemma genuine_datagram_mono: "genuine_datagram pls d \<Longrightarrow> genuine_datagram (pls @ qs) d"
  by (auto simp: genuine_datagram_def nth_append)

lemma genuine_ack [simp]: "genuine_datagram pls (serialize (ack_packet n))"
  by (auto simp: genuine_datagram_def)

text \<open>What the sending task leaves alone: the fields of the receiving task.\<close>

definition receiver_frame :: "('rb, 'ub) SharedState \<Rightarrow> ('rb, 'ub) SharedState \<Rightarrow> bool" where
  "receiver_frame st st' \<longleftrightarrow>
     expected_sequence st' = expected_sequence st \<and> recv_buffer st' = recv_buffer st \<and>
     receiver_acknowledged st' = receiver_acknowledged st"

text \<open>
  The invariant of the sending task after the payloads \<open>pls\<close>: they were numbered from 1 on, and
  every one of them still has its entry in the table.
\<close>

definition send_inv ::
  "('ub \<Rightarrow> u32 \<rightharpoonup> SentPacket) \<Rightarrow> u8 list list \<Rightarrow> ('rb, 'ub) SharedState \<Rightarrow> bool"
where
  "send_inv entries pls st \<longleftrightarrow>
     next_seq st = of_nat (length pls) \<and>
     dom (entries (unacked st)) = set (seqs_from 1 (length pls)) \<and>
     (\<forall>k e. entries (unacked st) k = Some e \<longrightarrow>
       (\<exists>i a. i < length pls \<and> k = of_nat (Suc i) \<and> packet e = data_packet k a (pls ! i)))"

locale sender = dashmap U entries
  for U :: "('ub, u32, SentPacket) dashmap_ops" and entries :: "'ub \<Rightarrow> u32 \<rightharpoonup> SentPacket"
begin

lemma collect_expired_spec:
  assumes "distinct ks"
  shows "\<exists>m'. collect_expired U now ks m acc =
      (m', acc @ List.map_filter (expired_packet now (entries m)) ks)
    \<and> entries m' = (\<lambda>k. if k \<in> set ks then map_option (refresh now) (entries m k) else entries m k)"
  using assms
proof (induction ks arbitrary: m acc)
  case Nil
  then show ?case by simp
next
  case (Cons k ks)
  then have k: "k \<notin> set ks" and d: "distinct ks" by auto
  show ?case
  proof (cases "entries m k")
    case None
    from Cons.IH [OF d, of m acc] None k show ?thesis
      by (auto simp: get_result expired_packet_def fun_eq_iff)
  next
    case (Some e)
    show ?thesis
    proof (cases "expired now e")
      case True
      let ?m = "dm_insert U k (e\<lparr>time_sent := now\<rparr>) m"
      have mf: "List.map_filter (expired_packet now (entries ?m)) ks =
          List.map_filter (expired_packet now (entries m)) ks"
        using k by (intro map_filter_same) (auto simp: expired_packet_def entries_insert)
      have "expired_packet now (entries m) k = Some (packet e)"
        using Some True by (simp add: expired_packet_def)
      with Cons.IH [OF d, of ?m "acc @ [packet e]", unfolded mf] Some True k show ?thesis
        by (auto simp: get_result expired_def [symmetric] refresh_def entries_insert fun_eq_iff)
    next
      case False
      from Cons.IH [OF d, of m acc] Some False k show ?thesis
        by (auto simp: get_result expired_def [symmetric] refresh_def expired_packet_def fun_eq_iff)
    qed
  qed
qed

text \<open>
  A timer tick resends exactly the expired packets, in the order of the table, and only moves
  their send times; no entry is added or removed.
\<close>

lemma check_retransmission_spec:
  fixes st :: "('rb, 'ub) SharedState"
  shows "\<exists>st'. check_retransmission U addr now st =
      (st', map (\<lambda>p. SocketSend (serialize p) addr)
              (List.map_filter (expired_packet now (entries (unacked st))) (dm_keys U (unacked st))))
    \<and> entries (unacked st') = map_option (refresh now) \<circ> entries (unacked st)
    \<and> next_seq st' = next_seq st \<and> receiver_frame st st'"
proof -
  from collect_expired_spec [OF keys_distinct, of now "unacked st" "unacked st" "[]"] obtain m'
    where c: "collect_expired U now (dm_keys U (unacked st)) (unacked st) [] =
        (m', List.map_filter (expired_packet now (entries (unacked st))) (dm_keys U (unacked st)))"
      and e: "entries m' = (\<lambda>k. if k \<in> set (dm_keys U (unacked st))
        then map_option (refresh now) (entries (unacked st) k) else entries (unacked st) k)"
    by auto
  have "entries m' = map_option (refresh now) \<circ> entries (unacked st)"
  proof (rule ext)
    fix k
    show "entries m' k = (map_option (refresh now) \<circ> entries (unacked st)) k"
      by (cases "entries (unacked st) k") (auto simp: e keys_set)
  qed
  then show ?thesis
    by (intro exI [of _ "st\<lparr>unacked := m'\<rparr>"]) (simp add: check_retransmission_def c receiver_frame_def)
qed

lemma expired_packets_set:
  "set (List.map_filter (expired_packet now (entries m)) (dm_keys U m)) =
    {packet e |k e. entries m k = Some e \<and> expired now e}"
  by (auto simp: set_map_filter_Some keys_set expired_packet_def dom_def split: option.splits if_splits)


lemma refreshed_dom: "dom (map_option (refresh now) \<circ> m) = dom m"
  by (auto simp: dom_def)

lemma tick_send_inv:
  assumes "send_inv entries pls st" and "check_retransmission U addr now st = (st', out)"
  shows "send_inv entries pls st'"
proof -
  from check_retransmission_spec [of addr now st] assms(2)
  have e: "entries (unacked st') = map_option (refresh now) \<circ> entries (unacked st)"
    and n: "next_seq st' = next_seq st" by auto
  have d: "dom (entries (unacked st')) = dom (entries (unacked st))"
    unfolding e by (rule refreshed_dom)
  show ?thesis
    using assms(1) unfolding send_inv_def d n e by (auto simp: Ball_def)
qed

lemma tick_datagrams:
  assumes inv: "send_inv entries pls st" and tick: "check_retransmission U addr now st = (st', out)"
    and d: "d \<in> set (sockets out)"
  shows "\<exists>i a. i < length pls \<and> d = serialize (data_packet (of_nat (Suc i)) a (pls ! i))"
proof -
  from check_retransmission_spec [of addr now st] tick
  have "sockets out = map serialize
      (List.map_filter (expired_packet now (entries (unacked st))) (dm_keys U (unacked st)))"
    by auto
  with d obtain k e where "entries (unacked st) k = Some e" and "d = serialize (packet e)"
    by (auto simp: expired_packets_set)
  with inv show ?thesis by (fastforce simp: send_inv_def)
qed

lemma send_data_spec:
  fixes st :: "('rb, 'ub) SharedState"
  assumes inv: "send_inv entries pls st" and room: "Suc (length pls) < 2 ^ 32"
  shows "\<exists>st'. send_data U oc addr now pl st = (Running, st',
      [SocketSend (serialize (data_packet (of_nat (Suc (length pls))) (receiver_acknowledged st) pl)) addr])
    \<and> send_inv entries (pls @ [pl]) st'
    \<and> entries (unacked st') = (entries (unacked st))(of_nat (Suc (length pls)) \<mapsto>
        \<lparr>packet = data_packet (of_nat (Suc (length pls))) (receiver_acknowledged st) pl, time_sent = now\<rparr>)
    \<and> receiver_frame st st'"
proof -
  let ?n = "of_nat (Suc (length pls)) :: u32"
  let ?p = "data_packet ?n (receiver_acknowledged st) pl"
  let ?st = "st\<lparr>next_seq := ?n,
    unacked := dm_insert U ?n \<lparr>packet = ?p, time_sent = now\<rparr> (unacked st)\<rparr>"
  from inv have nxt: "next_seq st = of_nat (length pls)"
    and old: "dom (entries (unacked st)) = set (seqs_from 1 (length pls))"
    unfolding send_inv_def by blast+
  have "unat (of_nat (length pls) :: u32) = length pls"
    using room by (intro unat_of_nat_u32) simp
  with room have "plus_oc oc (next_seq st) 1 = Some (next_seq st + 1)"
    unfolding plus_oc_def nxt by simp
  then have "plus_oc oc (next_seq st) 1 = Some ?n" by (simp add: nxt add.commute)
  then have s: "send_data U oc addr now pl st = (Running, ?st, [SocketSend (serialize ?p) addr])"
    by (simp add: send_data_def Let_def data_packet_def nxt add.commute)
  have dom: "dom (entries (unacked ?st)) = set (seqs_from 1 (length (pls @ [pl])))"
    by (simp add: entries_insert seqs_from_snoc old)
  have each: "\<exists>i a. i < length (pls @ [pl]) \<and> k = of_nat (Suc i) \<and> packet e = data_packet k a ((pls @ [pl]) ! i)"
    if "entries (unacked ?st) k = Some e" for k e
  proof (cases "k = ?n")
    case True
    with that show ?thesis
      by (intro exI [of _ "length pls"] exI [of _ "receiver_acknowledged st"])
        (auto simp: entries_insert simp del: of_nat_Suc)
  next
    case False
    with that have "entries (unacked st) k = Some e" by (simp add: entries_insert)
    with inv obtain i a where "i < length pls" "k = of_nat (Suc i)" "packet e = data_packet k a (pls ! i)"
      unfolding send_inv_def by blast
    then show ?thesis by (intro exI [of _ i] exI [of _ a]) (simp add: nth_append)
  qed
  have "send_inv entries (pls @ [pl]) ?st"
    unfolding send_inv_def using dom each by simp
  with s show ?thesis
    by (intro exI [of _ ?st]) (simp add: entries_insert receiver_frame_def del: of_nat_Suc)
qed

lemma send_new_inv: "send_inv entries [] (SharedState_new R U)"
  by (simp add: send_inv_def SharedState_new_def entries_new)

lemma send_step_spec:
  fixes st :: "('rb, 'ub) SharedState"
  assumes "send_inv entries pls st" and "Suc (length pls) < 2 ^ 32"
  shows "\<exists>st' out. send_step U oc addr now ev st = (Running, st', out)
    \<and> send_inv entries (pls @ event_payloads ev) st' \<and> receiver_frame st st'
    \<and> (\<forall>d\<in>set (sockets out). genuine_datagram (pls @ event_payloads ev) d)"
proof (cases ev)
  case Tick
  from check_retransmission_spec [of addr now st] obtain st' out
    where c: "check_retransmission U addr now st = (st', out)" and "receiver_frame st st'"
    by auto
  moreover have "genuine_datagram pls d" if "d \<in> set (sockets out)" for d
    using tick_datagrams [OF assms(1) c that] by (auto simp: genuine_datagram_def)
  ultimately show ?thesis using Tick tick_send_inv [OF assms(1) c] by auto
next
  case (FromApp pt)
  show ?thesis
  proof (cases pt)
    case (Ack n)
    then show ?thesis using FromApp assms by (auto simp: receiver_frame_def)
  next
    case (Data pl)
    let ?d = "serialize (data_packet (of_nat (Suc (length pls))) (receiver_acknowledged st) pl)"
    have "genuine_datagram (pls @ [pl]) ?d"
      unfolding genuine_datagram_def
      by (intro disjI2 exI [of _ "length pls"]) auto
    with send_data_spec [OF assms, of oc addr now pl] show ?thesis
      using FromApp Data by (auto simp del: of_nat_Suc)
  qed
qed

text \<open>A run of the sending task, as long as it numbers fewer than \<open>2 ^ 32\<close> packets.\<close>

lemma send_spec:
  fixes st :: "('rb, 'ub) SharedState"
  assumes "send_inv entries pls st" and "Suc (length pls + length (submitted evs)) < 2 ^ 32"
  shows "\<exists>st' out. send U oc addr st evs = (Running, st', out)
    \<and> send_inv entries (pls @ submitted evs) st'
    \<and> receiver_frame st st'"
  using assms
proof (induction evs arbitrary: pls st)
  case Nil
  then show ?case by (simp add: receiver_frame_def)
next
  case (Cons nev evs)
  obtain now ev where nev: "nev = (now, ev)" by (cases nev)
  from Cons.prems have "Suc (length pls) < 2 ^ 32" by simp
  from send_step_spec [OF Cons.prems(1) this, of oc addr now ev] obtain st1 out1
    where "send_step U oc addr now ev st = (Running, st1, out1)"
      and "send_inv entries (pls @ event_payloads ev) st1" and "receiver_frame st st1"
    by blast
  with Cons.IH [of "pls @ event_payloads ev" st1] Cons.prems(2) nev show ?case
    by (auto simp: receiver_frame_def)
qed

end

section \<open>Properties of the sending task\<close>

abbreviation example_sends :: "(instant \<times> SendEvent) list" where
  "example_sends \<equiv> [(5, FromApp (Data [72])), (6, FromApp (Ack 3)), (7, FromApp (Data [73])), (8, Tick)]"

text \<open>Property C25: the sending task numbers the payloads of the application 1, 2, 3, \<dots> and the
  table of unacknowledged packets holds every one of them from then on: nothing is ever
  removed, so with \<open>n\<close> payloads submitted it has the \<open>n\<close> entries \<open>1, \<dots>, n\<close>.\<close>

theorem unacked_never_shrinks:
  assumes "dashmap U entries" and "Suc (length (submitted evs)) < 2 ^ 32"
  shows "\<exists>st out. send U oc addr (SharedState_new R U) evs = (Running, st, out)
    \<and> next_seq st = of_nat (length (submitted evs))
    \<and> dom (entries (unacked st)) = set (seqs_from 1 (length (submitted evs)))"
  using sender.send_spec [OF sender.intro [OF assms(1)]
      sender.send_new_inv [OF sender.intro [OF assms(1)]], of evs oc addr R] assms(2)
  by (auto simp: send_inv_def)

theorem unacked_never_shrinks_witness:
  "\<exists>st out. send alist_ops True example_peer example_start example_sends = (Running, st, out)
    \<and> next_seq st = 2 \<and> dom (map_of (unacked st)) = {1, 2}"
  using unacked_never_shrinks [OF alist_dashmap, of example_sends True example_peer alist_ops]
  by (auto simp: seqs_from_def)

text \<open>A timer tick resends exactly the packets whose last transmission is more than
  two seconds old, restarts their timers, and neither adds nor removes an entry.\<close>

lemma tick_resends_expired:
  assumes "dashmap U entries"
  shows "\<exists>st' out. send_step U oc addr now Tick st = (Running, st', out)
    \<and> set (sockets out) = {serialize (packet e) |k e. entries (unacked st) k = Some e
        \<and> from_millis 2000 < duration_since now (time_sent e)}
    \<and> dom (entries (unacked st')) = dom (entries (unacked st))
    \<and> entries (unacked st') = map_option (refresh now) \<circ> entries (unacked st)"
proof -
  from sender.check_retransmission_spec [OF sender.intro [OF assms], of addr now st] obtain st' out
    where c: "check_retransmission U addr now st = (st', out)"
      and o: "sockets out = map serialize
        (List.map_filter (expired_packet now (entries (unacked st))) (dm_keys U (unacked st)))"
      and e: "entries (unacked st') = map_option (refresh now) \<circ> entries (unacked st)"
    by auto
  from sender.refreshed_dom [OF sender.intro [OF assms]] e
  have "dom (entries (unacked st')) = dom (entries (unacked st))" by simp
  with c o e show ?thesis
    using sender.expired_packets_set [OF sender.intro [OF assms], of now "unacked st"]
    by (auto simp: expired_def retransmit_timeout_def)
qed

text \<open>After \<open>2 ^ 32 - 1\<close> packets the next one panics the sending task in a build with
  overflow checks; without them it goes out as number 0, the number of acknowledgements.\<close>

lemma sequence_numbers_exhausted:
  assumes "next_seq st = - 1"
  shows "send_data U oc addr now pl st =
    (if oc then (Panicked, st\<lparr>next_seq := 0\<rparr>, [])
     else (Running, st\<lparr>next_seq := 0, unacked := dm_insert U 0
              \<lparr>packet = data_packet 0 (receiver_acknowledged st) pl, time_sent = now\<rparr> (unacked st)\<rparr>,
           [SocketSend (serialize (data_packet 0 (receiver_acknowledged st) pl)) addr]))"
  using assms plus_oc_inc_None [of oc "- 1 :: u32"]
  by (auto simp: send_data_def Let_def data_packet_def)

end
