(* ===== verification/ReliableLink.thy ===== *)
theory ReliableLink
  imports ReliableSender
begin

text \<open>
  Two endpoints of the reliable UDP layer, each with its three tasks, joined by a network that
  loses, repeats and reorders datagrams at will, while strangers send either endpoint what they
  like. One step is one turn of one task.
\<close>

section \<open>The two endpoints and their network\<close>

datatype side = Near | Far

fun other :: "side \<Rightarrow> side" where
  "other Near = Far"
| "other Far = Near"

lemma other_other [simp]: "other (other x) = x"
  by (cases x) auto

text \<open>
  The state of the three tasks, the queue of \<open>ack_rx\<close>, and two histories: the packets the
  application received from \<open>output_rx\<close> and the payloads it submitted.
\<close>

record ('rb, 'ub) endpoint =
  shared :: "('rb, 'ub) SharedState"
  recv_task :: task
  send_task :: task
  ack_queue :: "AckInfo list"
  app_received :: "Packet list"
  app_sent :: "u8 list list"

definition endpoint_new ::
  "('rb, u32, Packet) dashmap_ops \<Rightarrow> ('ub, u32, SentPacket) dashmap_ops \<Rightarrow> ('rb, 'ub) endpoint"
where
  "endpoint_new R U =
     \<lparr>shared = SharedState_new R U, recv_task = Running, send_task = Running,
      ack_queue = [], app_received = [], app_sent = []\<rparr>"

text \<open>The network remembers every datagram ever sent: each may arrive any number of times.\<close>

record ('rb, 'ub) link =
  ends :: "side \<Rightarrow> ('rb, 'ub) endpoint"
  net :: "(side \<times> u8 list) set"  \<comment> \<open>sender and contents\<close>

definition link_new ::
  "('rb, u32, Packet) dashmap_ops \<Rightarrow> ('ub, u32, SentPacket) dashmap_ops \<Rightarrow> ('rb, 'ub) link"
where
  "link_new R U = \<lparr>ends = (\<lambda>_. endpoint_new R U), net = {}\<rparr>"

fun acks :: "UdpEffect list \<Rightarrow> AckInfo list" where
  "acks [] = []"
| "acks (AckSend i # es) = i # acks es"
| "acks (_ # es) = acks es"

lemma acks_append [simp]: "acks (xs @ ys) = acks xs @ acks ys"
  by (induction xs rule: acks.induct) auto

inductive link_step ::
  "('rb, u32, Packet) dashmap_ops \<Rightarrow> ('ub, u32, SentPacket) dashmap_ops \<Rightarrow> bool
    \<Rightarrow> (side \<Rightarrow> sockaddr) \<Rightarrow> ('rb, 'ub) link \<Rightarrow> ('rb, 'ub) link \<Rightarrow> bool"
for R :: "('rb, u32, Packet) dashmap_ops" and U :: "('ub, u32, SentPacket) dashmap_ops"
  and oc :: bool and addr :: "side \<Rightarrow> sockaddr"
where
  sending:
    "ends l x = e \<Longrightarrow> send_task e = Running \<Longrightarrow>
     send_step U oc (addr (other x)) now ev (shared e) = (t, st, out) \<Longrightarrow>
     link_step R U oc addr l
       \<lparr>ends = (ends l)(x := e\<lparr>shared := st, send_task := t,
                              app_sent := app_sent e @ event_payloads ev\<rparr>),
        net = net l \<union> Pair x ` set (sockets out)\<rparr>"
| receiving:
    "ends l x = e \<Longrightarrow> recv_task e = Running \<Longrightarrow>
     src = addr (other x) \<and> (other x, d) \<in> net l \<or> src \<noteq> addr (other x) \<Longrightarrow>
     recv_step R oc (addr (other x)) (shared e) (RecvFrom d src) = Some (t, st, out) \<Longrightarrow>
     link_step R U oc addr l
       \<lparr>ends = (ends l)(x := e\<lparr>shared := st, recv_task := t,
                              ack_queue := ack_queue e @ acks out,
                              app_received := app_received e @ delivered out\<rparr>),
        net = net l \<union> Pair x ` set (sockets out)\<rparr>"
| acking:
    "ends l x = e \<Longrightarrow> ack_queue e = i # q \<Longrightarrow>
     link_step R U oc addr l
       \<lparr>ends = (ends l)(x := e\<lparr>ack_queue := q\<rparr>),
        net = net l \<union> Pair x ` set (sockets [periodic_ack i])\<rparr>"

inductive link_reachable ::
  "('rb, u32, Packet) dashmap_ops \<Rightarrow> ('ub, u32, SentPacket) dashmap_ops \<Rightarrow> bool
    \<Rightarrow> (side \<Rightarrow> sockaddr) \<Rightarrow> ('rb, 'ub) link \<Rightarrow> bool"
for R :: "('rb, u32, Packet) dashmap_ops" and U :: "('ub, u32, SentPacket) dashmap_ops"
  and oc :: bool and addr :: "side \<Rightarrow> sockaddr"
where
  start: "link_reachable R U oc addr (link_new R U)"
| step: "link_reachable R U oc addr l \<Longrightarrow> link_step R U oc addr l l'
    \<Longrightarrow> link_reachable R U oc addr l'"

section \<open>The invariant\<close>

text \<open>
  What a packet, as it arrives after truncation, can be when the other application has
  submitted \<open>pls\<close>: an acknowledgement, or the \<open>i\<close>-th payload under its number.
\<close>

definition genuine :: "u8 list list \<Rightarrow> Packet \<Rightarrow> bool" where
  "genuine pls p \<longleftrightarrow>
     seq (header p) = 0 \<and> payload p = None \<or>
     (\<exists>i<length pls. seq (header p) = of_nat (Suc i) \<and>
        payload p = wire_payload (Some (take 6592 (pls ! i))))"

lemma genuine_mono: "genuine pls p \<Longrightarrow> genuine (pls @ qs) p"
  by (auto simp: genuine_def nth_append)

lemma genuine_arrival:
  assumes "genuine_datagram pls d" and "deserialize (take recv_buf_len d) = Some p"
  shows "genuine pls p"
  using assms(1) unfolding genuine_datagram_def
proof (elim disjE exE conjE)
  fix n assume "d = serialize (ack_packet n)"
  with assms(2) show ?thesis
    by (simp add: deserialize_ack) (auto simp: ack_packet_def genuine_def)
next
  fix i a assume i: "i < length pls"
    and d: "d = serialize (data_packet (of_nat (Suc i)) a (pls ! i))"
  from assms(2) d have "p = (data_packet (of_nat (Suc i)) a (pls ! i))
      \<lparr>payload := wire_payload (Some (take 6592 (pls ! i)))\<rparr>"
    using take_serialize [of 6592] by (simp add: recv_buf_len_def deserialize_serialize data_packet_def)
  with i show ?thesis by (auto simp: genuine_def data_packet_def)
qed

text \<open>One endpoint, given what the other has submitted and what has been sent to it.\<close>

definition end_inv ::
  "('rb \<Rightarrow> u32 \<rightharpoonup> Packet) \<Rightarrow> ('ub \<Rightarrow> u32 \<rightharpoonup> SentPacket) \<Rightarrow> u8 list list \<Rightarrow> u8 list set
    \<Rightarrow> ('rb, 'ub) endpoint \<Rightarrow> bool"
where
  "end_inv er eu sent ds e \<longleftrightarrow>
     send_inv eu (app_sent e) (shared e) \<and> recv_inv er (shared e) \<and>
     map (\<lambda>p. seq (header p)) (app_received e) = seqs_from 0 (length (app_received e)) \<and>
     expected_sequence (shared e) = of_nat (length (app_received e)) \<and>
     (\<forall>p \<in> set (app_received e) \<union> ran (er (recv_buffer (shared e))). genuine sent p) \<and>
     (\<forall>d \<in> ds. genuine_datagram sent d)"

definition incoming :: "('rb, 'ub) link \<Rightarrow> side \<Rightarrow> u8 list set" where
  "incoming l x = {d. (other x, d) \<in> net l}"

definition link_inv ::
  "('rb \<Rightarrow> u32 \<rightharpoonup> Packet) \<Rightarrow> ('ub \<Rightarrow> u32 \<rightharpoonup> SentPacket) \<Rightarrow> ('rb, 'ub) link \<Rightarrow> bool"
where
  "link_inv er eu l \<longleftrightarrow>
     (\<forall>x. end_inv er eu (app_sent (ends l (other x))) (incoming l x) (ends l x))"

text \<open>The runs in which neither application submits \<open>2 ^ 32 - 1\<close> payloads or more.\<close>

definition small :: "('rb, 'ub) link \<Rightarrow> bool" where
  "small l \<longleftrightarrow> (\<forall>x. Suc (length (app_sent (ends l x))) < 2 ^ 32)"

lemma end_inv_sent_mono:
  "end_inv er eu sent ds e \<Longrightarrow> \<forall>d\<in>ds'. genuine_datagram (sent @ pls) d
    \<Longrightarrow> end_inv er eu (sent @ pls) (ds \<union> ds') e"
  by (auto simp: end_inv_def intro: genuine_mono genuine_datagram_mono)

context receiver
begin

text \<open>The receiving task itself sends acknowledgements only.\<close>

lemma recv_step_sockets:
  assumes "recv_inv entries st" and "recv_step R oc peer st ev = Some (t, st', out)"
    and "d \<in> set (sockets out)"
  shows "\<exists>n. d = serialize (ack_packet n)"
proof (cases ev)
  case (RecvFrom data a)
  with assms(2,3) obtain p
    where p: "deserialize (take recv_buf_len data) = Some p"
      and r: "recv_packet R oc a p st = Some (t, st', out)"
    by (auto split: if_splits option.splits)
  show ?thesis
  proof (cases "seq (header p) = expected_sequence st")
    case True
    with recv_equal_spec [OF assms(1) True, of oc a] r assms(3)
    show ?thesis by (auto simp: recv_packet_def)
  next
    case False
    with r assms(3) show ?thesis
      by (auto simp: recv_packet_def recv_greater_def recv_less_def Let_def split: if_splits)
  qed
qed (use assms in simp)

end

locale udp_link = rx: receiver R er + tx: sender U eu
  for R :: "('rb, u32, Packet) dashmap_ops" and er
    and U :: "('ub, u32, SentPacket) dashmap_ops" and eu
begin

lemma link_new_inv: "link_inv er eu (link_new R U)"
  using rx.new_state [of U] tx.send_new_inv [of R]
  by (simp add: link_inv_def end_inv_def link_new_def endpoint_new_def incoming_def)

lemma end_inv_recv:
  assumes inv: "end_inv er eu sent ds e" and d: "src = peer \<and> d \<in> ds \<or> src \<noteq> peer"
    and step: "recv_step R oc peer (shared e) (RecvFrom d src) = Some (t, st, out)"
  shows "end_inv er eu sent ds (e\<lparr>shared := st, recv_task := t, ack_queue := q,
    app_received := app_received e @ delivered out\<rparr>)"
proof -
  from inv have i: "recv_inv er (shared e)" by (simp add: end_inv_def)
  from rx.recv_step_spec [OF i, of oc peer "RecvFrom d src"] step
  have i': "recv_inv er st" and a: "advanced (shared e) st out"
    and c: "set (delivered out) \<union> ran (er (recv_buffer st))
      \<subseteq> arrivals peer (RecvFrom d src) \<union> ran (er (recv_buffer (shared e)))"
    by auto
  have "genuine sent p" if "p \<in> arrivals peer (RecvFrom d src)" for p
    using that d inv
    by (auto simp: end_inv_def elem_set intro: genuine_arrival split: if_splits)
  with c inv have g: "\<forall>p \<in> set (delivered out) \<union> ran (er (recv_buffer st)). genuine sent p"
    unfolding end_inv_def by blast
  from a have "send_inv eu (app_sent e) st"
    using inv by (simp add: end_inv_def send_inv_def advanced_def sender_frame_def)
  with i' a g inv show ?thesis
    by (auto simp: end_inv_def advanced_def seqs_from_add)
qed

lemma end_inv_send:
  assumes inv: "end_inv er eu sent ds e" and small: "Suc (length (app_sent e)) < 2 ^ 32"
    and step: "send_step U oc peer now ev (shared e) = (t, st, out)"
  shows "t = Running \<and> end_inv er eu sent ds (e\<lparr>shared := st, send_task := t,
      app_sent := app_sent e @ event_payloads ev\<rparr>)
    \<and> (\<forall>d\<in>set (sockets out). genuine_datagram (app_sent e @ event_payloads ev) d)"
  using tx.send_step_spec [of "app_sent e" "shared e" oc peer now ev] assms
  by (auto simp: end_inv_def receiver_frame_def recv_inv_def)


lemma link_inv_update:
  assumes inv: "link_inv er eu l"
    and here: "end_inv er eu (app_sent (ends l (other x))) (incoming l x) e'"
    and sent: "app_sent e' = app_sent (ends l x) @ pls"
    and out: "\<forall>d\<in>D. genuine_datagram (app_sent e') d"
  shows "link_inv er eu \<lparr>ends = (ends l)(x := e'), net = net l \<union> Pair x ` D\<rparr>"
  unfolding link_inv_def
proof
  fix y
  let ?l = "\<lparr>ends = (ends l)(x := e'), net = net l \<union> Pair x ` D\<rparr>"
  show "end_inv er eu (app_sent (ends ?l (other y))) (incoming ?l y) (ends ?l y)"
  proof (cases "y = x")
    case True
    moreover have "other x \<noteq> x" by (cases x) auto
    moreover then have "incoming ?l x = incoming l x" by (auto simp: incoming_def)
    ultimately show ?thesis using here by simp
  next
    case False
    then have y: "other y = x" by (cases x; cases y) auto
    then have "incoming ?l y = incoming l y \<union> D" by (auto simp: incoming_def)
    moreover from inv y have "end_inv er eu (app_sent (ends l x)) (incoming l y) (ends l y)"
      by (auto simp: link_inv_def)
    ultimately show ?thesis
      using end_inv_sent_mono [of er eu "app_sent (ends l x)" "incoming l y" "ends l y" D pls]
        False y sent out by simp
  qed
qed

lemma link_step_inv:
  assumes "link_step R U oc addr l l'" and "link_inv er eu l" and "small l'"
  shows "link_inv er eu l'"
  using assms
proof (induction rule: link_step.induct)
  case (sending l x e now ev t st out)
  then have e: "end_inv er eu (app_sent (ends l (other x))) (incoming l x) e"
    by (auto simp: link_inv_def)
  from sending have "Suc (length (app_sent e)) < 2 ^ 32"
    by (auto simp: small_def dest!: spec [of _ x])
  from end_inv_send [OF e this] sending show ?case
    by (intro link_inv_update) auto
next
  case (receiving l x e src d t st out)
  then have e: "end_inv er eu (app_sent (ends l (other x))) (incoming l x) e"
    and d: "src = addr (other x) \<and> d \<in> incoming l x \<or> src \<noteq> addr (other x)"
    by (auto simp: link_inv_def incoming_def)
  from e have "recv_inv er (shared e)" by (simp add: end_inv_def)
  from rx.recv_step_sockets [OF this] receiving
  have "\<forall>d\<in>set (sockets out). \<exists>n. d = serialize (ack_packet n)" by blast
  with end_inv_recv [OF e d] receiving show ?case
    by (intro link_inv_update [where pls = "[]"]) auto
next
  case (acking l x e i q)
  then have "end_inv er eu (app_sent (ends l (other x))) (incoming l x) (e\<lparr>ack_queue := q\<rparr>)"
    by (auto simp: link_inv_def end_inv_def)
  with acking show ?case
    by (intro link_inv_update [where pls = "[]"]) (auto simp: periodic_ack_def)
qed

lemma link_step_sent: "link_step R U oc addr l l' \<Longrightarrow> small l' \<Longrightarrow> small l"
  by (induction rule: link_step.induct) (force simp: small_def split: if_splits)+

lemma link_reachable_inv:
  assumes "link_reachable R U oc addr l" and "small l"
  shows "link_inv er eu l"
  using assms
proof (induction rule: link_reachable.induct)
  case start
  show ?case by (rule link_new_inv)
next
  case (step l l')
  then show ?case using link_step_inv link_step_sent by blast
qed

text \<open>The stream a genuine, gapless sequence of packets carries.\<close>

lemma genuine_stream:
  assumes seqs: "map (\<lambda>p. seq (header p)) ps = seqs_from 0 (length ps)"
    and gen: "\<forall>p\<in>set ps. genuine sent p" and small: "Suc (length sent) < 2 ^ 32"
  shows "length ps \<le> Suc (length sent)
    \<and> (ps \<noteq> [] \<longrightarrow> payload (hd ps) = None)
    \<and> map payload (tl ps) =
        map (\<lambda>pl. wire_payload (Some (take 6592 pl))) (take (length ps - 1) sent)"
proof -
  have at: "seq (header (ps ! j)) = of_nat j" if "j < length ps" for j
    using arg_cong [OF seqs, of "\<lambda>xs. xs ! j"] that by (simp add: nth_seqs_from)
  have data: "j < length sent \<and> payload (ps ! Suc j) = wire_payload (Some (take 6592 (sent ! j)))"
    if j: "Suc j < length ps" and b: "Suc j < 2 ^ 32" for j
  proof -
    from j gen have "genuine sent (ps ! Suc j)" by simp
    with at [OF j] of_nat_Suc_u32_nonzero [OF b] obtain i where i: "i < length sent"
      "(of_nat (Suc j) :: u32) = of_nat (Suc i)"
      "payload (ps ! Suc j) = wire_payload (Some (take 6592 (sent ! i)))"
      by (auto simp: genuine_def simp del: of_nat_Suc)
    from i small have "Suc i < 2 ^ 32" by linarith
    with i b have "j = i" by (simp add: of_nat_u32_inj del: of_nat_Suc)
    with i show ?thesis by simp
  qed
  have len: "length ps \<le> Suc (length sent)"
  proof (rule ccontr)
    assume "\<not> length ps \<le> Suc (length sent)"
    with data [of "length sent"] small show False by simp
  qed
  moreover have "payload (hd ps) = None" if "ps \<noteq> []"
  proof -
    from that gen at [of 0] have "genuine sent (hd ps)" "seq (header (hd ps)) = 0"
      by (auto simp: hd_conv_nth)
    then consider "payload (hd ps) = None"
      | i where "i < length sent" "(of_nat (Suc i) :: u32) = 0"
      by (auto simp: genuine_def simp del: of_nat_Suc)
    then show ?thesis
    proof cases
      case 2
      with small have "Suc i < 2 ^ 32" by linarith
      with of_nat_Suc_u32_nonzero 2 show ?thesis by blast
    qed
  qed
  moreover have "map payload (tl ps) =
      map (\<lambda>pl. wire_payload (Some (take 6592 pl))) (take (length ps - 1) sent)"
  proof (rule nth_equalityI)
    fix i assume "i < length (map payload (tl ps))"
    then have i: "Suc i < length ps" by simp
    with len small have "Suc i < 2 ^ 32" by linarith
    from data [OF i this] i show "map payload (tl ps) ! i =
        map (\<lambda>pl. wire_payload (Some (take 6592 pl))) (take (length ps - 1) sent) ! i"
      by (simp add: nth_tl less_diff_conv)
  qed (use len in simp)
  ultimately show ?thesis by blast
qed


lemma link_stream:
  assumes "link_reachable R U oc addr l" and "small l"
  shows "let ps = app_received (ends l x); sent = app_sent (ends l (other x)) in
      length ps \<le> Suc (length sent)
    \<and> (ps \<noteq> [] \<longrightarrow> payload (hd ps) = None)
    \<and> map payload (tl ps) =
        map (\<lambda>pl. wire_payload (Some (take 6592 pl))) (take (length ps - 1) sent)"
proof -
  from link_reachable_inv [OF assms] have "end_inv er eu (app_sent (ends l (other x))) (incoming l x) (ends l x)"
    by (simp add: link_inv_def)
  with assms(2) show ?thesis
    unfolding Let_def by (intro genuine_stream) (auto simp: end_inv_def small_def)
qed

text \<open>
  The first exchange: a data packet waits in the reorder buffer until a packet numbered 0
  arrives, and is delivered right behind it.
\<close>

lemma recv_ahead:
  fixes st :: "('rb, 'ub) SharedState"
  assumes "expected_sequence st = 0" and "s \<noteq> 0"
  shows "recv_step R oc peer st (RecvFrom (serialize (data_packet s a pl)) peer) =
    Some (Running, st\<lparr>recv_buffer := dm_insert R s
        (data_packet s a pl\<lparr>payload := wire_payload (Some (take 6592 pl))\<rparr>) (recv_buffer st)\<rparr>,
      [SocketSend (serialize (ack_packet (receiver_acknowledged st))) peer])"
proof -
  have "deserialize (take recv_buf_len (serialize (data_packet s a pl))) =
      Some (data_packet s a pl\<lparr>payload := wire_payload (Some (take 6592 pl))\<rparr>)"
    by (rule long_payload_truncated) (simp add: data_packet_def)
  with assms show ?thesis
    by (simp add: recv_packet_def recv_greater_def data_packet_def word_gt_0 Let_def)
qed

lemma recv_zero_ack:
  fixes st :: "('rb, 'ub) SharedState"
  assumes inv: "recv_inv er st" and zero: "expected_sequence st = 0"
    and buf: "er (recv_buffer st) = m" and two: "m 2 = None"
  shows "\<exists>t st' out. recv_step R oc peer st (RecvFrom (serialize (ack_packet n)) peer) = Some (t, st', out)
    \<and> delivered out = ack_packet n # (case m 1 of None \<Rightarrow> [] | Some p \<Rightarrow> [p])
    \<and> acks out = [\<lparr>ack_num = 0, ack_peer = peer\<rparr>]"
proof -
  have "seq (header (ack_packet n)) = expected_sequence st"
    using zero by (simp add: ack_packet_def)
  from rx.recv_equal_spec [OF inv this, of oc peer] obtain t st' ps
    where r: "recv_equal R oc peer (ack_packet n) st = Some (t, st',
        [OutputSend (ack_packet n) peer, AckSend \<lparr>ack_num = 0, ack_peer = peer\<rparr>]
          @ map (\<lambda>p. OutputSend p peer) ps)"
      and i: "recv_inv er st'" and c: "map Some ps = map m (seqs_from 1 (length ps))"
      and b: "er (recv_buffer st') = m |` (- set (seqs_from 1 (length ps)))"
      and x: "expected_sequence st' = of_nat (Suc (length ps))"
    by (auto simp: zero buf ack_packet_def)
  have ps: "ps = (case m 1 of None \<Rightarrow> [] | Some p \<Rightarrow> [p])"
  proof (cases ps)
    case Nil
    with i b x show ?thesis
      by (cases "m 1") (auto simp: recv_inv_def)
  next
    case (Cons p qs)
    with c have one: "m 1 = Some p" by (simp add: seqs_from_Suc)
    with c Cons two have "qs = []" by (cases qs) (auto simp: seqs_from_Suc)
    with one Cons show ?thesis by simp
  qed
  have "acks (map (\<lambda>p. OutputSend p peer) ps) = []" by (induction ps) auto
  with r ps zero show ?thesis
    by (simp add: deserialize_ack recv_packet_def) (simp add: ack_packet_def)
qed


lemmas link_send = link_reachable.step [OF _ link_step.sending [OF refl]]
lemmas link_recv = link_reachable.step [OF _ link_step.receiving [OF refl _ disjI1]]
lemmas link_ack = link_reachable.step [OF _ link_step.acking [OF refl]]

lemma first_payload:
  "\<exists>l. link_reachable R U oc addr l \<and> small l
    \<and> app_sent (ends l Near) = [pl] \<and> app_sent (ends l Far) = []
    \<and> map payload (app_received (ends l Far)) = [None, wire_payload (Some (take 6592 pl))]"
proof -
  let ?new = "SharedState_new R U" and ?ack = "serialize (ack_packet 0)"
  let ?d = "serialize (data_packet 1 0 pl)"
  let ?p = "data_packet 1 0 pl\<lparr>payload := wire_payload (Some (take 6592 pl))\<rparr>"
  from tx.send_data_spec [OF tx.send_new_inv [of R], of oc "addr Far" 0 pl] obtain stA
    where sA: "send_step U oc (addr Far) 0 (FromApp (Data pl)) ?new
        = (Running, stA, [SocketSend ?d (addr Far)])"
      and fA: "receiver_frame ?new stA"
    by (auto simp: rx.new_state)
  let ?A1 = "endpoint_new R U\<lparr>shared := stA, send_task := Running, app_sent := [pl]\<rparr>"
  let ?l1 = "\<lparr>ends = (ends (link_new R U))(Near := ?A1), net = {(Near, ?d)}\<rparr>"
  have l1: "link_reachable R U oc addr ?l1"
    using link_send [OF link_reachable.start, of R U Near oc addr 0 "FromApp (Data pl)"] sA
    by (simp add: link_new_def endpoint_new_def)
  let ?stB = "?new\<lparr>recv_buffer := dm_insert R 1 ?p (recv_buffer ?new)\<rparr>"
  let ?B1 = "endpoint_new R U\<lparr>shared := ?stB\<rparr>"
  let ?l2 = "\<lparr>ends = (ends ?l1)(Far := ?B1), net = {(Near, ?d), (Far, ?ack)}\<rparr>"
  have sB: "recv_step R oc (addr Near) ?new (RecvFrom ?d (addr Near))
      = Some (Running, ?stB, [SocketSend ?ack (addr Near)])"
    using recv_ahead [of ?new 1 oc "addr Near" 0 pl] by (simp add: rx.new_state)
  have l2: "link_reachable R U oc addr ?l2"
    using link_recv [OF l1, of Far "addr Near" ?d] sB
    by (simp add: link_new_def endpoint_new_def insert_commute)
  have stA: "recv_inv er stA" "expected_sequence stA = 0" "er (recv_buffer stA) = Map.empty"
    using fA rx.new_state [of U] by (auto simp: receiver_frame_def recv_inv_def)
  from recv_zero_ack [OF stA, of oc "addr Far" 0] obtain t stA' out
    where sA': "recv_step R oc (addr Far) stA (RecvFrom ?ack (addr Far)) = Some (t, stA', out)"
      and qA: "acks out = [\<lparr>ack_num = 0, ack_peer = addr Far\<rparr>]"
    by auto
  let ?A2 = "?A1\<lparr>shared := stA', recv_task := t, ack_queue := acks out, app_received := delivered out\<rparr>"
  let ?l3 = "\<lparr>ends = (ends ?l2)(Near := ?A2), net = net ?l2 \<union> Pair Near ` set (sockets out)\<rparr>"
  have l3: "link_reachable R U oc addr ?l3"
    using link_recv [OF l2, of Near "addr Far" ?ack] sA'
    by (simp add: link_new_def endpoint_new_def)
  let ?l4 = "\<lparr>ends = (ends ?l3)(Near := ?A2\<lparr>ack_queue := []\<rparr>), net = net ?l3 \<union> {(Near, ?ack)}\<rparr>"
  have l4: "link_reachable R U oc addr ?l4"
    using link_ack [OF l3, of Near "\<lparr>ack_num = 0, ack_peer = addr Far\<rparr>" "[]"] qA
    by (simp add: periodic_ack_def)
  have stB: "recv_inv er ?stB" "expected_sequence ?stB = 0" "er (recv_buffer ?stB) = [1 \<mapsto> ?p]"
    using rx.new_state [of U]
    by (auto simp: recv_inv_def rx.entries_insert data_packet_def word_gt_0)
  from recv_zero_ack [OF stB, of oc "addr Near" 0] obtain t' stB' out'
    where sB': "recv_step R oc (addr Near) ?stB (RecvFrom ?ack (addr Near)) = Some (t', stB', out')"
      and dB: "delivered out' = [ack_packet 0, ?p]"
    by auto
  let ?B2 = "?B1\<lparr>shared := stB', recv_task := t', ack_queue := acks out', app_received := delivered out'\<rparr>"
  let ?l5 = "\<lparr>ends = (ends ?l4)(Far := ?B2), net = net ?l4 \<union> Pair Far ` set (sockets out')\<rparr>"
  have l5: "link_reachable R U oc addr ?l5"
    using link_recv [OF l4, of Far "addr Near" ?ack] sB'
    by (simp add: link_new_def endpoint_new_def)
  moreover have "small ?l5"
    unfolding small_def
  proof
    fix x show "Suc (length (app_sent (ends ?l5 x))) < 2 ^ 32"
      by (cases x) (simp_all add: link_new_def endpoint_new_def)
  qed
  ultimately show ?thesis
    by (intro exI [of _ ?l5]) (simp add: dB ack_packet_def endpoint_new_def data_packet_def)
qed

end

interpretation alist_link: udp_link alist_ops map_of alist_ops map_of
  by (intro udp_link.intro receiver.intro sender.intro alist_dashmap)

section \<open>Properties of the link\<close>

fun example_addr :: "side \<Rightarrow> sockaddr" where
  "example_addr Near = ip4 198 51 100 4 9001"
| "example_addr Far = ip4 203 0 113 7 9002"

text \<open>Property C1: in every run of two endpoints over a network that loses, repeats and reorders
  datagrams, with strangers sending anything, what an application receives after the first
  (payload-less) packet is a prefix of what the other application submitted: in order, without
  gaps, repetitions or inventions, each payload cut to the 6592 bytes the receive buffer has
  room for and an empty one read as none.\<close>

theorem delivered_prefix_of_sent:
  assumes "dashmap R er" and "dashmap U eu"
    and "link_reachable R U oc addr l" and "small l"
  shows "length (app_received (ends l x)) \<le> Suc (length (app_sent (ends l (other x))))
    \<and> map payload (tl (app_received (ends l x))) =
        map (\<lambda>pl. wire_payload (Some (take 6592 pl)))
          (take (length (app_received (ends l x)) - 1) (app_sent (ends l (other x))))"
  using udp_link.link_stream [OF udp_link.intro [OF receiver.intro sender.intro], OF assms]
  by (simp add: Let_def)

theorem delivered_prefix_of_sent_witness:
  "\<exists>l. link_reachable alist_ops alist_ops True example_addr l
    \<and> length (app_received (ends l Far)) = 2
    \<and> map payload (tl (app_received (ends l Far))) = [Some [72, 105]]"
proof -
  from alist_link.first_payload [of True example_addr "[72, 105]"] obtain l
    where r: "link_reachable alist_ops alist_ops True example_addr l" and s: "small l"
      and n: "app_sent (ends l Near) = [[72, 105]]"
      and p: "map payload (app_received (ends l Far)) = [None, wire_payload (Some (take 6592 [72, 105]))]"
    by - (elim exE conjE, rule that, assumption+)
  have two: "length (app_received (ends l Far)) = 2"
    using arg_cong [OF p, of length] by simp
  with delivered_prefix_of_sent [OF alist_dashmap alist_dashmap r s, of Far] n
  have "map payload (tl (app_received (ends l Far))) = [Some [72, 105]]"
    by (simp add: wire_payload_def)
  with r two show ?thesis by (intro exI conjI)
qed

text \<open>The exchange gets started: there is a run in which the first payload one
  application submits reaches the other, behind the acknowledgement that the early data packet
  provoked and that came back as packet 0.\<close>

lemma first_payload_arrives:
  assumes "dashmap R er" and "dashmap U eu"
  shows "\<exists>l. link_reachable R U oc addr l
    \<and> app_sent (ends l Near) = [pl] \<and> app_sent (ends l Far) = []
    \<and> map payload (app_received (ends l Far)) = [None, wire_payload (Some (take 6592 pl))]"
  using udp_link.first_payload [OF udp_link.intro [OF receiver.intro sender.intro], OF assms, of oc addr pl]
  by - (elim exE conjE, intro exI conjI, assumption+)

end
