(* ===== verification/ReliableEvents.thy ===== *)
theory ReliableEvents
  imports ReliableLink
begin

text \<open>
  The steps of the link as an executable function of labelled events, infinite runs, and what a
  network and a scheduler owe them (fairness); that no task of a run stops, and what only grows.
\<close>

section \<open>Events and runs\<close>

datatype link_event =
    Sending side instant SendEvent
  | Receiving side sockaddr "u8 list"
  | Acking side

fun event_side :: "link_event \<Rightarrow> side" where
  "event_side (Sending x now ev) = x"
| "event_side (Receiving x a d) = x"
| "event_side (Acking x) = x"

text \<open>The endpoint an event changes, its new state and the datagrams it sends.\<close>

fun link_turn ::
  "('rb, u32, Packet) dashmap_ops \<Rightarrow> ('ub, u32, SentPacket) dashmap_ops \<Rightarrow> bool
    \<Rightarrow> (side \<Rightarrow> sockaddr) \<Rightarrow> link_event \<Rightarrow> ('rb, 'ub) link
    \<Rightarrow> (side \<times> ('rb, 'ub) endpoint \<times> u8 list list) option"
where
  "link_turn R U oc addr (Sending x now ev) l =
     (let e = ends l x
      in if send_task e = Running then
           (case send_step U oc (addr (other x)) now ev (shared e) of
              (t, st, out) \<Rightarrow>
                Some (x, e\<lparr>shared := st, send_task := t, app_sent := app_sent e @ event_payloads ev\<rparr>,
                      sockets out))
         else None)"
| "link_turn R U oc addr (Receiving x a d) l =
     (let e = ends l x
      in if recv_task e = Running \<and> (a = addr (other x) \<longrightarrow> (other x, d) \<in> net l) then
           (case recv_step R oc (addr (other x)) (shared e) (RecvFrom d a) of
              None \<Rightarrow> None
            | Some (t, st, out) \<Rightarrow>
                Some (x, e\<lparr>shared := st, recv_task := t, ack_queue := ack_queue e @ acks out,
                           app_received := app_received e @ delivered out\<rparr>,
                      sockets out))
         else None)"
| "link_turn R U oc addr (Acking x) l =
     (let e = ends l x
      in case ack_queue e of
           [] \<Rightarrow> None
         | i # q \<Rightarrow> Some (x, e\<lparr>ack_queue := q\<rparr>, sockets [periodic_ack i]))"

definition link_act ::
  "('rb, u32, Packet) dashmap_ops \<Rightarrow> ('ub, u32, SentPacket) dashmap_ops \<Rightarrow> bool
    \<Rightarrow> (side \<Rightarrow> sockaddr) \<Rightarrow> link_event \<Rightarrow> ('rb, 'ub) link \<Rightarrow> ('rb, 'ub) link option"
where
  "link_act R U oc addr ev l =
     map_option (\<lambda>(x, e, out). \<lparr>ends = (ends l)(x := e), net = net l \<union> Pair x ` set out\<rparr>)
       (link_turn R U oc addr ev l)"

definition sends ::
  "('rb, u32, Packet) dashmap_ops \<Rightarrow> ('ub, u32, SentPacket) dashmap_ops \<Rightarrow> bool
    \<Rightarrow> (side \<Rightarrow> sockaddr) \<Rightarrow> side \<Rightarrow> u8 list \<Rightarrow> link_event \<Rightarrow> ('rb, 'ub) link \<Rightarrow> bool"
where
  "sends R U oc addr x d ev l \<longleftrightarrow>
     (case link_turn R U oc addr ev l of Some (y, e, out) \<Rightarrow> y = x \<and> d \<in> set out | None \<Rightarrow> False)"

text \<open>What an event does to the endpoint \<open>z\<close>.\<close>

lemma act_cases:
  assumes "link_act R U oc addr ev l = Some l'"
  obtains (elsewhere) "event_side ev \<noteq> z" "ends l' z = ends l z"
  | (sent) now sev t st out where "ev = Sending z now sev" "send_task (ends l z) = Running"
      "send_step U oc (addr (other z)) now sev (shared (ends l z)) = (t, st, out)"
      "ends l' z = (ends l z)\<lparr>shared := st, send_task := t,
         app_sent := app_sent (ends l z) @ event_payloads sev\<rparr>"
      "\<And>d. sends R U oc addr z d ev l \<longleftrightarrow> d \<in> set (sockets out)"
  | (got) a d t st out where "ev = Receiving z a d" "recv_task (ends l z) = Running"
      "a = addr (other z) \<and> (other z, d) \<in> net l \<or> a \<noteq> addr (other z)"
      "recv_step R oc (addr (other z)) (shared (ends l z)) (RecvFrom d a) = Some (t, st, out)"
      "ends l' z = (ends l z)\<lparr>shared := st, recv_task := t,
         ack_queue := ack_queue (ends l z) @ acks out,
         app_received := app_received (ends l z) @ delivered out\<rparr>"
      "\<And>d. sends R U oc addr z d ev l \<longleftrightarrow> d \<in> set (sockets out)"
  | (acked) i q where "ev = Acking z" "ack_queue (ends l z) = i # q"
      "ends l' z = (ends l z)\<lparr>ack_queue := q\<rparr>"
      "\<And>d. sends R U oc addr z d ev l \<longleftrightarrow> d = serialize (ack_packet (ack_num i))"
proof (cases ev)
  case (Sending x now sev)
  obtain t st out where s: "send_step U oc (addr (other x)) now sev (shared (ends l x)) = (t, st, out)"
    by (metis prod_cases3)
  show ?thesis
  proof (cases "x = z")
    case True
    with assms Sending s show ?thesis
      by (intro sent [of now sev t st out])
        (auto simp: link_act_def sends_def Let_def split: if_splits)
  qed (use assms Sending s in \<open>auto simp: link_act_def Let_def intro: elsewhere split: if_splits\<close>)
next
  case (Receiving x a d)
  with assms obtain t st out where r: "recv_task (ends l x) = Running"
      "recv_step R oc (addr (other x)) (shared (ends l x)) (RecvFrom d a) = Some (t, st, out)"
    by (auto simp: link_act_def Let_def simp del: recv_step.simps split: if_splits option.splits)
  show ?thesis
  proof (cases "x = z")
    case True
    with assms Receiving r show ?thesis
      by (intro got [of a d t st out])
        (auto simp: link_act_def sends_def Let_def simp del: recv_step.simps split: if_splits)
  qed (use assms Receiving r in
      \<open>auto simp: link_act_def Let_def simp del: recv_step.simps intro: elsewhere split: if_splits\<close>)
next
  case (Acking x)
  with assms obtain i q where q: "ack_queue (ends l x) = i # q"
    by (auto simp: link_act_def Let_def split: list.splits)
  show ?thesis
  proof (cases "x = z")
    case True
    with assms Acking q show ?thesis
      by (intro acked [of i q]) (auto simp: link_act_def sends_def Let_def periodic_ack_def)
  qed (use assms Acking q in \<open>auto simp: link_act_def Let_def intro: elsewhere\<close>)
qed

text \<open>The function and the step relation are the same.\<close>

lemma link_act_step:
  assumes "link_act R U oc addr ev l = Some l'"
  shows "link_step R U oc addr l l'"
proof (cases ev)
  case (Sending x now sev)
  with assms show ?thesis
    by (auto simp: link_act_def Let_def split: if_splits prod.splits intro!: link_step.sending)
next
  case (Receiving x a d)
  with assms show ?thesis
    by (auto simp: link_act_def Let_def simp del: recv_step.simps
        split: if_splits option.splits intro!: link_step.receiving [where src = a and d = d])
next
  case (Acking x)
  with assms show ?thesis
    by (auto simp: link_act_def Let_def split: list.splits intro!: link_step.acking)
qed

lemma link_step_act: "link_step R U oc addr l l' \<Longrightarrow> \<exists>ev. link_act R U oc addr ev l = Some l'"
proof (induction rule: link_step.induct)
  case (sending l x e now ev t st out)
  then show ?case by (intro exI [of _ "Sending x now ev"]) (simp add: link_act_def)
next
  case (receiving l x e src d t st out)
  then show ?case
    by (intro exI [of _ "Receiving x src d"]) (auto simp: link_act_def simp del: recv_step.simps)
next
  case (acking l x e i q)
  then show ?case by (intro exI [of _ "Acking x"]) (simp add: link_act_def)
qed

definition link_run ::
  "('rb, u32, Packet) dashmap_ops \<Rightarrow> ('ub, u32, SentPacket) dashmap_ops \<Rightarrow> bool
    \<Rightarrow> (side \<Rightarrow> sockaddr) \<Rightarrow> (nat \<Rightarrow> ('rb, 'ub) link) \<Rightarrow> (nat \<Rightarrow> link_event) \<Rightarrow> bool"
where
  "link_run R U oc addr ls evs \<longleftrightarrow>
     ls 0 = link_new R U \<and> (\<forall>i. link_act R U oc addr (evs i) (ls i) = Some (ls (Suc i)))"

definition again :: "(nat \<Rightarrow> bool) \<Rightarrow> bool" where
  "again P \<longleftrightarrow> (\<forall>i. \<exists>j\<ge>i. P j)"

text \<open>
  What the surroundings owe a run: the timer of a sending task that runs keeps firing, on a
  clock that does not stand still; a queued acknowledgement does not wait for ever; and a datagram
  sent again and again is again and again received by a receiving task that runs.
\<close>

definition fair ::
  "('rb, u32, Packet) dashmap_ops \<Rightarrow> ('ub, u32, SentPacket) dashmap_ops \<Rightarrow> bool
    \<Rightarrow> (side \<Rightarrow> sockaddr) \<Rightarrow> (nat \<Rightarrow> ('rb, 'ub) link) \<Rightarrow> (nat \<Rightarrow> link_event) \<Rightarrow> bool"
where
  "fair R U oc addr ls evs \<longleftrightarrow>
     (\<forall>x t. again (\<lambda>i. send_task (ends (ls i) x) = Panicked \<or> (\<exists>now\<ge>t. evs i = Sending x now Tick))) \<and>
     (\<forall>x. again (\<lambda>i. ack_queue (ends (ls i) x) = [] \<or> evs i = Acking x)) \<and>
     (\<forall>x d. again (\<lambda>i. sends R U oc addr x d (evs i) (ls i)) \<longrightarrow>
        again (\<lambda>i. recv_task (ends (ls i) (other x)) = Panicked
                  \<or> evs i = Receiving (other x) (addr x) d))"

lemma againI: "(\<And>i. \<exists>j\<ge>i. P j) \<Longrightarrow> again P"
  by (simp add: again_def)

lemma againE: "again P \<Longrightarrow> (\<And>j. i \<le> j \<Longrightarrow> P j \<Longrightarrow> thesis) \<Longrightarrow> thesis"
  by (auto simp: again_def)

lemma again_late: "(\<And>j. i \<le> j \<Longrightarrow> \<exists>k\<ge>j. P k) \<Longrightarrow> again P"
  unfolding again_def by (meson le_cases order_trans)

section \<open>Neither task stops\<close>

context receiver
begin

text \<open>The receiving task only panics behind a delivery.\<close>

lemma recv_panic_delivers:
  assumes "recv_inv entries st" and "recv_step R oc peer st ev = Some (Panicked, st', out)"
  shows "delivered out \<noteq> []"
proof (cases ev)
  case (RecvFrom d a)
  with assms(2) obtain p where r: "recv_packet R oc a p st = Some (Panicked, st', out)"
    by (auto split: if_splits option.splits)
  show ?thesis
  proof (cases "seq (header p) = expected_sequence st")
    case True
    from recv_equal_spec [OF assms(1) True, of oc a] r True show ?thesis by (auto simp: recv_packet_def)
  qed (use r in \<open>auto simp: recv_packet_def recv_greater_def recv_less_def Let_def split: if_splits\<close>)
qed (use assms in simp)

end

context udp_link
begin

lemma link_received:
  assumes "link_reachable R U oc addr l" and "small l"
  shows "length (app_received (ends l x)) < 2 ^ 32"
proof -
  from link_stream [OF assms, of x]
  have "length (app_received (ends l x)) \<le> Suc (length (app_sent (ends l (other x))))"
    by (simp add: Let_def)
  moreover have "Suc (length (app_sent (ends l (other x)))) < 2 ^ 32"
    using assms(2) by (simp add: small_def)
  ultimately show ?thesis by linarith
qed

lemma link_end:
  assumes "link_reachable R U oc addr l" and "small l"
  shows "recv_inv er (shared (ends l x))" "send_inv eu (app_sent (ends l x)) (shared (ends l x))"
    "expected_sequence (shared (ends l x)) = of_nat (length (app_received (ends l x)))"
  using link_reachable_inv [OF assms] by (simp_all add: link_inv_def end_inv_def)

lemma link_tasks_run:
  assumes "link_reachable R U oc addr l" and "small l"
  shows "recv_task (ends l x) = Running \<and> send_task (ends l x) = Running"
  using assms
proof (induction arbitrary: x rule: link_reachable.induct)
  case start
  show ?case by (simp add: link_new_def endpoint_new_def)
next
  case (step l l')
  note small = link_step_sent [OF step.hyps(2) step.prems]
  note reach = link_reachable.step [OF step.hyps]
  from step.IH [OF small] have run: "recv_task (ends l x) = Running" "send_task (ends l x) = Running"
    by auto
  from link_step_act [OF step.hyps(2)] obtain ev where "link_act R U oc addr ev l = Some l'" by blast
  then show ?case
  proof (cases rule: act_cases [of _ _ _ _ _ _ _ x])
    case (sent now sev t st out)
    have "Suc (length (app_sent (ends l x))) < 2 ^ 32" using small by (simp add: small_def)
    from tx.send_step_spec [OF link_end(2) [OF step.hyps(1) small] this, of oc "addr (other x)" now sev] sent
    show ?thesis by (auto simp: run)
  next
    case (got a d t st out)
    have "t = Running"
    proof (rule ccontr)
      assume "t \<noteq> Running"
      then have t: "t = Panicked" by (cases t) auto
      note inv = link_end(1) [OF step.hyps(1) small, of x]
      from rx.recv_panic_delivers [OF inv] got(4) t have "delivered out \<noteq> []" by blast
      then have n: "length (app_received (ends l' x)) \<noteq> 0" by (simp add: got)
      from rx.recv_step_spec [OF inv, of oc "addr (other x)" "RecvFrom d a"] got(4) t
      have "expected_sequence (shared (ends l' x)) = 0" by (auto simp: got)
      with link_end(3) [OF reach step.prems, of x]
      have "(of_nat (length (app_received (ends l' x))) :: u32) = of_nat 0" by simp
      with link_received [OF reach step.prems, of x] n show False
        by (subst (asm) of_nat_u32_inj) simp_all
    qed
    then show ?thesis by (simp add: got run)
  qed (simp_all add: run)
qed

text \<open>What only grows from step to step.\<close>

lemma act_grows:
  assumes act: "link_act R U oc addr ev l = Some l'"
    and reach: "link_reachable R U oc addr l" and small: "small l"
  shows "\<exists>ps. app_received (ends l' x) = app_received (ends l x) @ ps"
    and "\<exists>pls. app_sent (ends l' x) = app_sent (ends l x) @ pls"
    and "app_received (ends l' x) = app_received (ends l x) \<Longrightarrow>
      receiver_acknowledged (shared (ends l' x)) = receiver_acknowledged (shared (ends l x))"
proof -
  show "\<exists>ps. app_received (ends l' x) = app_received (ends l x) @ ps"
    using act by (cases rule: act_cases [of _ _ _ _ _ _ _ x]) simp_all
  show "\<exists>pls. app_sent (ends l' x) = app_sent (ends l x) @ pls"
    using act by (cases rule: act_cases [of _ _ _ _ _ _ _ x]) simp_all
  assume same: "app_received (ends l' x) = app_received (ends l x)"
  from act show "receiver_acknowledged (shared (ends l' x)) = receiver_acknowledged (shared (ends l x))"
  proof (cases rule: act_cases [of _ _ _ _ _ _ _ x])
    case (sent now sev t st out)
    have "Suc (length (app_sent (ends l x))) < 2 ^ 32" using small by (simp add: small_def)
    from tx.send_step_spec [OF link_end(2) [OF reach small] this, of oc "addr (other x)" now sev] sent
    show ?thesis by (auto simp: receiver_frame_def)
  next
    case (got a d t st out)
    from rx.recv_step_spec [OF link_end(1) [OF reach small, of x], of oc "addr (other x)" "RecvFrom d a"] got same
    show ?thesis by (auto simp: advanced_def)
  qed simp_all
qed

text \<open>An entry of the table stays, its packet unchanged; unless its packet is sent, so does its time;
  and a timer tick late enough sends it.\<close>

lemma act_unacked:
  assumes act: "link_act R U oc addr ev l = Some l'"
    and reach: "link_reachable R U oc addr l" and small: "small l"
    and s: "eu (unacked (shared (ends l x))) k = Some s"
  shows "\<exists>s'. eu (unacked (shared (ends l' x))) k = Some s' \<and> packet s' = packet s
      \<and> (s' = s \<or> sends R U oc addr x (serialize (packet s)) ev l)"
    and "ev = Sending x now Tick \<Longrightarrow> time_sent s + retransmit_timeout < now \<Longrightarrow>
      sends R U oc addr x (serialize (packet s)) ev l"
proof -
  let ?e = "shared (ends l x)"
  have room: "Suc (length (app_sent (ends l x))) < 2 ^ 32" using small by (simp add: small_def)
  have tick: "eu (unacked st) k = Some (refresh now s) \<and>
      (expired now s \<longrightarrow> serialize (packet s) \<in> set (sockets out))"
    if step: "send_step U oc p now Tick ?e = (t, st, out)" for p now t st out
  proof -
    from tx.check_retransmission_spec [of p now ?e] step
    have u: "eu (unacked st) = map_option (refresh now) \<circ> eu (unacked ?e)"
      and o: "set (sockets out) = serialize ` {packet e |k e. eu (unacked ?e) k = Some e \<and> expired now e}"
      by (auto simp: tx.expired_packets_set)
    from s u o show ?thesis by auto
  qed
  from act show "\<exists>s'. eu (unacked (shared (ends l' x))) k = Some s' \<and> packet s' = packet s
      \<and> (s' = s \<or> sends R U oc addr x (serialize (packet s)) ev l)"
  proof (cases rule: act_cases [of _ _ _ _ _ _ _ x])
    case (sent now sev t st out)
    show ?thesis
    proof (cases sev)
      case Tick
      with tick sent(3,4,5) show ?thesis by (auto simp: refresh_def)
    next
      case (FromApp pt)
      show ?thesis
      proof (cases pt)
        case (Data pl)
        from link_end(2) [OF reach small, of x] s
        have "k \<in> set (seqs_from 1 (length (app_sent (ends l x))))" by (auto simp: send_inv_def)
        then obtain i where i: "i < length (app_sent (ends l x))" "k = of_nat (Suc i)"
          by (auto simp: seqs_from_def)
        with room have "k \<noteq> of_nat (Suc (length (app_sent (ends l x))))"
          by (simp add: of_nat_u32_inj del: of_nat_Suc)
        with tx.send_data_spec [OF link_end(2) [OF reach small] room, of oc "addr (other x)" now pl] s
        show ?thesis using sent FromApp Data by (auto simp del: of_nat_Suc)
      qed (use sent FromApp s in auto)
    qed
  next
    case (got a d t st out)
    from rx.recv_step_spec [OF link_end(1) [OF reach small, of x], of oc "addr (other x)" "RecvFrom d a"] got s
    show ?thesis by (auto simp: advanced_def sender_frame_def)
  qed (use s in auto)
  assume ev: "ev = Sending x now Tick" and late: "time_sent s + retransmit_timeout < now"
  from act show "sends R U oc addr x (serialize (packet s)) ev l"
  proof (cases rule: act_cases [of _ _ _ _ _ _ _ x])
    case elsewhere
    with ev show ?thesis by simp
  qed (use ev tick late in \<open>auto simp: expired_def duration_since_def\<close>)
qed

end

end
