(* ===== verification/FairRun.thy ===== *)
theory FairRun
  imports ReliableEvents
begin

text \<open>
  A fair run, step by step: one payload is submitted, arrives early, its acknowledgement goes back
  and forth until it has been delivered; then both timers fire for ever and the resent packet
  arrives again and again.
\<close>

section \<open>The states\<close>

definition two_ends :: "('rb, 'ub) endpoint \<Rightarrow> ('rb, 'ub) endpoint \<Rightarrow> (side \<times> u8 list) set \<Rightarrow> ('rb, 'ub) link" where
  "two_ends a b n = \<lparr>ends = (\<lambda>x. case x of Near \<Rightarrow> a | Far \<Rightarrow> b), net = n\<rparr>"

lemma two_ends_simps [simp]:
  "ends (two_ends a b n) Near = a" "ends (two_ends a b n) Far = b" "net (two_ends a b n) = n"
  "\<lparr>ends = (ends (two_ends a b n))(Near := e), net = m\<rparr> = two_ends e b m"
  "\<lparr>ends = (ends (two_ends a b n))(Far := e), net = m\<rparr> = two_ends a e m"
  by (auto simp: two_ends_def split: side.splits)

text \<open>One payload is submitted, one that comes through whole.\<close>

definition whole :: "u8 list \<Rightarrow> bool" where "whole pl \<longleftrightarrow> pl \<noteq> [] \<and> length pl \<le> 6592"
definition line_packet :: "u8 list \<Rightarrow> Packet" where "line_packet pl = data_packet 1 0 pl"
abbreviation line_datagram :: "u8 list \<Rightarrow> u8 list" where "line_datagram pl \<equiv> serialize (line_packet pl)"
abbreviation ack_datagram :: "u8 list" where "ack_datagram \<equiv> serialize (ack_packet 0)"

lemma example_packets [simp]:
  "seq (header (line_packet pl)) = 1" "payload (line_packet pl) = Some pl" "ack (header (line_packet pl)) = 0"
  "whole pl \<Longrightarrow> deserialize (take recv_buf_len (line_datagram pl)) = Some (line_packet pl)"
  "seq (header (ack_packet n)) = 0" "payload (ack_packet n) = None" "ack (header (ack_packet n)) = n"
  "deserialize (take recv_buf_len (serialize (ack_packet n))) = Some (ack_packet n)"
  using long_payload_truncated [of "line_packet pl" pl] deserialize_ack [of n]
  by (simp_all add: line_packet_def data_packet_def wire_payload_def ack_packet_def whole_def)

text \<open>The two endpoints when the line has arrived and its packet was last sent at \<open>t\<close>.\<close>

type_synonym alist_endpoint = "((u32 \<times> Packet) list, (u32 \<times> SentPacket) list) endpoint"

definition speaker :: "u8 list \<Rightarrow> instant \<Rightarrow> alist_endpoint" where
  "speaker pl t =
     \<lparr>shared = \<lparr>expected_sequence = 1, receiver_acknowledged = 0, recv_buffer = [], next_seq = 1,
                sender_acknowdgeded = 0, unacked = [(1, \<lparr>packet = line_packet pl, time_sent = t\<rparr>)]\<rparr>,
      recv_task = Running, send_task = Running, ack_queue = [], app_received = [ack_packet 0],
      app_sent = [pl]\<rparr>"

definition listener :: "u8 list \<Rightarrow> alist_endpoint" where
  "listener pl =
     \<lparr>shared = \<lparr>expected_sequence = 2, receiver_acknowledged = 1, recv_buffer = [], next_seq = 0,
                sender_acknowdgeded = 0, unacked = []\<rparr>,
      recv_task = Running, send_task = Running, ack_queue = [], app_received = [ack_packet 0, line_packet pl],
      app_sent = []\<rparr>"

definition example_net :: "u8 list \<Rightarrow> (side \<times> u8 list) set" where
  "example_net pl = {(Near, line_datagram pl), (Far, ack_datagram), (Near, ack_datagram)}"

definition example_period :: nat where "example_period = from_millis 3000"

definition example_begin :: "u8 list \<Rightarrow> link_event list" where
  "example_begin pl =
     [Sending Near 0 (FromApp (Data pl)), Receiving Far (example_addr Near) (line_datagram pl),
      Receiving Near (example_addr Far) ack_datagram, Acking Near,
      Receiving Far (example_addr Near) ack_datagram, Acking Far]"

definition example_events :: "u8 list \<Rightarrow> nat \<Rightarrow> link_event" where
  "example_events pl i =
     (if i < 6 then example_begin pl ! i
      else let now = Suc ((i - 6) div 3) * example_period
           in [Sending Near now Tick, Sending Far now Tick, Receiving Far (example_addr Near) (line_datagram pl)]
                ! ((i - 6) mod 3))"

abbreviation "example_act \<equiv> link_act alist_ops alist_ops True example_addr"
abbreviation "example_turn \<equiv> link_turn alist_ops alist_ops True example_addr"

primrec example_links :: "u8 list \<Rightarrow> nat \<Rightarrow> ((u32 \<times> Packet) list, (u32 \<times> SentPacket) list) link" where
  "example_links pl 0 = link_new alist_ops alist_ops"
| "example_links pl (Suc i) = the (example_act (example_events pl i) (example_links pl i))"

lemma speaker_turn:
  assumes "t + retransmit_timeout < now"
  shows "example_turn (Sending Near now Tick) (two_ends (speaker pl t) b n) = Some (Near, speaker pl now, [line_datagram pl])"
  using assms by (auto simp: speaker_def check_retransmission_def alist_ops_def duration_since_def)

lemma listener_turns:
  assumes "whole pl"
  shows
  "example_turn (Sending Far now Tick) (two_ends a (listener pl) n) = Some (Far, listener pl, [])"
  "(Near, line_datagram pl) \<in> n \<Longrightarrow>
   example_turn (Receiving Far (example_addr Near) (line_datagram pl)) (two_ends a (listener pl) n) = Some (Far, listener pl, [])"
  using assms by (auto simp: listener_def check_retransmission_def alist_ops_def recv_packet_def recv_less_def word_less_nat_alt whole_def)

text \<open>The beginning: the line is sent, arrives early, and its acknowledgement goes back and forth.\<close>

abbreviation fresh :: alist_endpoint where "fresh \<equiv> endpoint_new alist_ops alist_ops"

lemma link_new_two: "link_new alist_ops alist_ops = two_ends fresh fresh {}"
  by (auto simp: link_new_def two_ends_def split: side.splits)

definition first_links :: "u8 list \<Rightarrow> ((u32 \<times> Packet) list, (u32 \<times> SentPacket) list) link list" where
  "first_links pl =
    (let s0 = fresh\<lparr>shared := (SharedState_new alist_ops alist_ops)\<lparr>next_seq := 1,
           unacked := [(1, \<lparr>packet = line_packet pl, time_sent = 0\<rparr>)]\<rparr>, app_sent := [pl]\<rparr>;
         r0 = fresh\<lparr>shared := (SharedState_new alist_ops alist_ops)\<lparr>recv_buffer := [(1, (line_packet pl))]\<rparr>\<rparr>;
         to_near = \<lparr>ack_num = 0, ack_peer = example_addr Near\<rparr>;
         to_far = \<lparr>ack_num = 0, ack_peer = example_addr Far\<rparr>
     in [two_ends fresh fresh {},
         two_ends s0 fresh {(Near, line_datagram pl)},
         two_ends s0 r0 {(Near, line_datagram pl), (Far, ack_datagram)},
         two_ends ((speaker pl 0)\<lparr>ack_queue := [to_far]\<rparr>) r0 {(Near, line_datagram pl), (Far, ack_datagram)},
         two_ends (speaker pl 0) r0 (example_net pl),
         two_ends (speaker pl 0) (listener pl\<lparr>ack_queue := [to_near]\<rparr>) (example_net pl),
         two_ends (speaker pl 0) (listener pl) (example_net pl)])"

lemma first_links_step:
  assumes [simp]: "whole pl" and "i < 6"
  shows "example_act (example_begin pl ! i) (first_links pl ! i) = Some (first_links pl ! Suc i)"
proof -
  have u: "plus_oc True 0 1 = Some (1 :: u32)" "plus_oc True 1 1 = Some (2 :: u32)"
    by (simp_all add: plus_oc_def)
  consider "i = 0" | "i = 1" | "i = 2" | "i = 3" | "i = 4" | "i = 5" using assms(2) by linarith
  then show ?thesis
  proof cases
    case 1
    then show ?thesis
      by (simp add: first_links_def example_begin_def Let_def link_act_def endpoint_new_def SharedState_new_def
          alist_ops_def send_data_def u line_packet_def data_packet_def)
  next
    case 2
    then show ?thesis
      by (simp add: first_links_def example_begin_def Let_def link_act_def endpoint_new_def SharedState_new_def
          alist_ops_def recv_packet_def recv_greater_def insert_commute)
  next
    case 3
    then show ?thesis
      by (simp add: first_links_def example_begin_def Let_def link_act_def endpoint_new_def SharedState_new_def
          alist_ops_def recv_packet_def recv_equal_def drain.simps u speaker_def)
  next
    case 4
    then show ?thesis
      by (simp add: speaker_def first_links_def example_begin_def Let_def link_act_def periodic_ack_def example_net_def insert_commute)
  next
    case 5
    then show ?thesis
      by (simp add: first_links_def example_begin_def Let_def link_act_def endpoint_new_def SharedState_new_def
          alist_ops_def recv_packet_def recv_equal_def drain.simps u listener_def example_net_def)
  next
    case 6
    then show ?thesis
      by (simp add: listener_def first_links_def example_begin_def Let_def link_act_def periodic_ack_def example_net_def insert_commute)
  qed
qed

text \<open>Then for ever: both timers fire and the resent packet arrives again.\<close>

definition cycle_link :: "u8 list \<Rightarrow> nat \<Rightarrow> ((u32 \<times> Packet) list, (u32 \<times> SentPacket) list) link" where
  "cycle_link pl t = two_ends (speaker pl t) (listener pl) (example_net pl)"

lemma cycle_events:
  "example_events pl (6 + 3 * n) = Sending Near (Suc n * example_period) Tick"
  "example_events pl (7 + 3 * n) = Sending Far (Suc n * example_period) Tick"
  "example_events pl (8 + 3 * n) = Receiving Far (example_addr Near) (line_datagram pl)"
proof -
  have "(3 * n) div 3 = n" "(3 * n) mod 3 = 0" "(1 + 3 * n) div 3 = n" "(1 + 3 * n) mod 3 = 1"
    "(2 + 3 * n) div 3 = n" "(2 + 3 * n) mod 3 = 2" by (simp_all add: mod_Suc)
  then show "example_events pl (6 + 3 * n) = Sending Near (Suc n * example_period) Tick"
    "example_events pl (7 + 3 * n) = Sending Far (Suc n * example_period) Tick"
    "example_events pl (8 + 3 * n) = Receiving Far (example_addr Near) (line_datagram pl)"
    by (simp_all add: example_events_def Let_def)
qed

lemma period: "n * example_period + retransmit_timeout < Suc n * example_period"
  by (simp add: example_period_def retransmit_timeout_def from_millis_def)

lemma cycle_turns:
  assumes [simp]: "whole pl"
  shows
  "example_turn (Sending Near (Suc n * example_period) Tick) (cycle_link pl (n * example_period))
    = Some (Near, speaker pl (Suc n * example_period), [line_datagram pl])"
  "example_turn (Sending Far now Tick) (cycle_link pl t) = Some (Far, listener pl, [])"
  "example_turn (Receiving Far (example_addr Near) (line_datagram pl)) (cycle_link pl t) = Some (Far, listener pl, [])"
  unfolding cycle_link_def by (rule speaker_turn listener_turns period | simp add: example_net_def)+

lemma cycle_acts:
  assumes "whole pl"
  shows
  "example_act (Sending Near (Suc n * example_period) Tick) (cycle_link pl (n * example_period))
    = Some (cycle_link pl (Suc n * example_period))"
  "example_act (Sending Far now Tick) (cycle_link pl t) = Some (cycle_link pl t)"
  "example_act (Receiving Far (example_addr Near) (line_datagram pl)) (cycle_link pl t) = Some (cycle_link pl t)"
  unfolding link_act_def cycle_turns [OF assms] by (auto simp: cycle_link_def example_net_def insert_commute)

lemma example_links_begin:
  assumes "whole pl"
  shows "i \<le> 6 \<Longrightarrow> example_links pl i = first_links pl ! i"
proof (induction i)
  case 0
  then show ?case by (simp add: first_links_def link_new_two Let_def)
next
  case (Suc i)
  then have "example_events pl i = example_begin pl ! i" by (simp add: example_events_def)
  with Suc first_links_step [OF assms, of i] show ?case by simp
qed

lemma example_links_cycle:
  assumes "whole pl"
  shows
  "example_links pl (6 + 3 * n) = cycle_link pl (n * example_period)"
  "example_links pl (7 + 3 * n) = cycle_link pl (Suc n * example_period)"
  "example_links pl (8 + 3 * n) = cycle_link pl (Suc n * example_period)"
  "example_links pl (9 + 3 * n) = cycle_link pl (Suc n * example_period)"
proof -
  have one: "example_links pl (7 + 3 * n) = cycle_link pl (Suc n * example_period)
      \<and> example_links pl (8 + 3 * n) = cycle_link pl (Suc n * example_period)
      \<and> example_links pl (9 + 3 * n) = cycle_link pl (Suc n * example_period)"
    if "example_links pl (6 + 3 * n) = cycle_link pl (n * example_period)" for n
  proof -
    have "example_links pl (Suc (6 + 3 * n)) = cycle_link pl (Suc n * example_period)"
      unfolding example_links.simps that cycle_events cycle_acts [OF assms] by simp
    then have a: "example_links pl (7 + 3 * n) = cycle_link pl (Suc n * example_period)" by simp
    have "example_links pl (Suc (7 + 3 * n)) = cycle_link pl (Suc n * example_period)"
      unfolding example_links.simps a cycle_events cycle_acts [OF assms] by simp
    then have b: "example_links pl (8 + 3 * n) = cycle_link pl (Suc n * example_period)" by simp
    have "example_links pl (Suc (8 + 3 * n)) = cycle_link pl (Suc n * example_period)"
      unfolding example_links.simps b cycle_events cycle_acts [OF assms] by simp
    with a b show ?thesis by simp
  qed
  show first: "example_links pl (6 + 3 * n) = cycle_link pl (n * example_period)"
  proof (induction n)
    case 0
    have "example_links pl 6 = first_links pl ! 6" by (rule example_links_begin [OF assms]) simp
    then show ?case by (simp add: first_links_def Let_def cycle_link_def)
  next
    case (Suc n)
    have "9 + 3 * n = 6 + 3 * Suc n" by simp
    with one [OF Suc] show ?case by metis
  qed
  from one [OF this] show "example_links pl (7 + 3 * n) = cycle_link pl (Suc n * example_period)"
    "example_links pl (8 + 3 * n) = cycle_link pl (Suc n * example_period)"
    "example_links pl (9 + 3 * n) = cycle_link pl (Suc n * example_period)" by blast+
qed

lemma phases:
  fixes i :: nat
  obtains "i < 6" | n where "i = 6 + 3 * n" | n where "i = 7 + 3 * n" | n where "i = 8 + 3 * n"
proof (cases "i < 6")
  case False
  define n where "n = (i - 6) div 3"
  have "i - 6 = 3 * n + (i - 6) mod 3" by (simp add: n_def)
  moreover have "(i - 6) mod 3 = 0 \<or> (i - 6) mod 3 = 1 \<or> (i - 6) mod 3 = 2" by linarith
  ultimately have "i = 6 + 3 * n \<or> i = 7 + 3 * n \<or> i = 8 + 3 * n" using False by linarith
  then show ?thesis using that by blast
qed (use that in blast)

lemma example_run:
  assumes "whole pl"
  shows "link_run alist_ops alist_ops True example_addr (example_links pl) (example_events pl)"
  unfolding link_run_def
proof (intro conjI allI)
  show "example_links pl 0 = link_new alist_ops alist_ops" by simp
  fix i
  show "example_act (example_events pl i) (example_links pl i) = Some (example_links pl (Suc i))"
  proof (cases i rule: phases)
    case 1
    then have "example_events pl i = example_begin pl ! i" by (simp add: example_events_def)
    with 1 first_links_step [OF assms, of i] show ?thesis by (simp add: example_links_begin [OF assms])
  qed (simp_all add: cycle_events example_links_cycle [OF assms] cycle_acts [OF assms] del: mult_Suc example_addr.simps)
qed

lemma example_sends:
  assumes "whole pl" and "6 \<le> i" and "sends alist_ops alist_ops True example_addr x d (example_events pl i) (example_links pl i)"
  shows "x = Near \<and> d = line_datagram pl"
proof (cases i rule: phases)
  case (2 n)
  with assms(3) show ?thesis
    by (simp add: sends_def cycle_events example_links_cycle [OF assms(1)] cycle_turns [OF assms(1)] del: mult_Suc link_turn.simps example_addr.simps)
next
  case (3 n)
  with assms(3) show ?thesis
    by (simp add: sends_def cycle_events example_links_cycle [OF assms(1)] cycle_turns [OF assms(1)] del: mult_Suc link_turn.simps example_addr.simps)
next
  case (4 n)
  with assms(3) show ?thesis
    by (simp add: sends_def cycle_events example_links_cycle [OF assms(1)] cycle_turns [OF assms(1)] del: mult_Suc link_turn.simps example_addr.simps)
qed (use assms in simp)

lemma example_fair:
  assumes "whole pl"
  shows "fair alist_ops alist_ops True example_addr (example_links pl) (example_events pl)"
  unfolding fair_def
proof (intro conjI allI impI)
  fix x t
  show "again (\<lambda>i. send_task (ends (example_links pl i) x) = Panicked
    \<or> (\<exists>now\<ge>t. example_events pl i = Sending x now Tick))"
  proof (rule againI)
    fix i
    have p: "t \<le> Suc (i + t) * example_period" by (simp add: example_period_def from_millis_def)
    show "\<exists>j\<ge>i. send_task (ends (example_links pl j) x) = Panicked
      \<or> (\<exists>now\<ge>t. example_events pl j = Sending x now Tick)"
    proof (cases x)
      case Near
      with p cycle_events(1) [of pl "i + t"] show ?thesis by (intro exI [of _ "6 + 3 * (i + t)"]) (auto simp del: mult_Suc)
    next
      case Far
      with p cycle_events(2) [of pl "i + t"] show ?thesis by (intro exI [of _ "7 + 3 * (i + t)"]) (auto simp del: mult_Suc)
    qed
  qed
next
  fix x
  show "again (\<lambda>i. ack_queue (ends (example_links pl i) x) = [] \<or> example_events pl i = Acking x)"
  proof (rule againI)
    fix i
    have "ack_queue (ends (example_links pl (6 + 3 * i)) x) = []"
      by (cases x) (simp_all add: example_links_cycle [OF assms] cycle_link_def speaker_def listener_def)
    then show "\<exists>j\<ge>i. ack_queue (ends (example_links pl j) x) = [] \<or> example_events pl j = Acking x"
      by (intro exI [of _ "6 + 3 * i"]) simp
  qed
next
  fix x d
  assume "again (\<lambda>i. sends alist_ops alist_ops True example_addr x d (example_events pl i) (example_links pl i))"
  then obtain i where "6 \<le> i" "sends alist_ops alist_ops True example_addr x d (example_events pl i) (example_links pl i)"
    by (rule againE)
  then have "x = Near" "d = line_datagram pl" using example_sends [OF assms] by blast+
  moreover have "\<exists>j\<ge>i. example_events pl j = Receiving Far (example_addr Near) (line_datagram pl)" for i
    by (rule exI [of _ "8 + 3 * i"]) (simp only: cycle_events, simp)
  ultimately show "again (\<lambda>i. recv_task (ends (example_links pl i) (other x)) = Panicked
      \<or> example_events pl i = Receiving (other x) (example_addr x) d)"
    by (auto simp: again_def)
qed

lemma example_small:
  assumes "whole pl"
  shows "small (example_links pl i)"
proof -
  have "Suc (length (app_sent (ends (example_links pl i) x))) < 2 ^ 32" for x
  proof (cases i rule: phases)
    case 1
    then have "i = 0 \<or> i = 1 \<or> i = 2 \<or> i = 3 \<or> i = 4 \<or> i = 5" by linarith
    then show ?thesis using 1
      by (cases x) (auto simp: example_links_begin [OF assms] first_links_def Let_def speaker_def listener_def endpoint_new_def)
  qed (cases x; simp add: example_links_cycle [OF assms] cycle_link_def speaker_def listener_def)+
  then show ?thesis by (simp add: small_def)
qed

end
