(* ===== verification/ReliableProgress.thy ===== *)
theory ReliableProgress
  imports FairRun
begin

text \<open>
  Progress of the link: in a fair run everything an application submits is delivered. The proof
  follows the first exchange (the early data packet provokes an acknowledgement, which comes back
  and starts the stream) and then the retransmission of each packet in turn.
\<close>

section \<open>Runs\<close>

context udp_link
begin

lemma run_act: "link_run R U oc addr ls evs \<Longrightarrow> link_act R U oc addr (evs i) (ls i) = Some (ls (Suc i))"
  by (simp add: link_run_def)

lemma run_reach: "link_run R U oc addr ls evs \<Longrightarrow> link_reachable R U oc addr (ls i)"
proof (induction i)
  case 0
  then show ?case by (simp add: link_run_def link_reachable.start)
next
  case (Suc i)
  then show ?case using link_reachable.step link_act_step [OF run_act] by blast
qed

lemma run_grows:
  assumes run: "link_run R U oc addr ls evs" and small: "\<And>i. small (ls i)" and "i \<le> j"
  shows "\<exists>ps. app_received (ends (ls j) x) = app_received (ends (ls i) x) @ ps"
    and "\<exists>pls. app_sent (ends (ls j) x) = app_sent (ends (ls i) x) @ pls"
  using \<open>i \<le> j\<close>
proof (induction j rule: dec_induct)
  case (step j)
  note grows = act_grows [OF run_act [OF run] run_reach [OF run] small, of j x]
  { case 1 then show ?case using step.IH(1) grows(1) by fastforce }
  { case 2 then show ?case using step.IH(2) grows(2) by fastforce }
qed simp_all

text \<open>What is in the table is sent again and again.\<close>

lemma run_unacked:
  assumes run: "link_run R U oc addr ls evs" and small: "\<And>i. small (ls i)"
    and "eu (unacked (shared (ends (ls i) x))) k = Some s" and "i \<le> j"
  shows "\<exists>s'. eu (unacked (shared (ends (ls j) x))) k = Some s' \<and> packet s' = packet s"
  using \<open>i \<le> j\<close>
proof (induction j rule: dec_induct)
  case (step j)
  then obtain s' where "eu (unacked (shared (ends (ls j) x))) k = Some s'" "packet s' = packet s" by auto
  with act_unacked(1) [OF run_act [OF run] run_reach [OF run] small this(1)] show ?case by auto
qed (use assms in simp)

lemma run_sends_unacked:
  assumes run: "link_run R U oc addr ls evs" and fair: "fair R U oc addr ls evs"
    and small: "\<And>i. small (ls i)" and s: "eu (unacked (shared (ends (ls i) x))) k = Some s"
  shows "\<exists>j\<ge>i. sends R U oc addr x (serialize (packet s)) (evs j) (ls j)"
proof (rule ccontr)
  assume "\<not> ?thesis"
  then have never: "\<not> sends R U oc addr x (serialize (packet s)) (evs j) (ls j)" if "i \<le> j" for j
    using that by blast
  have still: "eu (unacked (shared (ends (ls j) x))) k = Some s" if "i \<le> j" for j
    using that
  proof (induction j rule: dec_induct)
    case (step j)
    with act_unacked(1) [OF run_act [OF run] run_reach [OF run] small step.IH] never show ?case by auto
  qed (rule s)
  from fair have "again (\<lambda>i. send_task (ends (ls i) x) = Panicked
      \<or> (\<exists>now\<ge>Suc (time_sent s + retransmit_timeout). evs i = Sending x now Tick))"
    unfolding fair_def by blast
  then obtain j where j: "i \<le> j" "send_task (ends (ls j) x) = Panicked
      \<or> (\<exists>now\<ge>Suc (time_sent s + retransmit_timeout). evs j = Sending x now Tick)"
    by (rule againE)
  with link_tasks_run [OF run_reach [OF run] small, of j x] obtain now where "time_sent s + retransmit_timeout < now"
    "evs j = Sending x now Tick" by (auto simp: Suc_le_eq)
  with act_unacked(2) [OF run_act [OF run] run_reach [OF run] small still [OF j(1)]] never [OF j(1)]
  show False by blast
qed

lemma run_resends:
  assumes run: "link_run R U oc addr ls evs" and fair: "fair R U oc addr ls evs"
    and small: "\<And>i. small (ls i)" and k: "k < length (app_sent (ends (ls i) x))"
  shows "\<exists>a. again (\<lambda>j. sends R U oc addr x
    (serialize (data_packet (of_nat (Suc k)) a (app_sent (ends (ls i) x) ! k))) (evs j) (ls j))"
proof -
  let ?sent = "app_sent (ends (ls i) x)"
  note inv = link_end(2) [OF run_reach [OF run] small, of i x]
  from inv k have "of_nat (Suc k) \<in> dom (eu (unacked (shared (ends (ls i) x))))"
    unfolding send_inv_def by (auto simp: seqs_from_def)
  then obtain s where s: "eu (unacked (shared (ends (ls i) x))) (of_nat (Suc k)) = Some s" by auto
  with inv obtain k' a where k': "k' < length ?sent" "(of_nat (Suc k) :: u32) = of_nat (Suc k')"
    "packet s = data_packet (of_nat (Suc k)) a (?sent ! k')"
    unfolding send_inv_def by blast
  have "Suc (length ?sent) < 2 ^ 32" using small by (simp add: small_def)
  with k k' have "k' = k" by (simp add: of_nat_u32_inj del: of_nat_Suc)
  with k' have p: "packet s = data_packet (of_nat (Suc k)) a (?sent ! k)" by simp
  have "again (\<lambda>j. sends R U oc addr x (serialize (packet s)) (evs j) (ls j))"
  proof (rule again_late [of i])
    fix j assume "i \<le> j"
    from run_unacked [OF run small s this] obtain s'
      where s': "eu (unacked (shared (ends (ls j) x))) (of_nat (Suc k)) = Some s'" and p': "packet s' = packet s"
      by blast
    from run_sends_unacked [OF run fair small s'] p'
    show "\<exists>j'\<ge>j. sends R U oc addr x (serialize (packet s)) (evs j') (ls j')" by simp
  qed
  then show ?thesis unfolding p by blast
qed

lemma fair_net:
  assumes run: "link_run R U oc addr ls evs" and fair: "fair R U oc addr ls evs"
    and small: "\<And>i. small (ls i)" and "again (\<lambda>i. sends R U oc addr x d (evs i) (ls i))"
  shows "again (\<lambda>i. evs i = Receiving (other x) (addr x) d)"
proof -
  from fair assms(4) have "again (\<lambda>i. recv_task (ends (ls i) (other x)) = Panicked
      \<or> evs i = Receiving (other x) (addr x) d)"
    unfolding fair_def by blast
  with link_tasks_run [OF run_reach [OF run] small] show ?thesis by simp
qed

text \<open>A queued acknowledgement is sent.\<close>

lemma run_acks_front:
  assumes run: "link_run R U oc addr ls evs" and fair: "fair R U oc addr ls evs"
    and "ack_queue (ends (ls i) x) = a # q"
  shows "\<exists>j\<ge>i. evs j = Acking x \<and> (\<exists>q'. ack_queue (ends (ls j) x) = a # q @ q')"
proof -
  have ex: "\<exists>j\<ge>i. ack_queue (ends (ls j) x) = [] \<or> evs j = Acking x"
    using fair by (auto simp: fair_def again_def)
  define j where "j = (LEAST j. i \<le> j \<and> (ack_queue (ends (ls j) x) = [] \<or> evs j = Acking x))"
  have j: "i \<le> j" "ack_queue (ends (ls j) x) = [] \<or> evs j = Acking x"
    using LeastI_ex [OF ex] unfolding j_def by auto
  have before: "evs m \<noteq> Acking x" if "i \<le> m" "m < j" for m
    using not_less_Least [of m "\<lambda>j. i \<le> j \<and> (ack_queue (ends (ls j) x) = [] \<or> evs j = Acking x)"] that
    unfolding j_def by auto
  have "\<exists>q'. ack_queue (ends (ls m) x) = a # q @ q'" if "i \<le> m" "m \<le> j" for m
    using that
  proof (induction m rule: dec_induct)
    case (step m)
    then obtain q' where q': "ack_queue (ends (ls m) x) = a # q @ q'" by auto
    from run_act [OF run, of m] show ?case
      by (cases rule: act_cases [of _ _ _ _ _ _ _ x]) (use q' before [of m] step in auto)
  qed (use assms(3) in simp)
  from this [of j] j show ?thesis by auto
qed

lemma run_acks:
  assumes run: "link_run R U oc addr ls evs" and fair: "fair R U oc addr ls evs"
    and "ack_queue (ends (ls i) x) = as @ a # q"
  shows "\<exists>j\<ge>i. sends R U oc addr x (serialize (ack_packet (ack_num a))) (evs j) (ls j)"
  using assms(3)
proof (induction as arbitrary: i q)
  case Nil
  then have "ack_queue (ends (ls i) x) = a # q" by simp
  from run_acks_front [OF run fair this] obtain j q'
    where j: "i \<le> j" "evs j = Acking x" "ack_queue (ends (ls j) x) = a # q @ q'" by blast
  from run_act [OF run, of j]
  have "sends R U oc addr x (serialize (ack_packet (ack_num a))) (evs j) (ls j)"
    using j by (simp add: sends_def Let_def periodic_ack_def)
  with j show ?case by blast
next
  case (Cons b as)
  then have "ack_queue (ends (ls i) x) = b # as @ a # q" by simp
  from run_acks_front [OF run fair this] obtain j q'
    where j: "i \<le> j" "evs j = Acking x" "ack_queue (ends (ls j) x) = b # as @ a # q @ q'" by auto
  from run_act [OF run, of j] j have "ack_queue (ends (ls (Suc j)) x) = as @ a # q @ q'"
    by (cases rule: act_cases [of _ _ _ _ _ _ _ x]) auto
  from Cons.IH [OF this] j(1) show ?case by (meson Suc_leD le_trans)
qed


section \<open>Progress\<close>

text \<open>The packet the receiving task waits for is delivered when it arrives.\<close>

lemma act_delivers:
  assumes act: "link_act R U oc addr (Receiving x (addr (other x)) d) l = Some l'"
    and reach: "link_reachable R U oc addr l" and small: "small l"
    and d: "deserialize (take recv_buf_len d) = Some p"
    and sq: "seq (header p) = of_nat (length (app_received (ends l x)))"
  shows "length (app_received (ends l x)) < length (app_received (ends l' x))"
  using act
proof (cases rule: act_cases [of _ _ _ _ _ _ _ x])
  case (got a d' t st out)
  from sq link_end(3) [OF reach small, of x]
  have eq: "seq (header p) = expected_sequence (shared (ends l x))" by simp
  from rx.recv_equal_spec [OF link_end(1) [OF reach small] eq, of oc "addr (other x)"] got d eq
  show ?thesis by (auto simp: recv_packet_def)
qed auto

lemma run_receives_mono:
  assumes run: "link_run R U oc addr ls evs" and small: "\<And>i. small (ls i)" and "i \<le> j"
  shows "length (app_received (ends (ls i) x)) \<le> length (app_received (ends (ls j) x))"
  using run_grows(1) [OF run small \<open>i \<le> j\<close>, of x] by auto

text \<open>What arrives at an endpoint whose stream has begun.\<close>

lemma act_acks:
  assumes act: "link_act R U oc addr (Receiving x (addr (other x)) (serialize (ack_packet n))) l = Some l'"
    and reach: "link_reachable R U oc addr l" and small: "small l" and "app_received (ends l x) \<noteq> []"
  shows "ack_queue (ends l' x) = ack_queue (ends l x) @ [\<lparr>ack_num = n, ack_peer = addr (other x)\<rparr>]"
  using act
proof (cases rule: act_cases [of _ _ _ _ _ _ _ x])
  case (got a d t st out)
  have "expected_sequence (shared (ends l x)) \<noteq> 0"
    using link_end(3) [OF reach small, of x] link_received [OF reach small, of x] assms(4)
      of_nat_u32_inj [of _ 0] by simp
  then have "recv_step R oc (addr (other x)) (shared (ends l x))
      (RecvFrom (serialize (ack_packet n)) (addr (other x)))
    = Some (Running, shared (ends l x), [AckSend \<lparr>ack_num = n, ack_peer = addr (other x)\<rparr>])"
    by (simp add: deserialize_ack recv_packet_def recv_less_def)
  with got show ?thesis by auto
qed auto

lemma run_handshake:
  assumes run: "link_run R U oc addr ls evs" and fair: "fair R U oc addr ls evs"
    and small: "\<And>i. small (ls i)" and sent: "app_sent (ends (ls i) (other x)) \<noteq> []"
  shows "\<exists>j\<ge>i. app_received (ends (ls j) x) \<noteq> []"
proof (rule ccontr)
  assume "\<not> ?thesis"
  then have none: "app_received (ends (ls j) x) = []" if "i \<le> j" for j using that by blast
  let ?c = "receiver_acknowledged (shared (ends (ls i) x))"
  let ?ack = "serialize (ack_packet ?c)" and ?y = "other x"
  have const: "receiver_acknowledged (shared (ends (ls j) x)) = ?c" if "i \<le> j" for j
    using that
  proof (induction j rule: dec_induct)
    case (step j)
    with act_grows(3) [OF run_act [OF run] run_reach [OF run] small, of j x] none [of j] none [of "Suc j"]
    show ?case by simp
  qed simp
  have zero: "expected_sequence (shared (ends (ls j) x)) = 0" if "i \<le> j" for j
    using link_end(3) [OF run_reach [OF run] small, of j x] none [OF that] by simp
  from run_resends [OF run fair small, of 0 i ?y] sent obtain a pl
    where "again (\<lambda>j. sends R U oc addr ?y (serialize (data_packet 1 a pl)) (evs j) (ls j))" by auto
  note arrives = fair_net [OF run fair small this, unfolded other_other]
  have "again (\<lambda>j. sends R U oc addr x ?ack (evs j) (ls j))"
  proof (rule again_late [of i])
    fix j assume "i \<le> j"
    with arrives obtain k where k: "j \<le> k" "evs k = Receiving x (addr ?y) (serialize (data_packet 1 a pl))" "i \<le> k"
      by (meson againE order_trans)
    from recv_ahead [OF zero [OF k(3)], of 1 oc "addr ?y" a pl] const [OF k(3)] run_act [OF run, of k] k(2)
    have "sends R U oc addr x ?ack (evs k) (ls k)"
      by (auto simp: sends_def link_act_def Let_def simp del: recv_step.simps split: if_splits)
    with k show "\<exists>k\<ge>j. sends R U oc addr x ?ack (evs k) (ls k)" by blast
  qed
  note returns = fair_net [OF run fair small this]
  from returns obtain b where b: "evs b = Receiving ?y (addr x) ?ack" by (rule againE) 
  have begun: "app_received (ends (ls j) ?y) \<noteq> []" if "Suc b \<le> j" for j
  proof -
    have "app_received (ends (ls (Suc b)) ?y) \<noteq> []"
    proof (cases "app_received (ends (ls b) ?y)")
      case Nil
      with act_delivers [OF _ run_reach [OF run] small deserialize_ack, of ?y ?c b] b run_act [OF run, of b]
      show ?thesis by (auto simp: ack_packet_def)
    qed (use act_grows(1) [OF run_act [OF run] run_reach [OF run] small, of b ?y] in auto)
    with run_receives_mono [OF run small that, of ?y] show ?thesis by auto
  qed
  have "again (\<lambda>j. sends R U oc addr ?y ?ack (evs j) (ls j))"
  proof (rule again_late [of "Suc b"])
    fix j assume "Suc b \<le> j"
    with returns obtain k where k: "j \<le> k" "evs k = Receiving ?y (addr x) ?ack" "Suc b \<le> k"
      by (meson againE order_trans)
    from act_acks [OF _ run_reach [OF run] small begun [OF k(3)], of ?c] k(2) run_act [OF run, of k]
    have "ack_queue (ends (ls (Suc k)) ?y) = ack_queue (ends (ls k) ?y) @ [\<lparr>ack_num = ?c, ack_peer = addr x\<rparr>]"
      by simp
    with run_acks [OF run fair, of "Suc k" ?y _ "\<lparr>ack_num = ?c, ack_peer = addr x\<rparr>" "[]"] k(1)
    show "\<exists>k\<ge>j. sends R U oc addr ?y ?ack (evs k) (ls k)" by (auto dest: Suc_leD le_trans)
  qed
  note fair_net [OF run fair small this, unfolded other_other]
  then obtain k where k: "i \<le> k" "evs k = Receiving x (addr ?y) ?ack" by (rule againE)
  with act_delivers [OF _ run_reach [OF run] small deserialize_ack, of x ?c k] run_act [OF run, of k]
    none [of k] none [of "Suc k"]
  show False by (simp add: ack_packet_def)
qed

lemma run_delivers:
  assumes run: "link_run R U oc addr ls evs" and fair: "fair R U oc addr ls evs"
    and small: "\<And>i. small (ls i)" and "k \<le> length (app_sent (ends (ls i) (other x)))"
    and sent: "app_sent (ends (ls i) (other x)) \<noteq> []"
  shows "\<exists>j\<ge>i. k < length (app_received (ends (ls j) x))"
  using assms(4)
proof (induction k)
  case 0
  from run_handshake [OF run fair small sent] show ?case by simp
next
  case (Suc k)
  let ?y = "other x"
  from Suc obtain j where j: "i \<le> j" "k < length (app_received (ends (ls j) x))" by auto
  have "k < length (app_sent (ends (ls i) ?y))" using Suc.prems by simp
  from run_resends [OF run fair small this] obtain a
    where "again (\<lambda>j. sends R U oc addr ?y
      (serialize (data_packet (of_nat (Suc k)) a (app_sent (ends (ls i) ?y) ! k))) (evs j) (ls j))"
    by blast
  from fair_net [OF run fair small this] obtain m where m: "j \<le> m" "evs m = Receiving x (addr ?y)
      (serialize (data_packet (of_nat (Suc k)) a (app_sent (ends (ls i) ?y) ! k)))"
    unfolding other_other by (rule againE)
  from run_receives_mono [OF run small m(1), of x] j(2) have now: "k < length (app_received (ends (ls m) x))" by simp
  have "Suc k < length (app_received (ends (ls (Suc m)) x))"
  proof (cases "length (app_received (ends (ls m) x)) = Suc k")
    case True
    from m(2) run_act [OF run, of m]
    have "link_act R U oc addr (Receiving x (addr ?y)
      (serialize (data_packet (of_nat (Suc k)) a (app_sent (ends (ls i) ?y) ! k)))) (ls m) = Some (ls (Suc m))"
      by simp
    from act_delivers [OF this run_reach [OF run] small long_payload_truncated [OF _]] True
    show ?thesis by (simp add: data_packet_def)
  next
    case False
    with now run_receives_mono [OF run small, of m "Suc m" x] show ?thesis by simp
  qed
  with j(1) m(1) show ?case by (meson le_SucI le_trans)
qed

text \<open>From some time on, what was submitted by the time \<open>i\<close> has been delivered.\<close>

lemma run_stream:
  assumes run: "link_run R U oc addr ls evs" and fair: "fair R U oc addr ls evs"
    and small: "\<And>i. small (ls i)" and pls: "app_sent (ends (ls i) (other x)) = pls"
  shows "\<exists>j\<ge>i. \<forall>k\<ge>j. map payload (take (length pls) (tl (app_received (ends (ls k) x)))) =
    map (\<lambda>pl. wire_payload (Some (take 6592 pl))) pls"
proof (cases "pls = []")
  case False
  have "app_sent (ends (ls i) (other x)) \<noteq> []" using False pls by simp
  from run_delivers [OF run fair small _ this, of "length pls"] pls obtain j
    where j: "i \<le> j" "length pls < length (app_received (ends (ls j) x))" by auto
  have "map payload (take (length pls) (tl (app_received (ends (ls k) x)))) =
      map (\<lambda>pl. wire_payload (Some (take 6592 pl))) pls" if "j \<le> k" for k
  proof -
    let ?ps = "app_received (ends (ls k) x)"
    from run_receives_mono [OF run small that, of x] j(2) have len: "length pls \<le> length ?ps - 1" by simp
    from j(1) that have "i \<le> k" by simp
    from run_grows(2) [OF run small this, of "other x"] pls obtain qs
      where sent: "app_sent (ends (ls k) (other x)) = pls @ qs" by auto
    from link_stream [OF run_reach [OF run] small, of k x]
    have "map payload (tl ?ps) = map (\<lambda>pl. wire_payload (Some (take 6592 pl))) (take (length ?ps - 1) (pls @ qs))"
      by (simp add: Let_def sent)
    then have "map payload (take (length pls) (tl ?ps))
        = map (\<lambda>pl. wire_payload (Some (take 6592 pl))) (take (length pls) (take (length ?ps - 1) (pls @ qs)))"
      by (simp only: take_map [symmetric])
    also have "take (length pls) (take (length ?ps - 1) (pls @ qs)) = pls" using len by (simp add: min_def)
    finally show ?thesis .
  qed
  with j(1) show ?thesis by blast
qed auto

end

section \<open>Properties of the runs\<close>

text \<open>Property C2: everything submitted arrives: in every run in which timers keep firing, queued
  acknowledgements are not left lying and a datagram sent again and again is received again and
  again, whatever else is lost, repeated, reordered or sent by strangers, what an
  application has submitted at some time is, from some later time on, delivered to the other, complete
  and in order behind the first (payload-less) packet, each payload cut to 6592 bytes.\<close>

theorem everything_delivered:
  assumes "dashmap R er" and "dashmap U eu"
    and "link_run R U oc addr ls evs" and "fair R U oc addr ls evs" and "\<forall>i. small (ls i)"
    and "app_sent (ends (ls i) (other x)) = pls"
  shows "\<exists>j\<ge>i. \<forall>k\<ge>j. map payload (take (length pls) (tl (app_received (ends (ls k) x)))) =
    map (\<lambda>pl. wire_payload (Some (take 6592 pl))) pls"
  using udp_link.run_stream [OF udp_link.intro [OF receiver.intro [OF assms(1)] sender.intro [OF assms(2)]]]
    assms(3-6) by blast

theorem everything_delivered_witness:
  "\<exists>j. \<forall>k\<ge>j. map payload (take 1 (tl (app_received (ends (example_links [72, 105] k) Far)))) = [Some [72, 105]]"
proof -
  have w: "whole [72, 105]" by (simp add: whole_def)
  have "app_sent (ends (example_links [72, 105] (6 + 3 * 0)) (other Far)) = [[72, 105]]"
    unfolding example_links_cycle [OF w] by (simp add: cycle_link_def speaker_def)
  from everything_delivered [OF alist_dashmap alist_dashmap example_run [OF w] example_fair [OF w] _ this] example_small [OF w]
  show ?thesis by (simp add: wire_payload_def) blast
qed

end
