(* ===== verification/PeerLink.thy ===== *)
theory PeerLink
  imports PeerChat ReliableProgress
begin

text \<open>
  Two peers on top of the reliable UDP layer: hole punching and chat (\<open>peer/src/main.rs\<close>) on the
  two endpoints of a link (\<open>common/src/singleconnection.rs\<close>).
\<close>

section \<open>Hole punching and chat over what an endpoint delivers\<close>

lemma chat_receive_line:
  assumes "utf8_valid (text_bytes m)" and "ip_of a = ip_of peer" and "payload p = Some (text_bytes m)"
  shows "chat_receive peer (p, a) =
    (if m \<in> own_words then Ignore else if m = ''GOODBYE'' then ExitProcess else Print m)"
  using assms by (auto simp: chat_receive_def from_utf8_valid own_words_def)

abbreviation before_goodbye :: "string list \<Rightarrow> string list" where
  "before_goodbye \<equiv> takeWhile (\<lambda>m. m \<noteq> ''GOODBYE'')"

lemma chat_receiver_lines:
  assumes "map payload ps = map (\<lambda>m. Some (text_bytes m)) ms"
    and "\<forall>m\<in>set ms. utf8_valid (text_bytes m)" and "ip_of a = ip_of peer"
  shows "chat_receiver peer (map (\<lambda>p. (p, a)) ps)
    = (visible (before_goodbye ms), ''GOODBYE'' \<in> set ms)"
  using assms(1,2)
proof (induction ms arbitrary: ps)
  case (Cons m ms)
  then obtain p qs where ps: "ps = p # qs" and p: "payload p = Some (text_bytes m)"
    and qs: "map payload qs = map (\<lambda>m. Some (text_bytes m)) ms" by auto
  from Cons.prems(2) have m: "utf8_valid (text_bytes m)" by simp
  have "chat_receiver peer (map (\<lambda>p. (p, a)) qs) = (visible (before_goodbye ms), ''GOODBYE'' \<in> set ms)"
    using Cons.IH [OF qs] Cons.prems(2) by simp
  moreover have "''GOODBYE'' \<notin> own_words" by (simp add: own_words_def)
  ultimately show ?case
    unfolding ps using chat_receive_line [OF m assms(3) p] by auto
qed simp

text \<open>What has been printed stays printed.\<close>

lemma chat_receiver_append:
  "prefix (fst (chat_receiver peer xs)) (fst (chat_receiver peer (xs @ ys)))"
  by (induction xs) (auto split: chat_action.split prod.split)

lemma wire_text:
  "m \<noteq> [] \<Longrightarrow> length m \<le> 6592 \<Longrightarrow> wire_payload (Some (take 6592 (text_bytes m))) = Some (text_bytes m)"
proof -
  assume "m \<noteq> []" "length m \<le> 6592"
  then have "length (text_bytes m) \<le> 6592" "text_bytes m \<noteq> []" by (simp_all add: text_bytes_def)
  then show ?thesis by (simp only: take_all wire_payload_def) simp
qed

text \<open>What an endpoint has delivered behind the first acknowledgement is what the other submitted.\<close>

lemma received_texts:
  assumes "dashmap R er" and "dashmap U eu" and "link_reachable R U oc addr l" and "small l"
    and "app_sent (ends l (other x)) = map text_bytes ms"
    and "\<And>m. m \<in> set ms \<Longrightarrow> m \<noteq> [] \<and> length m \<le> 6592"
  shows "map payload (drop (Suc n) (app_received (ends l x)))
    = map (\<lambda>m. Some (text_bytes m)) (take (length (app_received (ends l x)) - Suc n) (drop n ms))"
proof -
  let ?ps = "app_received (ends l x)"
  have w: "wire_payload (Some (take 6592 (text_bytes m))) = Some (text_bytes m)" if "m \<in> set ms" for m
    using assms(6) [OF that] by (intro wire_text) blast+
  from udp_link.link_stream [OF udp_link.intro [OF receiver.intro sender.intro], OF assms(1-4), of x]
  have "map payload (tl ?ps) = map (\<lambda>pl. wire_payload (Some (take 6592 pl))) (take (length ?ps - 1) (map text_bytes ms))"
    by (simp add: Let_def assms(5))
  also have "\<dots> = map (\<lambda>m. Some (text_bytes m)) (take (length ?ps - 1) ms)"
    unfolding take_map [of "length ?ps - 1" text_bytes ms] map_map
    by (rule map_cong [OF refl]) (simp only: comp_apply w [OF in_set_takeD])
  finally have "map payload (drop n (tl ?ps)) = map (\<lambda>m. Some (text_bytes m)) (drop n (take (length ?ps - 1) ms))"
    by (metis drop_map)
  also have "drop n (take (length ?ps - 1) ms) = take (length ?ps - Suc n) (drop n ms)" by (simp add: drop_take)
  finally show ?thesis by (simp add: drop_Suc)
qed

text \<open>Beginnings of what is said.\<close>

lemma takeWhile_mono_prefix: "prefix xs ys \<Longrightarrow> prefix (takeWhile P xs) (takeWhile P ys)"
proof -
  assume "prefix xs ys"
  then obtain zs where ys: "ys = xs @ zs" by (auto simp: prefix_def)
  show ?thesis
  proof (cases "\<forall>x\<in>set xs. P x")
    case True
    then have "takeWhile P ys = xs @ takeWhile P zs" "takeWhile P xs = xs"
      by (simp_all add: ys takeWhile_append takeWhile_eq_all_conv)
    then show ?thesis by (metis prefixI)
  next
    case False
    then show ?thesis by (auto simp: ys takeWhile_append)
  qed
qed

lemma drop_mono_prefix: "prefix xs ys \<Longrightarrow> prefix (drop n xs) (drop n ys)"
  by (auto simp: prefix_def)

lemma visible_before_goodbye: "visible (before_goodbye ms) = before_goodbye (visible ms)"
  by (induction ms) (auto simp: own_words_def)

lemma spoken_before_goodbye:
  "before_goodbye (visible (spoken ls))
    = filter (\<lambda>m. m \<noteq> [] \<and> m \<notin> own_words) (takeWhile (\<lambda>m. m \<noteq> ''exit'' \<and> m \<noteq> ''GOODBYE'') ls)"
  by (induction ls) (auto simp: spoken_def own_words_def)

lemma before_goodbye_filter:
  "before_goodbye (filter (\<lambda>m. m \<noteq> [] \<and> m \<notin> own_words) ls)
    = filter (\<lambda>m. m \<noteq> [] \<and> m \<notin> own_words) (before_goodbye ls)"
  by (induction ls) (auto simp: own_words_def)

lemma own_words_texts:
  "m \<in> insert ''GOODBYE'' own_words \<Longrightarrow> utf8_valid (text_bytes m) \<and> m \<noteq> [] \<and> length m \<le> 6592"
  by (auto simp: own_words_def text_bytes_def)

text \<open>A punch or a confirmation among what is delivered in time leads to the chat.\<close>

lemma hole_punching_chat:
  assumes "\<forall>r\<in>set rounds. fst r < punch_timeout"
    and "(p, a) \<in> set (List.map_filter snd rounds)" and "payload p = Some HOLE_PUNCH \<or> payload p = Some CONNECTED"
  shows "hole_punching_wan rounds = (Chat, [Data CONNECTED])"
  using assms
proof (induction rounds)
  case (Cons r rounds)
  obtain t got where r: "r = (t, got)" by (cases r)
  with Cons show ?case
    by (cases got; auto simp: List.map_filter_simps split: option.split)
qed (simp add: List.map_filter_simps)

section \<open>Properties of two peers\<close>

text \<open>Holes can be punched through the reliable layer: there is a run in which the one
  peer submits its first punch and the other, whose waiting loop is given what its endpoint
  delivers in time, gets from it to the chat and confirms; the punch comes through although the
  stream has not begun, behind the acknowledgement it provoked itself.\<close>

lemma hole_punching_succeeds:
  assumes "dashmap R er" and "dashmap U eu"
    and "\<forall>t\<in>set ts. t < punch_timeout" and "length ts = 2"
  shows "\<exists>l. link_reachable R U oc addr l \<and> app_sent (ends l Far) = []
    \<and> map Data (app_sent (ends l Near)) = punch_task [True] punch_attempts
    \<and> hole_punching_wan (zip ts (map (\<lambda>p. Some (p, addr Near)) (app_received (ends l Far))))
      = (Chat, [Data CONNECTED])"
proof -
  from first_payload_arrives [OF assms(1,2), of oc addr HOLE_PUNCH] obtain l
    where l: "link_reachable R U oc addr l" "app_sent (ends l Far) = []" "app_sent (ends l Near) = [HOLE_PUNCH]"
      and p: "map payload (app_received (ends l Far)) = [None, wire_payload (Some (take 6592 HOLE_PUNCH))]"
    by - (elim exE conjE, rule that, assumption+)
  have "wire_payload (Some (take 6592 HOLE_PUNCH)) = Some HOLE_PUNCH"
    by (simp add: HOLE_PUNCH_def wire_payload_def text_bytes_def)
  with p obtain p0 p1 where r: "app_received (ends l Far) = [p0, p1]" "payload p0 = None" "payload p1 = Some HOLE_PUNCH"
    by (auto simp: map_eq_Cons_conv)
  from assms(4) obtain t0 t1 where t: "ts = [t0, t1]" by (auto simp: numeral_2_eq_2 length_Suc_conv)
  have "hole_punching_wan (zip ts (map (\<lambda>p. Some (p, addr Near)) (app_received (ends l Far))))
      = (Chat, [Data CONNECTED])"
    using assms(3) by (simp add: t r)
  moreover have "map Data (app_sent (ends l Near)) = punch_task [True] punch_attempts"
    by (simp add: l punch_attempts_def numeral_eq_Suc)
  ultimately show ?thesis using l by blast
qed

text \<open>Property C11: the chat is in order: in every run of two peers over a network that loses, repeats
  and reorders datagrams, with strangers sending anything, what the one peer prints from any
  point of the conversation on is what the other has submitted from there, line by line without
  gaps, repetitions or inventions, up to what has been delivered and to the goodbye, which ends the
  program; only the program's own words are left out. (Lines of at most 6592 bytes.)\<close>

theorem chat_in_order:
  assumes "dashmap R er" and "dashmap U eu" and "link_reachable R U oc addr l" and "small l"
    and "app_sent (ends l (other x)) = map text_bytes ms"
    and "\<forall>m\<in>set ms. utf8_valid (text_bytes m) \<and> m \<noteq> [] \<and> length m \<le> 6592"
    and "ip_of (addr (other x)) = ip_of peer"
    and "now = take (length (app_received (ends l x)) - Suc n) (drop n ms)"
  shows "chat_receiver peer (map (\<lambda>p. (p, addr (other x))) (drop (Suc n) (app_received (ends l x))))
    = (visible (takeWhile (\<lambda>m. m \<noteq> ''GOODBYE'') now), ''GOODBYE'' \<in> set now)"
proof -
  have "map payload (drop (Suc n) (app_received (ends l x))) = map (\<lambda>m. Some (text_bytes m)) now"
    unfolding assms(8) by (rule received_texts [OF assms(1-5)]) (use assms(6) in blast)
  moreover have "\<forall>m\<in>set now. utf8_valid (text_bytes m)"
    using assms(6) unfolding assms(8) by (blast dest: in_set_takeD in_set_dropD)
  ultimately show ?thesis using assms(7) by (intro chat_receiver_lines)
qed

theorem chat_in_order_witness:
  "\<exists>l. link_reachable alist_ops alist_ops True example_addr l
    \<and> chat_receiver (example_addr Near) (map (\<lambda>p. (p, example_addr Near)) (drop 1 (app_received (ends l Far))))
      = ([''Hi''], False)"
proof -
  from alist_link.first_payload [of True example_addr "text_bytes ''Hi''"] obtain l
    where r: "link_reachable alist_ops alist_ops True example_addr l" and s: "small l"
      and n: "app_sent (ends l Near) = [text_bytes ''Hi'']"
      and p: "map payload (app_received (ends l Far)) = [None, wire_payload (Some (take 6592 (text_bytes ''Hi'')))]"
    by - (elim exE conjE, rule that, assumption+)
  have two: "length (app_received (ends l Far)) = 2"
    using arg_cong [OF p, of length] by simp
  have "app_sent (ends l (other Far)) = map text_bytes [''Hi'']" using n by simp
  from chat_in_order [OF alist_dashmap alist_dashmap r s this, of "example_addr Near" _ 0, OF _ _ refl] two
  have "chat_receiver (example_addr Near) (map (\<lambda>p. (p, example_addr Near)) (drop 1 (app_received (ends l Far))))
      = ([''Hi''], False)" by (simp add: own_words_def text_bytes_def)
  with r show ?thesis by blast
qed

text \<open>Property C4: what is typed on the one side is printed on the other. Let the one side run the chat,
  its tasks interleaved in any way, behind the words hole punching has put into the channel, and
  hand what is taken from the channel to its endpoint; let the network do its worst. Then what the
  other side's chat prints is a beginning of the lines typed, trimmed and in order, up to a goodbye;
  only empty lines and the program's own words are left out. (Lines of at most 6592 bytes.)\<close>

theorem typed_lines_printed:
  assumes "dashmap R er" and "dashmap U eu" and "link_reachable R U oc addr l" and "small l"
    and "st = chat_run peer evs (Chat_new n (said ps) k)"
    and "set ps \<subseteq> own_words" and "k \<le> length ps" and "length ps \<le> k + chat_capacity"
    and "map Data (app_sent (ends l (other x))) = take (c_taken st) (c_sent st)"
    and "\<forall>m\<in>set (typed_lines evs). length m \<le> 6592"
    and "ip_of (addr (other x)) = ip_of peer'" and "j \<le> length ps"
  shows "prefix (fst (chat_receiver peer' (map (\<lambda>p. (p, addr (other x))) (drop (Suc j) (app_received (ends l x))))))
    (filter (\<lambda>m. m \<noteq> [] \<and> m \<notin> own_words) (takeWhile (\<lambda>m. m \<noteq> ''exit'' \<and> m \<noteq> ''GOODBYE'') (typed_lines evs)))"
proof -
  from chat_run_said [OF assms(7,8), of peer evs n] obtain ms ls
    where sent: "c_sent st = said (ps @ ms)" and ls: "prefix ls (typed_lines evs)"
      and ms: "prefix (visible ms) (visible (spoken ls))" unfolding assms(5) by blast
  define ts where "ts = take (c_taken st) (ps @ ms)"
  define now where "now = take (length (app_received (ends l x)) - Suc j) (drop j ts)"
  have "map Data (app_sent (ends l (other x))) = map Data (map text_bytes ts)"
    unfolding assms(9) sent ts_def by (simp add: said_def take_map)
  then have app: "app_sent (ends l (other x)) = map text_bytes ts"
    by (rule map_injective) (simp add: inj_def)
  have texts: "utf8_valid (text_bytes m) \<and> m \<noteq> [] \<and> length m \<le> 6592" if "m \<in> set ts" for m
  proof -
    from that have "m \<in> own_words \<or> m \<in> set (visible ms)"
      using assms(6) unfolding ts_def by (auto dest!: in_set_takeD)
    then have "m \<in> own_words \<or> m \<in> set (spoken ls)" using set_mono_prefix [OF ms] by auto
    then have "m \<in> insert ''GOODBYE'' own_words \<or> m \<in> set (typed_lines evs) \<and> m \<noteq> []"
      using set_mono_prefix [OF ls] by (auto simp: spoken_def dest: set_takeWhileD split: if_splits)
    then show ?thesis using own_words_texts assms(10) typed_lines_valid by blast
  qed
  have "fst (chat_receiver peer' (map (\<lambda>p. (p, addr (other x))) (drop (Suc j) (app_received (ends l x)))))
      = visible (before_goodbye now)"
    using chat_in_order [OF assms(1-4) app _ assms(11) now_def] texts by simp
  moreover have "prefix now (drop j ps @ ms)"
    using drop_append [of j ps ms] assms(12) unfolding now_def ts_def
    by (metis append_Nil2 diff_is_0_eq drop_0 prefix_order.trans take_is_prefix drop_mono_prefix)
  then have "prefix (before_goodbye (visible now)) (before_goodbye (visible (drop j ps @ ms)))"
    by (intro takeWhile_mono_prefix filter_mono_prefix)
  moreover have "visible (drop j ps) = []" using assms(6) by (auto simp: filter_empty_conv dest: in_set_dropD)
  moreover have "prefix (before_goodbye (visible ms)) (before_goodbye (visible (spoken ls)))"
    by (rule takeWhile_mono_prefix [OF ms])
  moreover have "before_goodbye (visible (spoken ls))
      = filter (\<lambda>m. m \<noteq> [] \<and> m \<notin> own_words) (takeWhile (\<lambda>m. m \<noteq> ''exit'' \<and> m \<noteq> ''GOODBYE'') ls)"
    by (rule spoken_before_goodbye)
  moreover have "prefix \<dots> (filter (\<lambda>m. m \<noteq> [] \<and> m \<notin> own_words)
      (takeWhile (\<lambda>m. m \<noteq> ''exit'' \<and> m \<noteq> ''GOODBYE'') (typed_lines evs)))"
    by (intro filter_mono_prefix takeWhile_mono_prefix ls)
  ultimately show ?thesis
    by (auto simp: visible_before_goodbye intro: prefix_order.trans)
qed

theorem typed_lines_printed_witness:
  "\<exists>l. link_reachable alist_ops alist_ops True example_addr l
    \<and> prefix (fst (chat_receiver (example_addr Near) (map (\<lambda>p. (p, example_addr Near)) (drop 1 (app_received (ends l Far)))))) [''Hi'']"
proof -
  from alist_link.first_payload [of True example_addr "text_bytes ''Hi''"] obtain l
    where r: "link_reachable alist_ops alist_ops True example_addr l" and s: "small l"
      and n: "app_sent (ends l Near) = [text_bytes ''Hi'']"
    by - (elim exE conjE, rule that, assumption+)
  let ?evs = "[StdinRead (Some (text_bytes '' Hi'' @ [10])), MainTurn, SenderTake]"
  define st where "st = chat_run (example_addr Far) ?evs (Chat_new 0 (said []) 0)"
  have "c_taken st = 1 \<and> c_sent st = [Data (text_bytes ''Hi'')]" unfolding st_def by code_simp
  then have sent: "map Data (app_sent (ends l (other Far))) = take (c_taken st) (c_sent st)" using n by simp
  have t: "typed_lines ?evs = [''Hi'']" by code_simp
  have "''Hi'' \<notin> own_words" by (simp add: own_words_def)
  with typed_lines_printed [OF alist_dashmap alist_dashmap r s st_def _ _ _ sent, of "example_addr Near" 0, unfolded t]
  have "prefix (fst (chat_receiver (example_addr Near) (map (\<lambda>p. (p, example_addr Near)) (drop 1 (app_received (ends l Far)))))) [''Hi'']"
    by simp
  with r show ?thesis by blast
qed




text \<open>Property C6: holes get punched: in every run in which timers keep firing, acknowledgements are
  not left lying and what is sent again and again gets through again and again, once the one peer
  has handed a punch (or a confirmation) to the reliable layer, there is a time from which on the
  other's waiting loop, given what its endpoint has delivered by then, with any idle rounds in
  between, but within its five seconds, has got from it to the chat and confirms.\<close>

theorem holes_are_punched:
  assumes "dashmap R er" and "dashmap U eu"
    and "link_run R U oc addr ls evs" and "fair R U oc addr ls evs" and "\<forall>i. small (ls i)"
    and "pl \<in> set (app_sent (ends (ls i) (other x)))" and "pl = HOLE_PUNCH \<or> pl = CONNECTED"
  shows "\<exists>t\<ge>i. \<forall>k\<ge>t. \<forall>rounds. (\<forall>r\<in>set rounds. fst r < punch_timeout)
    \<and> List.map_filter snd rounds = map (\<lambda>p. (p, addr (other x))) (app_received (ends (ls k) x))
    \<longrightarrow> hole_punching_wan rounds = (Chat, [Data CONNECTED])"
proof -
  let ?pls = "app_sent (ends (ls i) (other x))" and ?got = "\<lambda>k. app_received (ends (ls k) x)"
  from udp_link.run_stream [OF udp_link.intro [OF receiver.intro [OF assms(1)] sender.intro [OF assms(2)]]
      assms(3,4) _ refl] assms(5)
  obtain t where t: "i \<le> t" "\<And>k. t \<le> k \<Longrightarrow> map payload (take (length ?pls) (tl (?got k)))
      = map (\<lambda>pl. wire_payload (Some (take 6592 pl))) ?pls" by blast
  have "\<exists>p\<in>set (?got k). payload p = Some HOLE_PUNCH \<or> payload p = Some CONNECTED" if "t \<le> k" for k
  proof -
    have "wire_payload (Some (take 6592 pl)) = Some pl"
      using assms(7) by (auto simp: HOLE_PUNCH_def CONNECTED_def wire_payload_def text_bytes_def)
    with assms(6) have "Some pl \<in> set (map payload (take (length ?pls) (tl (?got k))))"
      unfolding t(2) [OF that] by force
    then obtain p where "p \<in> set (take (length ?pls) (tl (?got k)))" "payload p = Some pl" by auto
    moreover from this have "p \<in> set (?got k)"
      by (metis in_set_takeD list.sel(2) list.set_sel(2))
    ultimately show ?thesis using assms(7) by auto
  qed
  then have "hole_punching_wan rounds = (Chat, [Data CONNECTED])"
    if "t \<le> k" "\<forall>r\<in>set rounds. fst r < punch_timeout"
      "List.map_filter snd rounds = map (\<lambda>p. (p, addr (other x))) (?got k)" for k rounds
    using that hole_punching_chat [of rounds] by (metis (no_types, lifting) image_eqI list.set_map)
  with t(1) show ?thesis by blast
qed

theorem holes_are_punched_witness:
  "\<exists>t. \<forall>k\<ge>t. hole_punching_wan ((0, None) # map (\<lambda>p. (7, Some (p, example_addr Near)))
      (app_received (ends (example_links HOLE_PUNCH k) Far))) = (Chat, [Data CONNECTED])"
proof -
  have w: "whole HOLE_PUNCH" by (simp add: whole_def HOLE_PUNCH_def text_bytes_def)
  have small: "\<forall>i. small (example_links HOLE_PUNCH i)" using example_small [OF w] by blast
  have "HOLE_PUNCH \<in> set (app_sent (ends (example_links HOLE_PUNCH (6 + 3 * 0)) (other Far)))"
    unfolding example_links_cycle [OF w] by (simp add: cycle_link_def speaker_def)
  from holes_are_punched [OF alist_dashmap alist_dashmap example_run [OF w] example_fair [OF w] small this]
  obtain t where t: "\<And>k rounds. t \<le> k \<Longrightarrow> (\<forall>r\<in>set rounds. fst r < punch_timeout)
    \<and> List.map_filter snd rounds = map (\<lambda>p. (p, example_addr Near)) (app_received (ends (example_links HOLE_PUNCH k) Far))
    \<Longrightarrow> hole_punching_wan rounds = (Chat, [Data CONNECTED])" unfolding other.simps by blast
  have m: "List.map_filter snd ((0, None) # map (\<lambda>p. (7, Some (p, example_addr Near))) ps)
      = map (\<lambda>p. (p, example_addr Near)) ps" for ps
    by (induction ps) (simp_all add: List.map_filter_simps)
  show ?thesis
    by (rule exI [of _ t], intro allI impI, rule t, assumption, intro conjI, simp add: punch_timeout_def, rule m)
qed

end
