(* ===== verification/FirstPool.thy ===== *)
theory FirstPool
  imports TurnPool
begin

text \<open>
  The first implementation of the relay, a program of its own
  (\<open>turn_server/src/bin/first_impl.rs\<close>): its constants, buffer pool, tokens and address encoding.
  The structures have the fields of the library's, so their types are shared; the functions are
  translated anew, with a 1 after their names, and shown to be those of the library
  (\<open>first_eqs\<close>), whose lemmas then apply.
\<close>

definition NUM_SHARDS :: nat where "NUM_SHARDS = 4"
definition BUFFER_SIZE1 :: nat where "BUFFER_SIZE1 = 1500"
definition POOL_SIZE1 :: nat where "POOL_SIZE1 = 1024"

type_synonym Session1 = Session
type_synonym SqeType1 = "sockaddr \<times> nat \<times> u16"
type_synonym PacketTiming1 = PacketTiming
type_synonym 'st BufferPool1 = "'st BufferPool"
type_synonym 'st MsgHdrSlot1 = "'st MsgHdrSlot"
type_synonym OpType1 = OpType

definition route_to1 :: "Session1 \<Rightarrow> sockaddr \<Rightarrow> sockaddr option" where
  "route_to1 s a =
     (if a = host_addr s then Some (peer_addr s)
      else if a = peer_addr s then Some (host_addr s)
      else None)"

section \<open>Tokens and addresses\<close>

definition encode_token1 :: "OpType1 \<Rightarrow> u16 \<Rightarrow> u64" where
  "encode_token1 op idx =
     (let op_bits = (case op of Recv \<Rightarrow> 0 | Send \<Rightarrow> 1 | SendNotif \<Rightarrow> 2) :: u64
      in push_bit 16 op_bits OR ucast idx)"

definition decode_token1 :: "u64 \<Rightarrow> OpType1 \<times> u16" where
  "decode_token1 token =
     (let op = (let t = drop_bit 16 token
                in if t = 0 then Recv else if t = 1 then Send else if t = 2 then SendNotif else Send)
      in (op, ucast (token AND 0xFFFF)))"

definition extract_src_addr1 :: "'st libc_ops \<Rightarrow> bool \<Rightarrow> 'st MsgHdrSlot1 \<Rightarrow> sockaddr" where
  "extract_src_addr1 L le slot =
     (let family = ucast (ss_family L (slot_addr slot)) :: u32
      in if family = AF_INET L then
           (let sin = as_in L (slot_addr slot)
            in V4 (from_be32 le (s_addr sin)) (from_be16 le (sin_port sin)))
         else if family = AF_INET6 L then
           (let sin6 = as_in6 L (slot_addr slot)
            in V6 (s6_addr sin6) (from_be16 le (sin6_port sin6)) 0 0)
         else unspecified_addr)"

definition write_socket_addr1 :: "'st libc_ops \<Rightarrow> bool \<Rightarrow> 'st \<Rightarrow> sockaddr \<Rightarrow> 'st \<times> nat" where
  "write_socket_addr1 L le storage addr =
     (case addr of
        V4 i p \<Rightarrow>
          (write_in L \<lparr>sin_family = ucast (AF_INET L), sin_port = to_be16 le p, s_addr = to_be32 le i,
             sin_zero = replicate 8 0\<rparr> storage, sizeof_in L)
      | V6 i p f z \<Rightarrow>
          (write_in6 L \<lparr>sin6_family = ucast (AF_INET6 L), sin6_port = to_be16 le p, sin6_flowinfo = f,
             s6_addr = i, sin6_scope_id = z\<rparr> storage, sizeof_in6 L))"

section \<open>The buffer pool\<close>

definition BufferPool_new1 :: "'st BufferPool1" where
  "BufferPool_new1 =
     \<lparr>memory = replicate (POOL_SIZE1 * BUFFER_SIZE1) 0, in_flight = 0, registered = False,
      free_list = [], timestamp = Map.empty, live_slots = Map.empty\<rparr>"

definition slice_mut1 :: "'st BufferPool1 \<Rightarrow> u16 \<Rightarrow> turn_panic + nat \<times> nat" where
  "slice_mut1 pool idx =
     (let start = unat idx * BUFFER_SIZE1
      in if start + BUFFER_SIZE1 \<le> length (memory pool) then Inr (start, BUFFER_SIZE1)
         else Inl IndexOutOfBounds)"

definition slice1 :: "'st BufferPool1 \<Rightarrow> u16 \<Rightarrow> nat \<Rightarrow> turn_panic + u8 list" where
  "slice1 pool idx n =
     (let start = unat idx * BUFFER_SIZE1
      in if start + n \<le> length (memory pool) then Inr (take n (drop start (memory pool)))
         else Inl IndexOutOfBounds)"

definition MsgHdrSlot_new1 :: "'st libc_ops \<Rightarrow> bool \<Rightarrow> nat \<Rightarrow> sockaddr option \<Rightarrow> 'st MsgHdrSlot1" where
  "MsgHdrSlot_new1 L le buf addr =
     (let (storage, n) = (case addr of
            Some a \<Rightarrow> write_socket_addr1 L le (zeroed L) a
          | None \<Rightarrow> (zeroed L, sizeof_storage L))
      in \<lparr>iov_base = buf, iov_len = BUFFER_SIZE1, msg_iovlen = 1, msg_namelen = n, slot_addr = storage\<rparr>)"

definition msghdr_ptr_for1 ::
  "'st libc_ops \<Rightarrow> bool \<Rightarrow> u16 \<Rightarrow> sockaddr option \<Rightarrow> 'st BufferPool1 \<Rightarrow> turn_panic + 'st MsgHdrSlot1"
where
  "msghdr_ptr_for1 L le idx addr pool =
     and_then (slice_mut1 pool idx) (\<lambda>(buf_ptr, _). Inr (MsgHdrSlot_new1 L le buf_ptr addr))"

fun register_list1 ::
  "nat list \<Rightarrow> 'st BufferPool1 \<Rightarrow> (nat \<times> nat) list \<Rightarrow> turn_panic + 'st BufferPool1 \<times> (nat \<times> nat) list"
where
  "register_list1 [] pool iovs = Inr (pool, iovs)"
| "register_list1 (i # is) pool iovs =
     (let start = i * BUFFER_SIZE1
      in if start + BUFFER_SIZE1 \<le> length (memory pool)
         then register_list1 is (pool\<lparr>free_list := free_list pool @ [of_nat i]\<rparr>) (iovs @ [(start, BUFFER_SIZE1)])
         else Inl IndexOutOfBounds)"

definition register_buffer_kernel1 ::
  "'k ring_ops \<Rightarrow> 'st BufferPool1 \<Rightarrow> 'k \<Rightarrow> turn_panic + 'st BufferPool1 \<times> 'k"
where
  "register_buffer_kernel1 K pool ring =
     and_then (register_list1 [0..<POOL_SIZE1] pool []) (\<lambda>(pool, iovs).
       let (ring, ok) = register_buffers K iovs ring
       in if ok then Inr (pool\<lparr>registered := True\<rparr>, ring) else Inl RegistrationFailed)"

definition post_recv_sqe1 ::
  "'st libc_ops \<Rightarrow> 'k ring_ops \<Rightarrow> bool \<Rightarrow> int \<Rightarrow> u16 \<Rightarrow> sockaddr option
    \<Rightarrow> 'st BufferPool1 \<times> 'k \<Rightarrow> turn_panic + 'st BufferPool1 \<times> 'k"
where
  "post_recv_sqe1 L K le listen_fd idx addr pr =
     (case pr of (pool, sqe) \<Rightarrow>
        and_then (msghdr_ptr_for1 L le idx addr pool) (\<lambda>slot.
          let entry = \<lparr>sqe_opcode = RecvMsg, sqe_fd = listen_fd, sqe_msghdr = idx,
                       user_data = encode_token1 Recv idx\<rparr>
          in Inr (pool\<lparr>live_slots := (live_slots pool)(idx \<mapsto> slot)\<rparr>, fst (sq_push K entry sqe))))"

definition post_send_sqe1 ::
  "'st libc_ops \<Rightarrow> 'k ring_ops \<Rightarrow> bool \<Rightarrow> int \<Rightarrow> nat \<Rightarrow> u16 \<Rightarrow> sockaddr
    \<Rightarrow> 'st BufferPool1 \<times> 'k \<Rightarrow> turn_panic + 'st BufferPool1 \<times> 'k"
where
  "post_send_sqe1 L K le listen_fd n idx dest pr =
     (case pr of (pool, sqe) \<Rightarrow>
        and_then (msghdr_ptr_for1 L le idx (Some dest) pool) (\<lambda>slot.
          let entry = \<lparr>sqe_opcode = SendMsgZc, sqe_fd = listen_fd, sqe_msghdr = idx,
                       user_data = encode_token1 Send idx\<rparr>
          in Inr (pool\<lparr>live_slots := (live_slots pool)(idx \<mapsto> slot)\<rparr>, fst (sq_push K entry sqe))))"

definition acquire1 :: "'st BufferPool1 \<Rightarrow> u16 option \<times> 'st BufferPool1" where
  "acquire1 pool =
     (case rev (free_list pool) of
        [] \<Rightarrow> (None, pool)
      | i # is \<Rightarrow> (Some i, pool\<lparr>free_list := rev is\<rparr>))"

definition release1 ::
  "'st libc_ops \<Rightarrow> 'k ring_ops \<Rightarrow> bool \<Rightarrow> int \<Rightarrow> u16 \<Rightarrow> 'st BufferPool1 \<times> 'k \<Rightarrow> turn_panic + 'st BufferPool1 \<times> 'k"
where
  "release1 L K le listen_fd idx pr = post_recv_sqe1 L K le listen_fd idx None pr"

definition mark_recv_for1 :: "u16 \<Rightarrow> instant \<Rightarrow> 'st BufferPool1 \<Rightarrow> 'st BufferPool1" where
  "mark_recv_for1 idx t pool =
     pool\<lparr>timestamp := (timestamp pool)(idx \<mapsto>
       \<lparr>recv_cqe_at = t, shard_done_at = None, send_sqe_at = None\<rparr>)\<rparr>"

definition mark_shard_done_at1 :: "u16 \<Rightarrow> instant \<Rightarrow> 'st BufferPool1 \<Rightarrow> 'st BufferPool1" where
  "mark_shard_done_at1 idx t pool =
     (case timestamp pool idx of
        None \<Rightarrow> pool
      | Some s \<Rightarrow> pool\<lparr>timestamp := (timestamp pool)(idx \<mapsto> s\<lparr>shard_done_at := Some t\<rparr>)\<rparr>)"

definition mark_send_sqe_at1 :: "u16 \<Rightarrow> instant \<Rightarrow> 'st BufferPool1 \<Rightarrow> 'st BufferPool1" where
  "mark_send_sqe_at1 idx t pool =
     (case timestamp pool idx of
        None \<Rightarrow> pool
      | Some s \<Rightarrow> pool\<lparr>timestamp := (timestamp pool)(idx \<mapsto> s\<lparr>send_sqe_at := Some t\<rparr>)\<rparr>)"

definition take_recv_for1 :: "u16 \<Rightarrow> 'st BufferPool1 \<Rightarrow> PacketTiming1 option \<times> 'st BufferPool1" where
  "take_recv_for1 idx pool = (timestamp pool idx, pool\<lparr>timestamp := (timestamp pool)(idx := None)\<rparr>)"

definition get_peer_addr1 :: "'st libc_ops \<Rightarrow> bool \<Rightarrow> u16 \<Rightarrow> 'st BufferPool1 \<Rightarrow> sockaddr" where
  "get_peer_addr1 L le idx pool =
     (case map_option (extract_src_addr1 L le) (live_slots pool idx) of
        Some a \<Rightarrow> a
      | None \<Rightarrow> unspecified_addr)"

text \<open>The seeding at the start of its loop.\<close>

fun seed1 ::
  "'st libc_ops \<Rightarrow> 'k ring_ops \<Rightarrow> bool \<Rightarrow> int \<Rightarrow> nat \<Rightarrow> nat \<Rightarrow> 'st BufferPool1 \<times> 'k
    \<Rightarrow> turn_panic + ('st BufferPool1 \<times> 'k) \<times> nat"
where
  "seed1 L K le fd 0 seeded pr = Inr (pr, seeded)"
| "seed1 L K le fd (Suc n) seeded (pool, ring) =
     (case acquire1 pool of
        (None, pool) \<Rightarrow> seed1 L K le fd n seeded (pool, ring)
      | (Some idx, pool) \<Rightarrow>
          and_then (post_recv_sqe1 L K le fd idx None (pool, ring)) (seed1 L K le fd n (seeded + 1)))"

section \<open>The pool is that of the library\<close>

named_theorems first_eqs

lemma constants1 [first_eqs]: "BUFFER_SIZE1 = BUFFER_SIZE" "POOL_SIZE1 = POOL_SIZE"
  by (simp_all add: BUFFER_SIZE1_def BUFFER_SIZE_def POOL_SIZE1_def POOL_SIZE_def)

lemma route_to1 [first_eqs]: "route_to1 = route_to"
  by (simp add: fun_eq_iff route_to1_def route_to_def)

lemma tokens1 [first_eqs]: "encode_token1 = encode_token" "decode_token1 = decode_token"
  by (simp_all add: fun_eq_iff encode_token1_def encode_token_def decode_token1_def decode_token_def Let_def)

lemma addresses1 [first_eqs]: "extract_src_addr1 L le s = extract_src_addr L le (slot_addr s)"
  "write_socket_addr1 L le st a = write_socket_addr L le st a"
  by (simp add: extract_src_addr1_def extract_src_addr_def)
    (cases a; simp add: write_socket_addr1_def)

lemma pool_new1 [first_eqs]: "BufferPool_new1 = BufferPool_default"
  by (simp add: BufferPool_new1_def BufferPool_default_def constants1)

lemma slices1 [first_eqs]: "slice_mut1 = slice_mut" "slice1 = slice"
  by (simp_all add: fun_eq_iff slice_mut1_def slice_mut_def slice1_def slice_def slice_range_def constants1 Let_def)

lemma headers1 [first_eqs]: "MsgHdrSlot_new1 L le buf a = MsgHdrSlot_new L le buf a"
  "msghdr_ptr_for1 L le idx a pool = msghdr_ptr_for L le idx a pool"
proof -
  show h: "MsgHdrSlot_new1 L le buf a = MsgHdrSlot_new L le buf a" for buf
    by (auto simp: MsgHdrSlot_new1_def MsgHdrSlot_new_def addresses1 constants1 split: option.split)
  show "msghdr_ptr_for1 L le idx a pool = msghdr_ptr_for L le idx a pool"
    by (simp add: msghdr_ptr_for1_def msghdr_ptr_for_def slices1 h)
qed

lemma register1 [first_eqs]:
  fixes pool :: "'st BufferPool"
  shows "register_buffer_kernel1 K pool k = register_buffer_kernel K pool k"
proof -
  have "register_list1 ns pool iovs = register_list ns pool iovs" for ns iovs
    by (induction ns arbitrary: pool iovs) (simp_all add: slice_range_def constants1 Let_def)
  moreover have "(let (ring, ok) = register_buffers K iovs k
      in if ok then Inr (p\<lparr>registered := True\<rparr>, ring) else Inl RegistrationFailed)
    = (case register_buffers K iovs k of
         (ring, True) \<Rightarrow> Inr (p\<lparr>registered := True\<rparr>, ring)
       | (ring, False) \<Rightarrow> Inl RegistrationFailed)" for p :: "'st BufferPool" and iovs
    by (cases "register_buffers K iovs k"; cases "snd (register_buffers K iovs k)") auto
  ultimately show ?thesis by (simp add: register_buffer_kernel1_def register_buffer_kernel_def constants1)
qed

lemma posts1 [first_eqs]: "post_recv_sqe1 = post_recv_sqe" "post_send_sqe1 = post_send_sqe" "release1 = release"
  by (simp_all add: fun_eq_iff post_recv_sqe1_def post_recv_sqe_def post_send_sqe1_def post_send_sqe_def
      release1_def release_def headers1 tokens1 Let_def)

lemma marks1 [first_eqs]: "mark_recv_for1 = mark_recv_for" "mark_shard_done_at1 = mark_shard_done_at"
  "mark_send_sqe_at1 = mark_send_sqe_at" "take_recv_for1 = take_recv_for"
  by (simp_all add: fun_eq_iff mark_recv_for1_def mark_recv_for_def mark_shard_done_at1_def mark_shard_done_at_def
      mark_send_sqe_at1_def mark_send_sqe_at_def take_recv_for1_def take_recv_for_def)

lemma peer_addr1 [first_eqs]: "get_peer_addr1 = get_peer_addr"
  by (auto simp: fun_eq_iff get_peer_addr1_def get_peer_addr_def addresses1 split: option.split)

lemma acquire1 [first_eqs]: "acquire1 = acquire"
proof
  fix pool :: "'st BufferPool"
  show "acquire1 pool = acquire pool"
    by (cases "free_list pool" rule: rev_cases) (simp_all add: acquire1_def acquire_def)
qed

lemma seed1 [first_eqs]: "seed1 L K le fd n m pr = seed L K le fd n m pr"
  by (induction L K le fd n m pr rule: seed.induct)
    (auto simp: acquire1 posts1 and_then_def split: prod.split option.split sum.split)

end
