(* ===== verification/FirstRelay.thy ===== *)
theory FirstRelay
  imports FirstPool TurnSystem
begin

text \<open>
  The first implementation of the relay (\<open>turn_server/src/bin/first_impl.rs\<close>): its packets,
  shards and router, the blocking channels between its threads, the ring loop and the start of
  the program.
\<close>

section \<open>Blocking channels\<close>

text \<open>\<open>std::sync::mpsc::sync_channel\<close>: a bounded queue; \<open>ch_open\<close> tells whether the other end is
  still there. A full channel makes the sender wait, an empty one the receiver.\<close>

record 'a sync_channel =
  ch_queue :: "'a list"
  ch_bound :: nat
  ch_open :: bool

definition sync_channel :: "nat \<Rightarrow> 'a sync_channel" where
  "sync_channel n = \<lparr>ch_queue = [], ch_bound = n, ch_open = True\<rparr>"

datatype 'a send_result = SendWaits | SendError | Sent "'a sync_channel"

definition sync_send :: "'a \<Rightarrow> 'a sync_channel \<Rightarrow> 'a send_result" where
  "sync_send x c =
     (if \<not> ch_open c then SendError
      else if length (ch_queue c) < ch_bound c then Sent (c\<lparr>ch_queue := ch_queue c @ [x]\<rparr>)
      else SendWaits)"

datatype 'a recv_result = RecvWaits | RecvError | Received 'a "'a sync_channel"

definition sync_recv :: "'a sync_channel \<Rightarrow> 'a recv_result" where
  "sync_recv c =
     (case ch_queue c of
        x # xs \<Rightarrow> Received x (c\<lparr>ch_queue := xs\<rparr>)
      | [] \<Rightarrow> if ch_open c then RecvWaits else RecvError)"

text \<open>A thread stops in a panic, or has to wait for another one.\<close>

datatype halt = Panic turn_panic | Blocked

definition panicking :: "turn_panic + 'a \<Rightarrow> halt + 'a" where
  "panicking r = (case r of Inl e \<Rightarrow> Inl (Panic e) | Inr x \<Rightarrow> Inr x)"

lemma panicking_simps [simp]: "panicking (Inl e) = Inl (Panic e)" "panicking (Inr x) = Inr x"
  by (simp_all add: panicking_def)

section \<open>Packets and shards\<close>

record Packet1 =
  data1 :: nat
  len1 :: nat
  src1 :: sockaddr
  buf_idx1 :: u16

record Shard1 =
  id1 :: nat
  session_table1 :: "sockaddr \<rightharpoonup> Session1"

definition Shard_new1 :: "nat \<Rightarrow> Shard1" where
  "Shard_new1 i = \<lparr>id1 = i, session_table1 = Map.empty\<rparr>"

definition add_session1 :: "Session1 \<Rightarrow> Shard1 \<Rightarrow> Shard1" where
  "add_session1 s sh =
     sh\<lparr>session_table1 := (session_table1 sh)(host_addr s \<mapsto> s, peer_addr s \<mapsto> s)\<rparr>"

text \<open>The request \<open>handle_packet\<close> sends to the loop, if any.\<close>

definition handle_packet1 :: "Shard1 \<Rightarrow> Packet1 \<Rightarrow> SqeType1 option" where
  "handle_packet1 sh p =
     (case session_table1 sh (src1 p) of
        None \<Rightarrow> None
      | Some s \<Rightarrow>
          (case route_to1 s (src1 p) of
             None \<Rightarrow> None
           | Some dst \<Rightarrow> Some (dst, len1 p, buf_idx1 p)))"

text \<open>A shard's thread: the shard, the receiving end of its channel, and the request it is about
  to send. \<open>run\<close> alternates between receiving a packet and sending the request it makes; other
  threads may come in between.\<close>

record Thread1 =
  th_shard :: Shard1
  th_hand :: "SqeType1 option"

datatype run_end = Handling | Ended

definition run_recv1 :: "Thread1 \<Rightarrow> Packet1 sync_channel \<Rightarrow> halt + (Thread1 \<times> Packet1 sync_channel) \<times> run_end" where
  "run_recv1 th q =
     (case sync_recv q of
        RecvWaits \<Rightarrow> Inl Blocked
      | RecvError \<Rightarrow> Inr ((th, q), Ended)
      | Received p q' \<Rightarrow> Inr ((th\<lparr>th_hand := handle_packet1 (th_shard th) p\<rparr>, q'), Handling))"

definition run_send1 :: "Thread1 \<Rightarrow> SqeType1 sync_channel \<Rightarrow> halt + Thread1 \<times> SqeType1 sync_channel" where
  "run_send1 th c =
     (case th_hand th of
        None \<Rightarrow> Inr (th, c)
      | Some req \<Rightarrow>
          (case sync_send req c of
             SendWaits \<Rightarrow> Inl Blocked
           | SendError \<Rightarrow> Inr (th\<lparr>th_hand := None\<rparr>, c)
           | Sent c' \<Rightarrow> Inr (th\<lparr>th_hand := None\<rparr>, c')))"

section \<open>The router\<close>

record ShardRouter1 =
  senders1 :: "Packet1 sync_channel list"

definition ShardRouter_new1 :: "Packet1 sync_channel list \<Rightarrow> ShardRouter1" where
  "ShardRouter_new1 cs = \<lparr>senders1 = cs\<rparr>"

text \<open>\<open>shard_for\<close> returns before it hashes.\<close>

definition shard_for1 :: "sockaddr \<Rightarrow> ShardRouter1 \<Rightarrow> nat" where
  "shard_for1 a r = 0"

definition route1 :: "Packet1 \<Rightarrow> ShardRouter1 \<Rightarrow> halt + ShardRouter1" where
  "route1 p r =
     (let i = shard_for1 (src1 p) r
      in if i < length (senders1 r) then
           (case sync_send p (senders1 r ! i) of
              SendWaits \<Rightarrow> Inl Blocked
            | SendError \<Rightarrow> Inr r
            | Sent c \<Rightarrow> Inr (r\<lparr>senders1 := (senders1 r)[i := c]\<rparr>))
         else Inl (Panic IndexOutOfBounds))"

section \<open>The ring loop\<close>

record ('st, 'k) Env1 =
  e1_libc :: "'st libc_ops"
  e1_le :: bool
  e1_ring :: "'k ring_ops"
  e1_more :: "u32 \<Rightarrow> bool"
  e1_fd :: int
  e1_clock :: "nat \<Rightarrow> instant"

record ('st, 'k) LoopState1 =
  l1_pool :: "'st BufferPool1"
  l1_ring :: 'k
  l1_router :: ShardRouter1
  l1_calls :: nat
  l1_log :: timing_log

definition now1 :: "('st, 'k) Env1 \<Rightarrow> ('st, 'k) LoopState1 \<Rightarrow> instant \<times> ('st, 'k) LoopState1" where
  "now1 E st = (e1_clock E (l1_calls st), st\<lparr>l1_calls := l1_calls st + 1\<rparr>)"

text \<open>The start publishes the receives without submitting them.\<close>

definition loop_start1 ::
  "('st, 'k) Env1 \<Rightarrow> 'st BufferPool1 \<Rightarrow> 'k \<Rightarrow> ShardRouter1 \<Rightarrow> turn_panic + ('st, 'k) LoopState1"
where
  "loop_start1 E pool ring router =
     and_then (register_buffer_kernel1 (e1_ring E) pool ring) (\<lambda>pr.
     and_then (seed1 (e1_libc E) (e1_ring E) (e1_le E) (e1_fd E) POOL_SIZE1 0 pr) (\<lambda>((pool, ring), seeded).
       Inr \<lparr>l1_pool = pool, l1_ring = sq_sync (e1_ring E) ring, l1_router = router,
            l1_calls = 0, l1_log = []\<rparr>))"

definition post_request1 ::
  "('st, 'k) Env1 \<Rightarrow> SqeType1 \<Rightarrow> ('st, 'k) LoopState1 \<Rightarrow> turn_panic + ('st, 'k) LoopState1"
where
  "post_request1 E req st =
     (case req of (addr, n, idx) \<Rightarrow>
        and_then (post_send_sqe1 (e1_libc E) (e1_ring E) (e1_le E) (e1_fd E) n idx addr (l1_pool st, l1_ring st))
          (\<lambda>(pool, ring).
             let (t, st) = now1 E st
             in Inr (st\<lparr>l1_pool := mark_send_sqe_at1 idx t pool, l1_ring := ring\<rparr>)))"

definition MAX_SQE_BATCH :: nat where "MAX_SQE_BATCH = 32"

text \<open>The batch: \<open>n\<close> more requests at most, as long as \<open>try_recv\<close> finds one.\<close>

fun post_batch1 ::
  "('st, 'k) Env1 \<Rightarrow> nat \<Rightarrow> ('st, 'k) LoopState1 \<Rightarrow> SqeType1 sync_channel \<Rightarrow> nat
    \<Rightarrow> turn_panic + ('st, 'k) LoopState1 \<times> SqeType1 sync_channel \<times> nat"
where
  "post_batch1 E 0 st c pushed = Inr (st, c, pushed)"
| "post_batch1 E (Suc n) st c pushed =
     (case sync_recv c of
        Received req c' \<Rightarrow> and_then (post_request1 E req st) (\<lambda>st. post_batch1 E n st c' (pushed + 1))
      | _ \<Rightarrow> Inr (st, c, pushed))"

text \<open>\<open>submit\<close>, which is also what \<open>submit_and_wait(0)\<close> amounts to, unwraps its result.\<close>

definition submit1 :: "('st, 'k) Env1 \<Rightarrow> ('st, 'k) LoopState1 \<Rightarrow> turn_panic + ('st, 'k) LoopState1" where
  "submit1 E st =
     (case ring_submit (e1_ring E) (l1_ring st) of
        (ring, True) \<Rightarrow> Inr (st\<lparr>l1_ring := ring\<rparr>)
      | (_, False) \<Rightarrow> Inl UnwrapNone)"

definition sync_submit1 :: "('st, 'k) Env1 \<Rightarrow> ('st, 'k) LoopState1 \<Rightarrow> turn_panic + ('st, 'k) LoopState1" where
  "sync_submit1 E st = submit1 E (st\<lparr>l1_ring := sq_sync (e1_ring E) (l1_ring st)\<rparr>)"

definition handle_recv1 ::
  "('st, 'k) Env1 \<Rightarrow> u16 \<Rightarrow> nat \<Rightarrow> ('st, 'k) LoopState1 \<Rightarrow> halt + ('st, 'k) LoopState1"
where
  "handle_recv1 E idx n st =
     (let (t, st) = now1 E st;
          pool = mark_recv_for1 idx t (l1_pool st);
          a = get_peer_addr1 (e1_libc E) (e1_le E) idx pool
      in and_then (route1 \<lparr>data1 = unat idx, len1 = n, src1 = a, buf_idx1 = idx\<rparr> (l1_router st)) (\<lambda>r.
           let (t, st) = now1 E st
           in Inr (st\<lparr>l1_pool := mark_shard_done_at1 idx t pool, l1_router := r\<rparr>)))"

definition loop_release1 ::
  "('st, 'k) Env1 \<Rightarrow> u16 \<Rightarrow> ('st, 'k) LoopState1 \<Rightarrow> turn_panic + ('st, 'k) LoopState1"
where
  "loop_release1 E idx st =
     and_then (release1 (e1_libc E) (e1_ring E) (e1_le E) (e1_fd E) idx (l1_pool st, l1_ring st))
       (\<lambda>(pool, ring). Inr (st\<lparr>l1_pool := pool, l1_ring := ring\<rparr>))"

definition log_timing1 ::
  "('st, 'k) Env1 \<Rightarrow> PacketTiming1 \<Rightarrow> ('st, 'k) LoopState1 \<Rightarrow> turn_panic + ('st, 'k) LoopState1"
where
  "log_timing1 E t st =
     (let (send_cqe_at, st) = now1 E st
      in case (shard_done_at t, send_sqe_at t) of
           (Some d, Some s) \<Rightarrow>
             Inr (st\<lparr>l1_log := l1_log st @
               [(send_cqe_at - recv_cqe_at t, d - recv_cqe_at t, s - d, send_cqe_at - s)]\<rparr>)
         | _ \<Rightarrow> Inl UnwrapNone)"

definition handle_send1 ::
  "('st, 'k) Env1 \<Rightarrow> u16 \<Rightarrow> u32 \<Rightarrow> ('st, 'k) LoopState1 \<Rightarrow> turn_panic + ('st, 'k) LoopState1"
where
  "handle_send1 E idx flags st =
     (if e1_more E flags then Inr st
      else and_then (loop_release1 E idx st) (\<lambda>st.
        case take_recv_for1 idx (l1_pool st) of
          (None, pool) \<Rightarrow> Inr (st\<lparr>l1_pool := pool\<rparr>)
        | (Some t, pool) \<Rightarrow> log_timing1 E t (st\<lparr>l1_pool := pool\<rparr>)))"

definition handle_cqe1 ::
  "('st, 'k) Env1 \<Rightarrow> Cqe \<Rightarrow> ('st, 'k) LoopState1 \<Rightarrow> halt + ('st, 'k) LoopState1"
where
  "handle_cqe1 E cqe st =
     (case decode_token1 (cqe_user_data cqe) of
        (Recv, idx) \<Rightarrow> handle_recv1 E idx (nat (max 0 (cqe_result cqe))) st
      | (Send, idx) \<Rightarrow> panicking (handle_send1 E idx (cqe_flags cqe) st)
      | (SendNotif, idx) \<Rightarrow> panicking (loop_release1 E idx st))"

fun handle_cqes1 ::
  "('st, 'k) Env1 \<Rightarrow> Cqe list \<Rightarrow> ('st, 'k) LoopState1 \<Rightarrow> halt + ('st, 'k) LoopState1"
where
  "handle_cqes1 E [] st = Inr st"
| "handle_cqes1 E (c # cs) st = and_then (handle_cqe1 E c st) (handle_cqes1 E cs)"

text \<open>One iteration, given the completions visible at its first \<open>cq.sync\<close> and, if there are none,
  those visible after the submission that then follows.\<close>

definition loop_iteration1 ::
  "('st, 'k) Env1 \<Rightarrow> Cqe list \<times> Cqe list \<Rightarrow> ('st, 'k) LoopState1 \<times> SqeType1 sync_channel
    \<Rightarrow> halt + ('st, 'k) LoopState1 \<times> SqeType1 sync_channel"
where
  "loop_iteration1 E input sc =
     (case (input, sc) of ((first, second), (st, c)) \<Rightarrow>
        and_then (panicking (post_batch1 E MAX_SQE_BATCH st c 0)) (\<lambda>(st, c, pushed).
        and_then (if 0 < pushed then panicking (sync_submit1 E st) else Inr st) (\<lambda>st.
        and_then (if first = [] then panicking (submit1 E st) else Inr st) (\<lambda>st.
        and_then (handle_cqes1 E (if first = [] then second else first) st) (\<lambda>st.
        Inr (st, c))))))"

fun io_uring_loop1 ::
  "('st, 'k) Env1 \<Rightarrow> (Cqe list \<times> Cqe list) list \<Rightarrow> ('st, 'k) LoopState1 \<times> SqeType1 sync_channel
    \<Rightarrow> halt + ('st, 'k) LoopState1 \<times> SqeType1 sync_channel"
where
  "io_uring_loop1 E [] sc = Inr sc"
| "io_uring_loop1 E (x # xs) sc = and_then (loop_iteration1 E x sc) (io_uring_loop1 E xs)"

section \<open>The program\<close>

definition channel_bound1 :: nat where "channel_bound1 = 1024"

text \<open>The one session the program has, on its shard 0.\<close>

definition fixed_session :: "turn_panic + Session1" where
  "fixed_session =
     (case (parse_sockaddr ''127.0.0.1:9001'', parse_sockaddr ''127.0.0.1:9002'') of
        (Some h, Some p) \<Rightarrow> Inr \<lparr>host_addr = h, peer_addr = p\<rparr>
      | _ \<Rightarrow> Inl UnwrapNone)"

record ('st, 'k) First =
  f_loop :: "('st, 'k) LoopState1"
  f_threads :: "Thread1 list"
  f_channel :: "SqeType1 sync_channel"
  f_inflight :: "Entry list"   \<comment> \<open>taken by the kernel, not completed\<close>
  f_cq :: "Cqe list"           \<comment> \<open>completions the loop has not handled\<close>

text \<open>\<open>main\<close>, up to the loop: channels, shards, their threads, and the start of the loop.\<close>

definition first_start :: "('st, 'k) Env1 \<Rightarrow> 'k \<Rightarrow> turn_panic + ('st, 'k) First" where
  "first_start E ring =
     (let senders = replicate NUM_SHARDS (sync_channel channel_bound1);
          shards = map Shard_new1 [0..<NUM_SHARDS]
      in and_then fixed_session (\<lambda>s.
         and_then (loop_start1 E BufferPool_new1 ring (ShardRouter_new1 senders)) (\<lambda>st.
           Inr \<lparr>f_loop = st,
                f_threads = map (\<lambda>sh. \<lparr>th_shard = if id1 sh = 0 then add_session1 s sh else sh, th_hand = None\<rparr>) shards,
                f_channel = sync_channel channel_bound1, f_inflight = [], f_cq = []\<rparr>)))"

section \<open>The threads and the kernel, interleaved\<close>

datatype first_event =
    FLoopRequest       \<comment> \<open>the loop takes a request, if there is one, and posts the send\<close>
  | FLoopSync          \<comment> \<open>the loop publishes and submits\<close>
  | FLoopSubmit        \<comment> \<open>the loop submits\<close>
  | FLoopCqe           \<comment> \<open>the loop handles a completion\<close>
  | FShardRecv nat     \<comment> \<open>shard \<open>i\<close> receives a packet, if there is one\<close>
  | FShardSend nat     \<comment> \<open>shard \<open>i\<close> sends what it has in hand\<close>
  | FKernelTake
  | FKernelComplete nat sockaddr "u8 list" int u32

definition kernel_complete1 ::
  "('st, 'k) Env1 \<Rightarrow> nat \<Rightarrow> sockaddr \<Rightarrow> u8 list \<Rightarrow> int \<Rightarrow> u32 \<Rightarrow> ('st, 'k) First \<Rightarrow> ('st, 'k) First"
where
  "kernel_complete1 E n a ds res flags st =
     (if n < length (f_inflight st) then
        (let e = f_inflight st ! n; more = e1_more E flags; loop = f_loop st
         in if sqe_opcode e = RecvMsg \<and> more then st
            else st\<lparr>f_loop :=
                       (if sqe_opcode e = RecvMsg \<and> 0 \<le> res
                        then loop\<lparr>l1_pool := kernel_receive (e1_libc E) (e1_le E) (sqe_msghdr e) a ds (l1_pool loop)\<rparr>
                        else loop),
                     f_inflight := (if more then f_inflight st
                        else take n (f_inflight st) @ drop (Suc n) (f_inflight st)),
                     f_cq := f_cq st @
                       [\<lparr>cqe_user_data = user_data e, cqe_result = res, cqe_flags = flags\<rparr>]\<rparr>)
      else st)"

text \<open>Waiting for a packet is the normal state of an idle shard, waiting for a request is not
  what the loop does; only a sender that has to wait blocks the step.\<close>

fun first_step :: "('st, 'k) Env1 \<Rightarrow> first_event \<Rightarrow> ('st, 'k) First \<Rightarrow> halt + ('st, 'k) First" where
  "first_step E FLoopRequest st =
     (case sync_recv (f_channel st) of
        Received req c \<Rightarrow>
          and_then (panicking (post_request1 E req (f_loop st))) (\<lambda>loop.
            Inr (st\<lparr>f_channel := c, f_loop := loop\<rparr>))
      | _ \<Rightarrow> Inr st)"
| "first_step E FLoopSync st =
     and_then (panicking (sync_submit1 E (f_loop st))) (\<lambda>loop. Inr (st\<lparr>f_loop := loop\<rparr>))"
| "first_step E FLoopSubmit st =
     and_then (panicking (submit1 E (f_loop st))) (\<lambda>loop. Inr (st\<lparr>f_loop := loop\<rparr>))"
| "first_step E FLoopCqe st =
     (case f_cq st of
        [] \<Rightarrow> Inr st
      | c # cs \<Rightarrow> and_then (handle_cqe1 E c (f_loop st)) (\<lambda>loop. Inr (st\<lparr>f_cq := cs, f_loop := loop\<rparr>)))"
| "first_step E (FShardRecv i) st =
     (if i < length (f_threads st) \<and> i < length (senders1 (l1_router (f_loop st))) \<and> th_hand (f_threads st ! i) = None then
        (case run_recv1 (f_threads st ! i) (senders1 (l1_router (f_loop st)) ! i) of
           Inl h \<Rightarrow> Inr st
         | Inr ((th, q), _) \<Rightarrow>
             Inr (st\<lparr>f_threads := (f_threads st)[i := th],
                     f_loop := (f_loop st)\<lparr>l1_router := (l1_router (f_loop st))
                       \<lparr>senders1 := (senders1 (l1_router (f_loop st)))[i := q]\<rparr>\<rparr>\<rparr>))
      else Inr st)"
| "first_step E (FShardSend i) st =
     (if i < length (f_threads st) then
        and_then (run_send1 (f_threads st ! i) (f_channel st)) (\<lambda>(th, c).
          Inr (st\<lparr>f_threads := (f_threads st)[i := th], f_channel := c\<rparr>))
      else Inr st)"
| "first_step E FKernelTake st =
     (case ring_take (e1_ring E) (l1_ring (f_loop st)) of
        (None, ring) \<Rightarrow> Inr (st\<lparr>f_loop := (f_loop st)\<lparr>l1_ring := ring\<rparr>\<rparr>)
      | (Some e, ring) \<Rightarrow>
          Inr (st\<lparr>f_loop := (f_loop st)\<lparr>l1_ring := ring\<rparr>, f_inflight := f_inflight st @ [e]\<rparr>))"
| "first_step E (FKernelComplete n a ds res flags) st = Inr (kernel_complete1 E n a ds res flags st)"

fun first_run :: "('st, 'k) Env1 \<Rightarrow> first_event list \<Rightarrow> ('st, 'k) First \<Rightarrow> halt + ('st, 'k) First" where
  "first_run E [] st = Inr st"
| "first_run E (ev # evs) st = and_then (first_step E ev st) (first_run E evs)"

end
