(* ===== verification/FirstSystem.thy ===== *)
theory FirstSystem
  imports FirstRelay
begin

text \<open>
  The first implementation as a whole: under any interleaving of its loop, its four shard
  threads and the kernel no thread ever has to wait for room in a channel, nothing panics, every
  buffer is in at most one place, and only the two ends of its one session are served, by shard 0.
\<close>

section \<open>The session table\<close>

definition lookup1 :: "Shard1 \<Rightarrow> sockaddr \<rightharpoonup> sockaddr" where
  "lookup1 sh a = Option.bind (session_table1 sh a) (\<lambda>s. route_to1 s a)"

lemma lookup1_new [simp]: "lookup1 (Shard_new1 i) = Map.empty"
  by (simp add: lookup1_def Shard_new1_def fun_eq_iff)

lemma lookup1_add: "lookup1 (add_session1 s sh) = connect s (lookup1 sh)"
  by (auto simp: fun_eq_iff lookup1_def add_session1_def connect_def route_to1_def)

lemma handle_packet1_lookup:
  "handle_packet1 sh p = map_option (\<lambda>d. (d, len1 p, buf_idx1 p)) (lookup1 sh (src1 p))"
  by (simp add: handle_packet1_def lookup1_def split: option.split)

fun add_sessions1 :: "Session1 list \<Rightarrow> Shard1 \<Rightarrow> Shard1" where
  "add_sessions1 [] sh = sh"
| "add_sessions1 (s # ss) sh = add_sessions1 ss (add_session1 s sh)"

fun add_sessions :: "('sid \<times> Session) list \<Rightarrow> 'sid Shard \<Rightarrow> 'sid Shard" where
  "add_sessions [] sh = sh"
| "add_sessions ((sid, s) # ss) sh = add_sessions ss (add_session sid s sh)"

lemma lookups_agree:
  assumes "distinct (map fst ss)" and "set (map fst ss) \<inter> dom (session_table sh) = {}"
    and "lookup1 sh1 = lookup_peer sh"
  shows "lookup1 (add_sessions1 (map snd ss) sh1) = lookup_peer (add_sessions ss sh)"
  using assms
proof (induction ss arbitrary: sh sh1)
  case (Cons x ss)
  obtain sid s where x: "x = (sid, s)" by fastforce
  with Cons.prems have "sid \<notin> dom (session_table sh)" by auto
  with Cons.prems(3) have "lookup1 (add_session1 s sh1) = lookup_peer (add_session sid s sh)"
    by (simp add: lookup1_add lookup_peer_add)
  moreover have "set (map fst ss) \<inter> dom (session_table (add_session sid s sh)) = {}"
    using Cons.prems x by auto
  ultimately show ?case using Cons.IH [of "add_session sid s sh" "add_session1 s sh1"] Cons.prems x by simp
qed simp

section \<open>Who holds a buffer\<close>

definition submitted1 :: "('k \<Rightarrow> Entry list) \<Rightarrow> ('k \<Rightarrow> Entry list) \<Rightarrow> ('st, 'k) First \<Rightarrow> Entry list" where
  "submitted1 U S st = U (l1_ring (f_loop st)) @ S (l1_ring (f_loop st)) @ f_inflight st"

definition finals1 :: "('st, 'k) Env1 \<Rightarrow> Cqe list \<Rightarrow> Cqe list" where
  "finals1 E cs = filter (\<lambda>c. \<not> e1_more E (cqe_flags c)) cs"

definition waiting1 :: "ShardRouter1 \<Rightarrow> u16 list" where
  "waiting1 r = concat (map (\<lambda>c. map buf_idx1 (ch_queue c)) (senders1 r))"

definition hands1 :: "Thread1 list \<Rightarrow> SqeType1 list" where
  "hands1 ths = concat (map (\<lambda>th. case th_hand th of None \<Rightarrow> [] | Some x \<Rightarrow> [x]) ths)"

definition requests1 :: "('st, 'k) First \<Rightarrow> SqeType1 list" where
  "requests1 st = hands1 (f_threads st) @ ch_queue (f_channel st)"

definition held1 ::
  "('st, 'k) Env1 \<Rightarrow> ('k \<Rightarrow> Entry list) \<Rightarrow> ('k \<Rightarrow> Entry list) \<Rightarrow> ('st, 'k) First \<Rightarrow> u16 multiset"
where
  "held1 E U S st =
     mset (map sqe_msghdr (submitted1 U S st)) + mset (map cqe_idx (finals1 E (f_cq st)))
     + mset (waiting1 (l1_router (f_loop st))) + mset (map sqe_buf (requests1 st))"

definition sending1 ::
  "('st, 'k) Env1 \<Rightarrow> ('k \<Rightarrow> Entry list) \<Rightarrow> ('k \<Rightarrow> Entry list) \<Rightarrow> ('st, 'k) First \<Rightarrow> u16 set"
where
  "sending1 E U S st =
     {sqe_msghdr e |e. e \<in> set (submitted1 U S st) \<and> sqe_opcode e = SendMsgZc}
     \<union> {cqe_idx c |c. c \<in> set (finals1 E (f_cq st)) \<and> cqe_op c = Send}"

definition routed1 :: "('st, 'k) First \<Rightarrow> u16 set" where
  "routed1 st = set (waiting1 (l1_router (f_loop st))) \<union> sqe_buf ` set (requests1 st)"

definition shard_stamped :: "'st BufferPool \<Rightarrow> u16 \<Rightarrow> bool" where
  "shard_stamped pool i \<longleftrightarrow>
     (case timestamp pool i of None \<Rightarrow> True | Some t \<Rightarrow> shard_done_at t \<noteq> None)"

definition lane_ok :: "'a sync_channel \<Rightarrow> bool" where
  "lane_ok c \<longleftrightarrow> ch_bound c = channel_bound1 \<and> ch_open c"

text \<open>Only the channel of shard 0 ever holds packets.\<close>

definition router_ok1 :: "ShardRouter1 \<Rightarrow> bool" where
  "router_ok1 r \<longleftrightarrow> (\<exists>q. senders1 r = q # replicate 3 (sync_channel channel_bound1) \<and> lane_ok q)"

definition fixed_addrs :: "sockaddr \<Rightarrow> sockaddr \<Rightarrow> bool" where
  "fixed_addrs h p \<longleftrightarrow> fixed_session = Inr \<lparr>host_addr = h, peer_addr = p\<rparr>"

text \<open>Shard 0 knows the fixed session, and every request goes to one of its ends.\<close>

definition served_ok :: "('st, 'k) First \<Rightarrow> bool" where
  "served_ok st \<longleftrightarrow>
     length (f_threads st) = NUM_SHARDS
     \<and> (\<forall>s. fixed_session = Inr s \<longrightarrow>
          lookup1 (th_shard (f_threads st ! 0)) = connect s Map.empty
          \<and> (\<forall>req\<in>set (requests1 st). fst req \<in> {host_addr s, peer_addr s}))"

definition first_inv ::
  "('st, 'k) Env1 \<Rightarrow> ('k \<Rightarrow> Entry list) \<Rightarrow> ('k \<Rightarrow> Entry list) \<Rightarrow> ('st, 'k) First \<Rightarrow> bool"
where
  "first_inv E U S st \<longleftrightarrow>
     held1 E U S st \<subseteq># mset_set all_buffers
     \<and> slots_ok (l1_pool (f_loop st))
     \<and> (\<forall>e\<in>set (submitted1 U S st). entry_ok e)
     \<and> (\<forall>c\<in>set (f_cq st). cqe_op c \<noteq> SendNotif \<and> (cqe_op c = Recv \<longrightarrow> \<not> e1_more E (cqe_flags c)))
     \<and> (\<forall>i\<in>sending1 E U S st. stamped (l1_pool (f_loop st)) i)
     \<and> (\<forall>i\<in>routed1 st. shard_stamped (l1_pool (f_loop st)) i)
     \<and> router_ok1 (l1_router (f_loop st))
     \<and> lane_ok (f_channel st)
     \<and> served_ok st"

lemma first_invD:
  assumes "first_inv E U S st"
  shows "held1 E U S st \<subseteq># mset_set all_buffers" "slots_ok (l1_pool (f_loop st))"
    "\<And>e. e \<in> set (submitted1 U S st) \<Longrightarrow> entry_ok e"
    "\<And>c. c \<in> set (f_cq st) \<Longrightarrow> cqe_op c \<noteq> SendNotif"
    "\<And>c. c \<in> set (f_cq st) \<Longrightarrow> cqe_op c = Recv \<Longrightarrow> \<not> e1_more E (cqe_flags c)"
    "\<And>i. i \<in> sending1 E U S st \<Longrightarrow> stamped (l1_pool (f_loop st)) i"
    "\<And>i. i \<in> routed1 st \<Longrightarrow> shard_stamped (l1_pool (f_loop st)) i"
    "router_ok1 (l1_router (f_loop st))" "lane_ok (f_channel st)" "served_ok st"
  using assms unfolding first_inv_def by blast+

lemma first_invI:
  assumes "first_inv E U S st" and "held1 E U S st' \<subseteq># held1 E U S st"
    and "slots_ok (l1_pool (f_loop st'))"
    and "\<And>e. e \<in> set (submitted1 U S st') \<Longrightarrow> entry_ok e"
    and "\<And>c. c \<in> set (f_cq st') \<Longrightarrow> cqe_op c \<noteq> SendNotif \<and> (cqe_op c = Recv \<longrightarrow> \<not> e1_more E (cqe_flags c))"
    and "\<And>i. i \<in> sending1 E U S st' \<Longrightarrow> stamped (l1_pool (f_loop st')) i"
    and "\<And>i. i \<in> routed1 st' \<Longrightarrow> shard_stamped (l1_pool (f_loop st')) i"
    and "router_ok1 (l1_router (f_loop st'))" and "lane_ok (f_channel st')" and "served_ok st'"
  shows "first_inv E U S st'"
  using assms subset_mset.order_trans [OF assms(2)] by (auto simp: first_inv_def)

section \<open>Capacity\<close>

lemma pool_bounds:
  assumes "M \<subseteq># mset_set all_buffers"
  shows "size M \<le> channel_bound1"
proof -
  have "size (mset_set all_buffers) = length seed_list" by (metis seed_list_buffers size_mset)
  also have "\<dots> = channel_bound1" by (simp add: POOL_SIZE_def channel_bound1_def)
  finally show ?thesis using size_mset_mono [OF assms] by simp
qed

lemma sync_send_room:
  assumes "lane_ok c" and "length (ch_queue c) < channel_bound1"
  shows "sync_send x c = Sent (c\<lparr>ch_queue := ch_queue c @ [x]\<rparr>)"
  using assms by (simp add: sync_send_def lane_ok_def)

lemma lane_ok_update [simp]: "lane_ok (c\<lparr>ch_queue := q\<rparr>) = lane_ok c"
  by (simp add: lane_ok_def)

lemma lane_ok_new [simp]: "lane_ok (sync_channel channel_bound1)"
  by (simp add: lane_ok_def sync_channel_def)

lemma sync_channel_empty [simp]: "ch_queue (sync_channel n) = []"
  by (simp add: sync_channel_def)

lemma waiting1_eq:
  "senders1 r = q # replicate 3 (sync_channel channel_bound1) \<Longrightarrow> waiting1 r = map buf_idx1 (ch_queue q)"
  by (simp add: waiting1_def numeral_eq_Suc)

lemma hands1_update:
  assumes "i < length ths"
  shows "mset (hands1 (ths[i := th])) + mset (hands1 [ths ! i]) = mset (hands1 ths) + mset (hands1 [th])"
  using mset_concat_update [OF assms, of "\<lambda>th. case th_hand th of None \<Rightarrow> [] | Some x \<Rightarrow> [x]" th]
  by (simp add: hands1_def)

lemma hands1_set: "x \<in> set (hands1 ths) \<longleftrightarrow> (\<exists>th\<in>set ths. th_hand th = Some x)"
  by (cases x, induction ths) (auto simp: hands1_def split: option.splits)

lemma requests1_simps [simp]: "requests1 (f_cq_update g st) = requests1 st"
  "requests1 (f_loop_update h st) = requests1 st" "requests1 (f_inflight_update i st) = requests1 st"
  by (simp_all add: requests1_def)

section \<open>The operations of the loop\<close>

lemma stamps_other:
  "timestamp p' j = timestamp p j \<Longrightarrow> shard_stamped p' j = shard_stamped p j"
  by (simp add: shard_stamped_def)

lemma mark_send_stamps:
  assumes "shard_stamped p i"
  shows "stamped (mark_send_sqe_at i t p) i"
    and "shard_stamped (mark_send_sqe_at i t p) j = shard_stamped p j"
  using assms by (auto simp: stamped_def shard_stamped_def mark_send_sqe_at_def split: option.split)

lemma post_request1_ok:
  assumes "slots_ok (l1_pool st)" and "unat idx < POOL_SIZE" and "shard_stamped (l1_pool st) idx"
  shows "\<exists>st'. post_request1 E (a, n, idx) st = Inr st' \<and> l1_router st' = l1_router st
    \<and> l1_ring st' = fst (sq_push (e1_ring E) (send_entry (e1_fd E) idx) (l1_ring st))
    \<and> slots_ok (l1_pool st') \<and> stamped (l1_pool st') idx
    \<and> (\<forall>j. j \<noteq> idx \<longrightarrow> stamped (l1_pool st') j = stamped (l1_pool st) j)
    \<and> (\<forall>j. shard_stamped (l1_pool st') j = shard_stamped (l1_pool st) j)"
proof -
  define p where "p = (l1_pool st)\<lparr>live_slots := (live_slots (l1_pool st))(idx \<mapsto>
      MsgHdrSlot_new (e1_libc E) (e1_le E) (unat idx * BUFFER_SIZE) (Some a))\<rparr>"
  have p: "slots_ok p" unfolding p_def by (rule slots_ok_post [OF assms(1,2)])
  have t: "timestamp p = timestamp (l1_pool st)" by (simp add: p_def)
  then have s: "shard_stamped p idx" using assms(3) by (simp add: shard_stamped_def)
  have po: "pool_ok (l1_pool st)" using assms(1) by (simp add: slots_ok_def)
  have "post_request1 E (a, n, idx) st = Inr (st\<lparr>
      l1_pool := mark_send_sqe_at idx (e1_clock E (l1_calls st)) p,
      l1_ring := fst (sq_push (e1_ring E) (send_entry (e1_fd E) idx) (l1_ring st)),
      l1_calls := l1_calls st + 1\<rparr>)"
    by (simp add: post_request1_def now1_def first_eqs post_send_ok [OF po assms(2)] p_def)
  moreover have "stamped (mark_send_sqe_at idx u p) j = stamped (l1_pool st) j" if "j \<noteq> idx" for u j
    using that by (intro stamped_other) (simp add: t)
  moreover have "shard_stamped p j = shard_stamped (l1_pool st) j" for j
    by (rule stamps_other) (simp add: t)
  ultimately show ?thesis using p mark_send_stamps [OF s] by auto
qed

lemma handle_send1_ok:
  assumes "slots_ok (l1_pool st)" and "unat idx < POOL_SIZE" and "stamped (l1_pool st) idx"
    and "\<not> e1_more E flags"
  shows "\<exists>st'. handle_send1 E idx flags st = Inr st' \<and> l1_router st' = l1_router st
    \<and> l1_ring st' = fst (sq_push (e1_ring E) (recv_entry (e1_fd E) idx) (l1_ring st))
    \<and> slots_ok (l1_pool st') \<and> stamped (l1_pool st') idx \<and> shard_stamped (l1_pool st') idx
    \<and> (\<forall>j. j \<noteq> idx \<longrightarrow> stamped (l1_pool st') j = stamped (l1_pool st) j)
    \<and> (\<forall>j. j \<noteq> idx \<longrightarrow> shard_stamped (l1_pool st') j = shard_stamped (l1_pool st) j)"
proof -
  define p where "p = (l1_pool st)\<lparr>live_slots := (live_slots (l1_pool st))(idx \<mapsto>
      MsgHdrSlot_new (e1_libc E) (e1_le E) (unat idx * BUFFER_SIZE) None)\<rparr>"
  have p: "slots_ok p" unfolding p_def by (rule slots_ok_post [OF assms(1,2)])
  have t: "timestamp p = timestamp (l1_pool st)" by (simp add: p_def)
  have po: "pool_ok (l1_pool st)" using assms(1) by (simp add: slots_ok_def)
  define p' where "p' = p\<lparr>timestamp := (timestamp p)(idx := None)\<rparr>"
  have p': "slots_ok p'" "stamped p' idx" "shard_stamped p' idx"
    using p by (simp_all add: p'_def stamped_def shard_stamped_def)
  have o: "stamped p' j = stamped (l1_pool st) j" "shard_stamped p' j = shard_stamped (l1_pool st) j"
    if "j \<noteq> idx" for j
    using that by (auto simp: p'_def t intro!: stamped_other stamps_other)
  have rel: "loop_release1 E idx st = Inr (st\<lparr>l1_pool := p,
      l1_ring := fst (sq_push (e1_ring E) (recv_entry (e1_fd E) idx) (l1_ring st))\<rparr>)"
    by (simp add: loop_release1_def first_eqs release_def post_recv_ok [OF po assms(2)] p_def)
  show ?thesis
  proof (cases "timestamp (l1_pool st) idx")
    case None
    with assms(4) rel p' o t show ?thesis
      by (simp add: handle_send1_def first_eqs take_recv_for_def p'_def)
  next
    case (Some s)
    with assms(3) obtain d u where "shard_done_at s = Some d" "send_sqe_at s = Some u"
      by (auto simp: stamped_def)
    with assms(4) rel p' o t Some show ?thesis
      by (simp add: handle_send1_def first_eqs take_recv_for_def p'_def log_timing1_def now1_def)
  qed
qed

lemma route1_ok:
  assumes "router_ok1 r" and "length (waiting1 r) < channel_bound1"
  shows "\<exists>r'. route1 p r = Inr r' \<and> router_ok1 r' \<and> waiting1 r' = waiting1 r @ [buf_idx1 p]"
proof -
  from assms(1) obtain q where q: "senders1 r = q # replicate 3 (sync_channel channel_bound1)" "lane_ok q"
    unfolding router_ok1_def by blast
  have "sync_send p q = Sent (q\<lparr>ch_queue := ch_queue q @ [p]\<rparr>)"
    using assms(2) q by (intro sync_send_room) (simp_all add: waiting1_eq)
  then have "route1 p r = Inr (r\<lparr>senders1 := q\<lparr>ch_queue := ch_queue q @ [p]\<rparr> # replicate 3 (sync_channel channel_bound1)\<rparr>)"
    by (simp add: route1_def shard_for1_def q)
  then show ?thesis using q by (simp add: router_ok1_def waiting1_eq)
qed

lemma handle_recv1_ok:
  assumes "slots_ok (l1_pool st)" and "router_ok1 (l1_router st)"
    and "length (waiting1 (l1_router st)) < channel_bound1"
  shows "\<exists>st'. handle_recv1 E idx n st = Inr st' \<and> l1_ring st' = l1_ring st
    \<and> router_ok1 (l1_router st') \<and> waiting1 (l1_router st') = waiting1 (l1_router st) @ [idx]
    \<and> slots_ok (l1_pool st') \<and> shard_stamped (l1_pool st') idx
    \<and> (\<forall>j. j \<noteq> idx \<longrightarrow> stamped (l1_pool st') j = stamped (l1_pool st) j)
    \<and> (\<forall>j. j \<noteq> idx \<longrightarrow> shard_stamped (l1_pool st') j = shard_stamped (l1_pool st) j)"
proof -
  define p where "p = mark_recv_for idx (e1_clock E (l1_calls st)) (l1_pool st)"
  define x where "x = \<lparr>data1 = unat idx, len1 = n, src1 = get_peer_addr (e1_libc E) (e1_le E) idx p, buf_idx1 = idx\<rparr>"
  from route1_ok [OF assms(2,3), of x] obtain r where r: "route1 x (l1_router st) = Inr r" "router_ok1 r"
    "waiting1 r = waiting1 (l1_router st) @ [idx]" by (auto simp: x_def)
  define p' where "p' = mark_shard_done_at idx (e1_clock E (l1_calls st + 1)) p"
  have "handle_recv1 E idx n st = Inr (st\<lparr>l1_pool := p', l1_router := r, l1_calls := l1_calls st + 2\<rparr>)"
    using r(1) by (simp add: handle_recv1_def now1_def first_eqs Let_def p_def [symmetric] x_def p'_def)
  moreover have "slots_ok p'" using assms(1) by (simp add: p'_def p_def)
  moreover have "shard_stamped p' idx"
    by (simp add: p'_def p_def shard_stamped_def mark_shard_done_at_def mark_recv_for_def)
  moreover have "stamped p' j = stamped (l1_pool st) j" "shard_stamped p' j = shard_stamped (l1_pool st) j"
    if "j \<noteq> idx" for j
    using that by (auto simp: p'_def p_def intro!: stamped_other stamps_other)
  ultimately show ?thesis using r by simp
qed

section \<open>The steps\<close>

locale first_system = ring: uring "e1_ring E" U S slots
  for E :: "('st, 'k) Env1" and U :: "'k \<Rightarrow> Entry list" and S :: "'k \<Rightarrow> Entry list"
    and slots :: "'k \<Rightarrow> nat" +
  assumes submits: "snd (ring_submit (e1_ring E) k)"
begin

lemma submit1_ok:
  "\<exists>k. submit1 E st = Inr (st\<lparr>l1_ring := k\<rparr>) \<and> U k = U (l1_ring st) \<and> S k = S (l1_ring st)"
  using submits [of "l1_ring st"] ring.submit_keeps [of "l1_ring st"]
  by (cases "ring_submit (e1_ring E) (l1_ring st)") (auto simp: submit1_def)

lemma sync_submit1_ok:
  "\<exists>k. sync_submit1 E st = Inr (st\<lparr>l1_ring := k\<rparr>) \<and> U k = [] \<and> S k = S (l1_ring st) @ U (l1_ring st)"
  using submit1_ok [of "st\<lparr>l1_ring := sq_sync (e1_ring E) (l1_ring st)\<rparr>"]
  by (auto simp: sync_submit1_def ring.sync_unsynced ring.sync_synced)

text \<open>Steps that only move submissions between the ring and the kernel.\<close>

lemma moved_inv:
  assumes "first_inv E U S st"
    and "mset (submitted1 U S st') = mset (submitted1 U S st)"
    and "st' = st\<lparr>f_loop := (f_loop st)\<lparr>l1_ring := k\<rparr>, f_inflight := fl\<rparr>"
  shows "first_inv E U S st'"
proof -
  have s: "set (submitted1 U S st') = set (submitted1 U S st)"
    using assms(2) by (metis set_mset_mset)
  have "mset (map sqe_msghdr (submitted1 U S st')) = mset (map sqe_msghdr (submitted1 U S st))"
    using assms(2) by (simp only: mset_map)
  then have h: "held1 E U S st' = held1 E U S st"
    by (simp add: held1_def assms(3) requests1_def)
  have "sending1 E U S st' = sending1 E U S st" "routed1 st' = routed1 st" "served_ok st' = served_ok st"
    using s by (simp_all add: sending1_def routed1_def served_ok_def requests1_def assms(3))
  with first_invD [OF assms(1)] s h show ?thesis
    by (intro first_invI [OF assms(1)]) (auto simp: assms(3))
qed

lemma submit_inv:
  assumes "first_inv E U S st"
  shows "\<exists>st'. first_step E FLoopSubmit st = Inr st' \<and> first_inv E U S st'"
    and "\<exists>st'. first_step E FLoopSync st = Inr st' \<and> first_inv E U S st'"
proof -
  from submit1_ok [of "f_loop st"] obtain k where k: "submit1 E (f_loop st) = Inr ((f_loop st)\<lparr>l1_ring := k\<rparr>)"
    "U k = U (l1_ring (f_loop st))" "S k = S (l1_ring (f_loop st))" by blast
  let ?st' = "st\<lparr>f_loop := (f_loop st)\<lparr>l1_ring := k\<rparr>, f_inflight := f_inflight st\<rparr>"
  have "first_inv E U S ?st'"
    by (rule moved_inv [OF assms _ refl]) (simp add: submitted1_def k)
  then show "\<exists>st'. first_step E FLoopSubmit st = Inr st' \<and> first_inv E U S st'" by (simp add: k(1))
  from sync_submit1_ok [of "f_loop st"] obtain k where k: "sync_submit1 E (f_loop st) = Inr ((f_loop st)\<lparr>l1_ring := k\<rparr>)"
    "U k = []" "S k = S (l1_ring (f_loop st)) @ U (l1_ring (f_loop st))" by blast
  let ?st' = "st\<lparr>f_loop := (f_loop st)\<lparr>l1_ring := k\<rparr>, f_inflight := f_inflight st\<rparr>"
  have "first_inv E U S ?st'"
    by (rule moved_inv [OF assms _ refl]) (simp add: submitted1_def k)
  then show "\<exists>st'. first_step E FLoopSync st = Inr st' \<and> first_inv E U S st'" by (simp add: k(1))
qed

lemma kernel_take_inv:
  assumes "first_inv E U S st"
  shows "\<exists>st'. first_step E FKernelTake st = Inr st' \<and> first_inv E U S st'"
proof -
  let ?k = "l1_ring (f_loop st)"
  obtain x k where t: "ring_take (e1_ring E) ?k = (x, k)" by fastforce
  let ?fl = "case x of None \<Rightarrow> f_inflight st | Some e \<Rightarrow> f_inflight st @ [e]"
  have "U k = U ?k" "S ?k = (case x of None \<Rightarrow> S k | Some e \<Rightarrow> e # S k)"
    using t ring.take_result [of ?k] ring.take_keeps [of ?k] by (auto split: list.splits)
  then have "first_inv E U S (st\<lparr>f_loop := (f_loop st)\<lparr>l1_ring := k\<rparr>, f_inflight := ?fl\<rparr>)"
    by (intro moved_inv [OF assms _ refl]) (cases x; simp add: submitted1_def)
  then show ?thesis using t by (cases x) simp_all
qed

text \<open>A buffer taken from the channel or from a completion goes into the submission queue.\<close>

lemma posted_inv:
  assumes inv: "first_inv E U S st"
    and ring: "l1_ring loop = fst (sq_push (e1_ring E) e (l1_ring (f_loop st)))"
    and router: "l1_router loop = l1_router (f_loop st)"
    and e: "entry_ok e" "sqe_msghdr e = idx"
    and pool: "slots_ok (l1_pool loop)" "stamped (l1_pool loop) idx"
      "\<And>j. j \<noteq> idx \<Longrightarrow> stamped (l1_pool loop) j = stamped (l1_pool (f_loop st)) j"
      "\<And>j. shard_stamped (l1_pool (f_loop st)) j \<Longrightarrow> shard_stamped (l1_pool loop) j"
    and st': "st' = st\<lparr>f_channel := c, f_cq := cq, f_loop := loop\<rparr>"
    and bufs: "mset (map sqe_buf (requests1 st)) + mset (map cqe_idx (finals1 E (f_cq st)))
      = add_mset idx (mset (map sqe_buf (requests1 st')) + mset (map cqe_idx (finals1 E cq)))"
    and sub: "set cq \<subseteq> set (f_cq st)" "set (requests1 st') \<subseteq> set (requests1 st)" "lane_ok c"
  shows "first_inv E U S st'"
proof (rule first_invI [OF inv])
  note I = first_invD [OF inv]
  let ?U = "\<lambda>k. mset (map sqe_msghdr (U k))"
  let ?X = "mset (map sqe_msghdr (S (l1_ring (f_loop st)))) + mset (map sqe_msghdr (f_inflight st))
    + mset (waiting1 (l1_router (f_loop st)))"
  let ?Y = "mset (map sqe_buf (requests1 st')) + mset (map cqe_idx (finals1 E cq))"
  have "held1 E U S st = ?U (l1_ring (f_loop st)) + ?X
      + (mset (map sqe_buf (requests1 st)) + mset (map cqe_idx (finals1 E (f_cq st))))"
    by (simp add: held1_def submitted1_def add_ac)
  then have h: "held1 E U S st = add_mset idx (?U (l1_ring (f_loop st))) + (?X + ?Y)"
    unfolding bufs by (simp add: add_ac)
  have "held1 E U S st' = ?U (l1_ring loop) + (?X + ?Y)"
    by (simp add: held1_def submitted1_def st' router ring ring.push_synced add_ac)
  also have "\<dots> \<subseteq># add_mset idx (?U (l1_ring (f_loop st))) + (?X + ?Y)"
    by (intro subset_mset.add_right_mono) (simp add: ring ring.push_unsynced e(2))
  finally show "held1 E U S st' \<subseteq># held1 E U S st" by (simp only: h)
  have s: "set (submitted1 U S st') \<subseteq> insert e (set (submitted1 U S st))"
    by (auto simp: submitted1_def st' ring ring.push_synced ring.push_unsynced)
  then show "entry_ok x" if "x \<in> set (submitted1 U S st')" for x
    using that I(3) e(1) by blast
  show "cqe_op x \<noteq> SendNotif \<and> (cqe_op x = Recv \<longrightarrow> \<not> e1_more E (cqe_flags x))" if "x \<in> set (f_cq st')" for x
    using that I(4,5) sub(1) by (auto simp: st')
  show "slots_ok (l1_pool (f_loop st'))" "router_ok1 (l1_router (f_loop st'))" "lane_ok (f_channel st')"
    using I pool(1) sub(3) by (simp_all add: st' router)
  show "served_ok st'"
    using I(10) sub(2) by (auto simp: served_ok_def st')
  show "stamped (l1_pool (f_loop st')) i" if "i \<in> sending1 E U S st'" for i
  proof (cases "i = idx")
    case False
    then have "i \<in> sending1 E U S st"
      using that s sub(1) e(2) by (auto simp: sending1_def st' finals1_def)
    with I(6) pool(3) [OF False] show ?thesis by (simp add: st')
  qed (simp add: st' pool(2))
  show "shard_stamped (l1_pool (f_loop st')) i" if "i \<in> routed1 st'" for i
  proof -
    have "i \<in> routed1 st" using that sub(2) by (auto simp: routed1_def st' router)
    with I(7) pool(4) show ?thesis by (simp add: st')
  qed
qed

lemma held_member:
  assumes "first_inv E U S st" and "held1 E U S st = add_mset i M"
  shows "unat i < POOL_SIZE" and "i \<notin># M"
  using owned_once [of i M] first_invD(1) [OF assms(1)] by (simp_all add: assms(2))

lemma request_inv:
  assumes "first_inv E U S st"
  shows "\<exists>st'. first_step E FLoopRequest st = Inr st' \<and> first_inv E U S st'"
proof (cases "ch_queue (f_channel st)")
  case Nil
  with assms show ?thesis by (simp add: sync_recv_def)
next
  case (Cons req xs)
  note I = first_invD [OF assms]
  obtain a n idx where req: "req = (a, n, idx)" by (cases req)
  let ?c = "(f_channel st)\<lparr>ch_queue := xs\<rparr>"
  have r: "requests1 st = hands1 (f_threads st) @ req # xs" by (simp add: requests1_def Cons)
  then obtain M where "held1 E U S st = add_mset idx M" by (simp add: held1_def req)
  with held_member [OF assms] have idx: "unat idx < POOL_SIZE" by blast
  have "idx \<in> routed1 st" by (simp add: routed1_def r req)
  from post_request1_ok [OF I(2) idx I(7) [OF this], of E a n] obtain loop
    where p: "post_request1 E req (f_loop st) = Inr loop" and
      l: "l1_router loop = l1_router (f_loop st)"
        "l1_ring loop = fst (sq_push (e1_ring E) (send_entry (e1_fd E) idx) (l1_ring (f_loop st)))"
        "slots_ok (l1_pool loop)" "stamped (l1_pool loop) idx"
        "\<forall>j. j \<noteq> idx \<longrightarrow> stamped (l1_pool loop) j = stamped (l1_pool (f_loop st)) j"
        "\<forall>j. shard_stamped (l1_pool loop) j = shard_stamped (l1_pool (f_loop st)) j"
    unfolding req by blast
  let ?st' = "st\<lparr>f_channel := ?c, f_cq := f_cq st, f_loop := loop\<rparr>"
  have "requests1 ?st' = hands1 (f_threads st) @ xs" by (simp add: requests1_def)
  with r req l I(9) have "first_inv E U S ?st'"
    by (intro posted_inv [OF assms l(2,1) _ _ l(3,4) _ _ refl]) auto
  then show ?thesis by (simp add: sync_recv_def Cons p)
qed

lemma cqe_inv:
  assumes "first_inv E U S st"
  shows "\<exists>st'. first_step E FLoopCqe st = Inr st' \<and> first_inv E U S st'"
proof (cases "f_cq st")
  case Nil
  with assms show ?thesis by simp
next
  case (Cons c cs)
  note I = first_invD [OF assms]
  let ?idx = "cqe_idx c"
  have dec: "decode_token1 (cqe_user_data c) = (cqe_op c, ?idx)" by (simp add: first_eqs cqe_op_def cqe_idx_def)
  consider (more) "cqe_op c = Send" "e1_more E (cqe_flags c)"
    | (sent) "cqe_op c = Send" "\<not> e1_more E (cqe_flags c)"
    | (received) "cqe_op c = Recv" "\<not> e1_more E (cqe_flags c)"
    using I(4,5) [of c] Cons by (cases "cqe_op c") auto
  then show ?thesis
  proof cases
    case more
    let ?st' = "st\<lparr>f_cq := cs, f_loop := f_loop st\<rparr>"
    have f: "finals1 E (f_cq st) = finals1 E cs" using more Cons by (simp add: finals1_def)
    then have "held1 E U S ?st' = held1 E U S st" "sending1 E U S ?st' = sending1 E U S st"
      "submitted1 U S ?st' = submitted1 U S st" "routed1 ?st' = routed1 st" "served_ok ?st' = served_ok st"
      by (simp_all add: held1_def sending1_def submitted1_def routed1_def requests1_def served_ok_def)
    then have "first_inv E U S ?st'"
      using I Cons by (intro first_invI [OF assms]) simp_all
    then show ?thesis using Cons more dec by (simp add: handle_cqe1_def handle_send1_def)
  next
    case sent
    have f: "finals1 E (f_cq st) = c # finals1 E cs" using sent Cons by (simp add: finals1_def)
    then obtain M where "held1 E U S st = add_mset ?idx M" by (simp add: held1_def)
    with held_member [OF assms] have idx: "unat ?idx < POOL_SIZE" by blast
    have "?idx \<in> sending1 E U S st" using f sent by (auto simp: sending1_def)
    from handle_send1_ok [where E = E, OF I(2) idx I(6) [OF this] sent(2)] obtain loop
      where p: "handle_cqe1 E c (f_loop st) = Inr loop" and
        l: "l1_router loop = l1_router (f_loop st)"
          "l1_ring loop = fst (sq_push (e1_ring E) (recv_entry (e1_fd E) ?idx) (l1_ring (f_loop st)))"
          "slots_ok (l1_pool loop)" "stamped (l1_pool loop) ?idx" "shard_stamped (l1_pool loop) ?idx"
          "\<forall>j. j \<noteq> ?idx \<longrightarrow> stamped (l1_pool loop) j = stamped (l1_pool (f_loop st)) j"
          "\<forall>j. j \<noteq> ?idx \<longrightarrow> shard_stamped (l1_pool loop) j = shard_stamped (l1_pool (f_loop st)) j"
      by (auto simp: handle_cqe1_def dec sent)
    let ?st' = "st\<lparr>f_channel := f_channel st, f_cq := cs, f_loop := loop\<rparr>"
    have r: "requests1 ?st' = requests1 st" by (simp add: requests1_def)
    have "shard_stamped (l1_pool loop) j" if "shard_stamped (l1_pool (f_loop st)) j" for j
      using that l(5,7) by (cases "j = ?idx") auto
    then have "first_inv E U S ?st'"
      using l f Cons I(9) by (intro posted_inv [OF assms l(2,1) _ _ l(3,4) _ _ refl]) (auto simp: r)
    then show ?thesis using Cons p by simp
  next
    case received
    have f: "finals1 E (f_cq st) = c # finals1 E cs" using received Cons by (simp add: finals1_def)
    define X where "X = mset (map sqe_msghdr (submitted1 U S st)) + mset (map cqe_idx (finals1 E cs))
      + mset (map sqe_buf (requests1 st))"
    have h: "held1 E U S st = add_mset ?idx (X + mset (waiting1 (l1_router (f_loop st))))"
      by (simp add: held1_def f X_def add_ac)
    have "size (held1 E U S st) \<le> channel_bound1" by (rule pool_bounds [OF I(1)])
    then have room: "length (waiting1 (l1_router (f_loop st))) < channel_bound1"
      unfolding h by simp
    from handle_recv1_ok [OF I(2,8) room, of E ?idx "nat (max 0 (cqe_result c))"] obtain loop
      where p: "handle_cqe1 E c (f_loop st) = Inr loop" and
        l: "l1_ring loop = l1_ring (f_loop st)" "router_ok1 (l1_router loop)"
          "waiting1 (l1_router loop) = waiting1 (l1_router (f_loop st)) @ [?idx]"
          "slots_ok (l1_pool loop)" "shard_stamped (l1_pool loop) ?idx"
          "\<forall>j. j \<noteq> ?idx \<longrightarrow> stamped (l1_pool loop) j = stamped (l1_pool (f_loop st)) j"
          "\<forall>j. j \<noteq> ?idx \<longrightarrow> shard_stamped (l1_pool loop) j = shard_stamped (l1_pool (f_loop st)) j"
      by (auto simp: handle_cqe1_def dec received)
    let ?st' = "st\<lparr>f_cq := cs, f_loop := loop\<rparr>"
    have s: "submitted1 U S ?st' = submitted1 U S st" "requests1 ?st' = requests1 st"
      by (simp_all add: submitted1_def requests1_def l)
    have h': "held1 E U S ?st' = held1 E U S st"
      unfolding h by (simp add: held1_def s X_def l(3) add_ac)
    have n: "?idx \<notin># X" using held_member(2) [OF assms h] by simp
    have "i \<in> sending1 E U S st \<and> i \<noteq> ?idx" if "i \<in> sending1 E U S ?st'" for i
    proof -
      have "i \<in># X" using that by (auto simp: sending1_def s X_def)
      moreover have "i \<in> sending1 E U S st" using that f by (auto simp: sending1_def s)
      ultimately show ?thesis using n by auto
    qed
    moreover have "shard_stamped (l1_pool loop) i" if "i \<in> routed1 ?st'" for i
    proof (cases "i = ?idx")
      case False
      with that have "i \<in> routed1 st" by (auto simp: routed1_def s l(3))
      with I(7) l(7) False show ?thesis by blast
    qed (simp add: l(5))
    moreover have "served_ok ?st'" using I(10) by (simp add: served_ok_def s)
    ultimately have "first_inv E U S ?st'"
      using I Cons l h' s by (intro first_invI [OF assms]) auto
    then show ?thesis using Cons p by simp
  qed
qed

lemma shard_recv_inv:
  assumes "first_inv E U S st"
  shows "\<exists>st'. first_step E (FShardRecv i) st = Inr st' \<and> first_inv E U S st'"
proof -
  note I = first_invD [OF assms]
  let ?ths = "f_threads st" and ?r = "l1_router (f_loop st)"
  from I(8) obtain q where q: "senders1 ?r = q # replicate 3 (sync_channel channel_bound1)" "lane_ok q"
    unfolding router_ok1_def by blast
  have n: "length ?ths = 4" using I(10) by (simp add: served_ok_def NUM_SHARDS_def)
  have keep: ?thesis if "first_step E (FShardRecv i) st = Inr st" using that assms by simp
  show ?thesis
  proof (cases "i < 4 \<and> th_hand (?ths ! i) = None")
    case False
    then show ?thesis by (intro keep) (auto simp: n q)
  next
    case idle: True
    show ?thesis
    proof (cases "i = 0")
      case False
      with idle have "senders1 ?r ! i = sync_channel channel_bound1"
        by (auto simp: q nth_Cons split: nat.split)
      then have "run_recv1 (?ths ! i) (senders1 ?r ! i) = Inl Blocked"
        by (simp add: run_recv1_def sync_recv_def sync_channel_def)
      then show ?thesis by (intro keep) simp
    next
      case i: True
      show ?thesis
      proof (cases "ch_queue q")
        case Nil
        then have "run_recv1 (?ths ! i) (senders1 ?r ! i) = Inl Blocked"
          using q(2) by (simp add: i q(1) run_recv1_def sync_recv_def lane_ok_def)
        then show ?thesis by (intro keep) simp
      next
        case (Cons p ps)
        let ?th = "(?ths ! 0)\<lparr>th_hand := handle_packet1 (th_shard (?ths ! 0)) p\<rparr>"
        let ?q = "q\<lparr>ch_queue := ps\<rparr>"
        let ?r' = "?r\<lparr>senders1 := ?q # replicate 3 (sync_channel channel_bound1)\<rparr>"
        let ?st' = "st\<lparr>f_threads := ?ths[0 := ?th], f_loop := (f_loop st)\<lparr>l1_router := ?r'\<rparr>\<rparr>"
        have step: "first_step E (FShardRecv i) st = Inr ?st'"
          using idle by (simp add: i n q(1) run_recv1_def sync_recv_def Cons)
        have hand: "hands1 [?th] = (case lookup1 (th_shard (?ths ! 0)) (src1 p) of
            None \<Rightarrow> [] | Some d \<Rightarrow> [(d, len1 p, buf_idx1 p)])"
          "hands1 [?ths ! 0] = []"
          using idle i by (simp_all add: hands1_def handle_packet1_lookup split: option.split)
        have m: "mset (hands1 (?ths[0 := ?th])) = mset (hands1 ?ths) + mset (hands1 [?th])"
          using hands1_update [of 0 ?ths ?th] hand(2) n by simp
        have bufs: "mset (map sqe_buf (hands1 [?th])) \<subseteq># {#buf_idx1 p#}"
          unfolding hand(1) by (simp split: option.split)
        have req: "mset (map sqe_buf (requests1 ?st')) = mset (map sqe_buf (requests1 st)) + mset (map sqe_buf (hands1 [?th]))"
          by (simp add: requests1_def m)
        have w: "waiting1 ?r = buf_idx1 p # map buf_idx1 ps" "waiting1 ?r' = map buf_idx1 ps"
          by (simp_all add: waiting1_eq [OF q(1)] waiting1_eq [where r = ?r'] Cons)
        have s: "submitted1 U S ?st' = submitted1 U S st" "sending1 E U S ?st' = sending1 E U S st"
          by (simp_all add: submitted1_def sending1_def)
        define X where "X = mset (map sqe_msghdr (submitted1 U S st)) + mset (map cqe_idx (finals1 E (f_cq st)))
          + mset (map buf_idx1 ps) + mset (map sqe_buf (requests1 st))"
        have "held1 E U S ?st' = X + mset (map sqe_buf (hands1 [?th]))"
          unfolding held1_def req X_def by (simp add: s w add_ac)
        moreover have "held1 E U S st = X + {#buf_idx1 p#}"
          by (simp add: held1_def w X_def)
        ultimately have le: "held1 E U S ?st' \<subseteq># held1 E U S st"
          using bufs by (simp only: subset_mset.add_left_mono)
        have set_req: "set (requests1 ?st') \<subseteq> set (requests1 st) \<union> set (hands1 [?th])"
          using arg_cong [OF m, of set_mset] by (auto simp: requests1_def)
        have hb: "sqe_buf x = buf_idx1 p" if "x \<in> set (hands1 [?th])" for x
          using that unfolding hand(1) by (auto split: option.splits)
        have "routed1 ?st' \<subseteq> routed1 st"
        proof
          fix j assume "j \<in> routed1 ?st'"
          then consider "j \<in> set (map buf_idx1 ps)" | x where "x \<in> set (requests1 ?st')" "j = sqe_buf x"
            by (auto simp: routed1_def w)
          then show "j \<in> routed1 st"
            using set_req hb by cases (auto simp: routed1_def w)
        qed
        moreover have "router_ok1 ?r'" using q(2) by (simp add: router_ok1_def)
        moreover have "served_ok ?st'"
          unfolding served_ok_def
        proof (intro conjI allI impI ballI)
          show "length (f_threads ?st') = NUM_SHARDS" using I(10) by (simp add: served_ok_def)
          fix s assume f: "fixed_session = Inr s"
          with I(10) have l: "lookup1 (th_shard (?ths ! 0)) = connect s Map.empty"
            and old: "\<And>req. req \<in> set (requests1 st) \<Longrightarrow> fst req \<in> {host_addr s, peer_addr s}"
            by (auto simp: served_ok_def)
          from l n show "lookup1 (th_shard (f_threads ?st' ! 0)) = connect s Map.empty" by simp
          fix x assume "x \<in> set (requests1 ?st')"
          with set_req consider "x \<in> set (requests1 st)" | "x \<in> set (hands1 [?th])" by blast
          then show "fst x \<in> {host_addr s, peer_addr s}"
          proof cases
            case 2
            then show ?thesis
              unfolding hand(1) by (auto simp: l connect_def split: option.splits if_splits)
          qed (rule old)
        qed
        ultimately have "first_inv E U S ?st'"
          using I le s by (intro first_invI [OF assms]) (auto simp: subset_iff)
        then show ?thesis using step by blast
      qed
    qed
  qed
qed

lemma shard_send_inv:
  assumes "first_inv E U S st"
  shows "\<exists>st'. first_step E (FShardSend i) st = Inr st' \<and> first_inv E U S st'"
proof (cases "i < length (f_threads st)")
  case False
  with assms show ?thesis by simp
next
  case i: True
  note I = first_invD [OF assms]
  let ?th = "f_threads st ! i"
  show ?thesis
  proof (cases "th_hand ?th")
    case None
    then have "(f_threads st)[i := ?th] = f_threads st" by simp
    with None i assms show ?thesis by (simp add: run_send1_def)
  next
    case (Some x)
    let ?c = "(f_channel st)\<lparr>ch_queue := ch_queue (f_channel st) @ [x]\<rparr>"
    let ?th' = "?th\<lparr>th_hand := None\<rparr>"
    let ?st' = "st\<lparr>f_threads := (f_threads st)[i := ?th'], f_channel := ?c\<rparr>"
    have h: "hands1 [?th] = [x]" "hands1 [?th'] = []" by (simp_all add: hands1_def Some)
    have m: "mset (hands1 (f_threads st)) = add_mset x (mset (hands1 ((f_threads st)[i := ?th'])))"
      using hands1_update [OF i, of ?th'] by (simp add: h)
    then have req: "mset (requests1 ?st') = mset (requests1 st)" by (simp add: requests1_def)
    have "size (held1 E U S st) \<le> channel_bound1" by (rule pool_bounds [OF I(1)])
    moreover have "size (held1 E U S st) \<ge> size (mset (requests1 st))" by (simp add: held1_def)
    moreover have "size (mset (requests1 st)) \<ge> Suc (length (ch_queue (f_channel st)))"
      using arg_cong [OF m, of size] by (simp add: requests1_def)
    ultimately have "length (ch_queue (f_channel st)) < channel_bound1" by linarith
    then have step: "first_step E (FShardSend i) st = Inr ?st'"
      using i Some by (simp add: run_send1_def sync_send_room [OF I(9)])
    have "mset (map sqe_buf (requests1 ?st')) = mset (map sqe_buf (requests1 st))"
      using req by (simp only: mset_map)
    moreover have set_req: "set (requests1 ?st') = set (requests1 st)" using req by (metis set_mset_mset)
    moreover have s: "submitted1 U S ?st' = submitted1 U S st" "sending1 E U S ?st' = sending1 E U S st"
      by (simp_all add: submitted1_def sending1_def)
    moreover have "th_shard ((f_threads st)[i := ?th'] ! 0) = th_shard (f_threads st ! 0)"
      using i by (cases "i = 0") simp_all
    ultimately have "held1 E U S ?st' = held1 E U S st" "routed1 ?st' = routed1 st" "served_ok ?st'"
      using I(10) by (simp_all add: held1_def routed1_def served_ok_def del: mset_map)
    then have "first_inv E U S ?st'"
      using I s by (intro first_invI [OF assms]) auto
    then show ?thesis using step by blast
  qed
qed

lemma complete_inv:
  assumes "first_inv E U S st"
  shows "\<exists>st'. first_step E (FKernelComplete n a ds res flags) st = Inr st' \<and> first_inv E U S st'"
proof -
  note I = first_invD [OF assms]
  let ?fl = "f_inflight st"
  show ?thesis
  proof (cases "n < length ?fl \<and> \<not> (sqe_opcode (?fl ! n) = RecvMsg \<and> e1_more E flags)")
    case False
    with assms show ?thesis by (auto simp: kernel_complete1_def Let_def)
  next
    case True
    define e where "e = ?fl ! n"
    define more where "more = e1_more E flags"
    from True have n: "n < length ?fl" and no: "\<not> (sqe_opcode e = RecvMsg \<and> more)" by (auto simp: e_def more_def)
    define rest where "rest = take n ?fl @ drop (Suc n) ?fl"
    have fl: "?fl = take n ?fl @ e # drop (Suc n) ?fl" unfolding e_def by (rule id_take_nth_drop [OF n])
    have e_in: "e \<in> set (submitted1 U S st)" using n by (simp add: submitted1_def e_def)
    define c where "c = \<lparr>cqe_user_data = user_data e, cqe_result = res, cqe_flags = flags\<rparr>"
    have c: "cqe_idx c = sqe_msghdr e" "cqe_op c = (case sqe_opcode e of RecvMsg \<Rightarrow> Recv | SendMsgZc \<Rightarrow> Send)"
      using decode_entry [OF I(3) [OF e_in]] by (simp_all add: c_def cqe_idx_def cqe_op_def)
    have flags: "cqe_flags c = flags" by (simp add: c_def)
    define loop where "loop = (if sqe_opcode e = RecvMsg \<and> 0 \<le> res
      then (f_loop st)\<lparr>l1_pool := kernel_receive (e1_libc E) (e1_le E) (sqe_msghdr e) a ds (l1_pool (f_loop st))\<rparr>
      else f_loop st)"
    have loop: "l1_ring loop = l1_ring (f_loop st)" "l1_router loop = l1_router (f_loop st)"
      "slots_ok (l1_pool loop)" "timestamp (l1_pool loop) = timestamp (l1_pool (f_loop st))"
      using kernel_receive_slots [OF I(2)] I(2) by (simp_all add: loop_def)
    let ?st' = "st\<lparr>f_loop := loop, f_inflight := (if more then ?fl else rest), f_cq := f_cq st @ [c]\<rparr>"
    have step: "first_step E (FKernelComplete n a ds res flags) st = Inr ?st'"
      using n no by (auto simp: kernel_complete1_def e_def more_def rest_def c_def loop_def Let_def)
    have fin: "finals1 E (f_cq st @ [c]) = finals1 E (f_cq st) @ (if more then [] else [c])"
      by (simp add: finals1_def more_def c_def)
    have "mset (map sqe_msghdr ?fl) = add_mset (sqe_msghdr e) (mset (map sqe_msghdr rest))"
      by (subst fl) (simp add: rest_def)
    then have h: "held1 E U S ?st' = held1 E U S st"
      by (simp add: held1_def submitted1_def loop fin c(1))
    have sub: "set (submitted1 U S ?st') \<subseteq> set (submitted1 U S st)"
      by (auto simp: submitted1_def loop rest_def dest: in_set_takeD in_set_dropD)
    have "cqe_op c = Send \<Longrightarrow> cqe_idx c \<in> sending1 E U S st"
      using e_in c by (auto simp: sending1_def split: opcode.splits)
    then have "sending1 E U S ?st' \<subseteq> sending1 E U S st"
      using sub fin by (auto simp: sending1_def split: if_splits)
    moreover have "cqe_op c \<noteq> SendNotif \<and> (cqe_op c = Recv \<longrightarrow> \<not> e1_more E (cqe_flags c))"
      using no flags by (cases "sqe_opcode e") (auto simp: c more_def)
    moreover have "stamped (l1_pool loop) i = stamped (l1_pool (f_loop st)) i"
      "shard_stamped (l1_pool loop) i = shard_stamped (l1_pool (f_loop st)) i" for i
      by (auto simp: loop intro!: stamped_other stamps_other)
    moreover have "routed1 ?st' = routed1 st" "served_ok ?st' = served_ok st"
      by (simp_all add: routed1_def served_ok_def loop)
    ultimately have "first_inv E U S ?st'"
      using I loop sub h by (intro first_invI [OF assms]) auto
    then show ?thesis using step by blast
  qed
qed

lemma step_inv:
  assumes "first_inv E U S st"
  shows "\<exists>st'. first_step E ev st = Inr st' \<and> first_inv E U S st'"
  using request_inv [OF assms] submit_inv [OF assms] cqe_inv [OF assms] shard_recv_inv [OF assms]
    shard_send_inv [OF assms] kernel_take_inv [OF assms] complete_inv [OF assms]
  by (cases ev) (simp_all del: first_step.simps)

lemma run_inv:
  assumes "first_inv E U S st"
  shows "\<exists>st'. first_run E evs st = Inr st' \<and> first_inv E U S st'"
  using assms
proof (induction evs arbitrary: st)
  case (Cons ev evs)
  from step_inv [OF Cons.prems, of ev] obtain st1 where "first_step E ev st = Inr st1" "first_inv E U S st1" by blast
  with Cons.IH [of st1] show ?case by simp
qed simp

end

section \<open>The start\<close>

lemma fixed_session_value:
  "fixed_session = Inr \<lparr>host_addr = V4 0x7F000001 9001, peer_addr = V4 0x7F000001 9002\<rparr>"
proof -
  have "show_sockaddr (V4 0x7F000001 9001) = ''127.0.0.1:9001''"
    "show_sockaddr (V4 0x7F000001 9002) = ''127.0.0.1:9002''"
    by (simp_all add: show_ipv4_def octets4_def be32_def show_number_def digits.simps [of 10]
        digit_char_def char_of_def bit_Suc_0_iff)
  then show ?thesis
    using parse_show_sockaddr [of "V4 0x7F000001 9001"] parse_show_sockaddr [of "V4 0x7F000001 9002"]
    by (simp add: fixed_session_def)
qed

definition can_start1 ::
  "('st, 'k) Env1 \<Rightarrow> ('k \<Rightarrow> Entry list) \<Rightarrow> ('k \<Rightarrow> Entry list) \<Rightarrow> ('k \<Rightarrow> nat) \<Rightarrow> 'k \<Rightarrow> bool"
where
  "can_start1 E U S slots k \<longleftrightarrow>
     (\<forall>iovs k. snd (register_buffers (e1_ring E) iovs k)) \<and> U k = [] \<and> S k = [] \<and> POOL_SIZE1 \<le> slots k"

context first_system
begin

lemma start_inv:
  assumes "can_start1 E U S slots k"
  shows "\<exists>st. first_start E k = Inr st \<and> first_inv E U S st \<and> held1 E U S st = mset_set all_buffers"
proof -
  from assms have reg: "snd (register_buffers (e1_ring E) iovs k)" and room: "POOL_SIZE \<le> slots k"
    for iovs by (simp_all add: can_start1_def first_eqs)
  from ring.start_ok [OF reg room, of "e1_libc E" "e1_le E" "e1_fd E"] assms
  obtain p0 k1 pool k2 where r: "register_buffer_kernel (e1_ring E) BufferPool_default k = Inr (p0, k1)"
    and s: "seed (e1_libc E) (e1_ring E) (e1_le E) (e1_fd E) POOL_SIZE 0 (p0, k1) = Inr ((pool, k2), POOL_SIZE)"
    and pool: "pool_ok pool" "timestamp pool = Map.empty"
    and ring2: "S k2 = []" "U k2 = map (recv_entry (e1_fd E)) seed_list"
    and live: "\<forall>i. live_slots pool i = (if unat i < POOL_SIZE
          then Some (MsgHdrSlot_new (e1_libc E) (e1_le E) (unat i * BUFFER_SIZE) None) else None)"
    by (auto simp: can_start1_def)
  define k3 where "k3 = sq_sync (e1_ring E) k2"
  have k3: "U k3 = []" "S k3 = map (recv_entry (e1_fd E)) seed_list"
    by (simp_all add: k3_def ring.sync_unsynced ring.sync_synced ring2)
  let ?lane = "sync_channel channel_bound1 :: Packet1 sync_channel"
  define loop where "loop = \<lparr>l1_pool = pool, l1_ring = k3,
    l1_router = ShardRouter_new1 (replicate NUM_SHARDS ?lane), l1_calls = 0, l1_log = []\<rparr>"
  have start: "loop_start1 E BufferPool_new1 k (ShardRouter_new1 (replicate NUM_SHARDS ?lane)) = Inr loop"
    by (simp add: loop_start1_def first_eqs r s loop_def k3_def)
  obtain sess where f: "fixed_session = Inr sess" using fixed_session_value by blast
  define ths where "ths = map (\<lambda>sh. \<lparr>th_shard = if id1 sh = 0 then add_session1 sess sh else sh, th_hand = None\<rparr>)
    (map Shard_new1 [0..<NUM_SHARDS])"
  have ths: "length ths = NUM_SHARDS" "th_shard (ths ! 0) = add_session1 sess (Shard_new1 0)" "hands1 ths = []"
    by (simp_all add: ths_def NUM_SHARDS_def hands1_def Shard_new1_def numeral_eq_Suc)
  let ?st = "\<lparr>f_loop = loop, f_threads = ths, f_channel = sync_channel channel_bound1, f_inflight = [], f_cq = []\<rparr>"
  have st: "first_start E k = Inr ?st"
    unfolding first_start_def Let_def f and_then_simps start ths_def ..
  have req: "requests1 ?st = []" by (simp add: requests1_def ths)
  have w: "senders1 (l1_router loop) = ?lane # replicate 3 ?lane"
    by (simp add: loop_def ShardRouter_new1_def NUM_SHARDS_def numeral_eq_Suc)
  have h: "held1 E U S ?st = mset_set all_buffers"
  proof -
    have "map sqe_msghdr (map (recv_entry (e1_fd E)) seed_list) = seed_list" by (simp add: comp_def)
    then have "mset (map sqe_msghdr (S k3)) = mset_set all_buffers" by (simp only: k3 seed_list_buffers)
    moreover have "l1_ring loop = k3" "waiting1 (l1_router loop) = []"
      using waiting1_eq [OF w] by (simp_all add: loop_def)
    ultimately show ?thesis by (simp add: held1_def submitted1_def req k3(1) finals1_def del: mset_map)
  qed
  have "slots_ok pool"
    unfolding slots_ok_def
  proof (intro conjI ballI pool(1))
    fix s assume "s \<in> ran (live_slots pool)"
    then obtain i :: u16 where "unat i < POOL_SIZE"
      "s = MsgHdrSlot_new (e1_libc E) (e1_le E) (unat i * BUFFER_SIZE) None"
      using live by (auto simp: ran_def split: if_splits)
    then show "iov_base s + iov_len s \<le> length (memory pool)"
      using mult_le_mono1 [of "Suc (unat i)" POOL_SIZE BUFFER_SIZE] pool(1) by (simp add: pool_ok_def)
  qed
  moreover have "router_ok1 (l1_router loop)" using w by (auto simp: router_ok1_def)
  moreover have "served_ok ?st"
    using ths by (auto simp: served_ok_def f req lookup1_add)
  moreover have "entry_ok e" if "e \<in> set (submitted1 U S ?st)" for e
    using that by (auto simp: submitted1_def loop_def k3)
  moreover have "stamped pool i \<and> shard_stamped pool i" for i
    by (simp add: stamped_def shard_stamped_def pool(2))
  ultimately have "first_inv E U S ?st"
    unfolding first_inv_def using h by (simp add: loop_def)
  with st h show ?thesis by blast
qed

end

text \<open>The environment of a Linux host with the list ring.\<close>

definition example_env1 :: "(storage, list_ring) Env1" where
  "example_env1 =
     \<lparr>e1_libc = linux, e1_le = True, e1_ring = list_ring_ops, e1_more = (\<lambda>f. bit f 1), e1_fd = 7,
      e1_clock = (\<lambda>n. n)\<rparr>"

interpretation list_first: first_system example_env1 fst "\<lambda>k. fst (snd k)" "\<lambda>k. snd (snd k)"
  unfolding first_system_def first_system_axioms_def example_env1_def Env1.simps
  using list_ring_uring by (auto simp: list_ring_ops_def)

lemmas list_first_system = list_first.first_system_axioms

section \<open>Batches\<close>

lemma post_request1_posts:
  assumes "pool_ok (l1_pool st)" and "unat idx < POOL_SIZE"
  shows "\<exists>st'. post_request1 E (a, n, idx) st = Inr st' \<and> pool_ok (l1_pool st')
    \<and> l1_ring st' = fst (sq_push (e1_ring E) (send_entry (e1_fd E) idx) (l1_ring st))"
  using assms(1)
  by (simp add: post_request1_def now1_def first_eqs post_send_ok [OF assms] pool_ok_def)

context uring
begin

lemma batch_posts:
  assumes "K = e1_ring E" and "pool_ok (l1_pool st)" and "\<forall>r\<in>set (ch_queue c). unat (sqe_buf r) < POOL_SIZE"
    and "n \<le> slots (l1_ring st)"
  shows "\<exists>st'. post_batch1 E n st c m
      = Inr (st', c\<lparr>ch_queue := drop n (ch_queue c)\<rparr>, m + min n (length (ch_queue c)))
    \<and> unsynced (l1_ring st')
      = unsynced (l1_ring st) @ map (\<lambda>r. send_entry (e1_fd E) (sqe_buf r)) (take n (ch_queue c))"
  using assms(2-4)
proof (induction n arbitrary: st c m)
  case (Suc n)
  show ?case
  proof (cases "ch_queue c")
    case Nil
    then have "c\<lparr>ch_queue := []\<rparr> = c" by (cases c) simp
    with Nil show ?thesis by (simp add: sync_recv_def)
  next
    case (Cons r rs)
    obtain a k idx where r: "r = (a, k, idx)" by (cases r)
    from post_request1_posts [OF Suc.prems(1), of idx E a k] Suc.prems(2) obtain st1
      where p: "post_request1 E r st = Inr st1" "pool_ok (l1_pool st1)"
        "l1_ring st1 = fst (sq_push K (send_entry (e1_fd E) idx) (l1_ring st))"
      by (auto simp: Cons r assms(1))
    have "n \<le> slots (l1_ring st1)" using Suc.prems(3) by (simp add: p(3) push_slots)
    moreover have "unsynced (l1_ring st1) = unsynced (l1_ring st) @ [send_entry (e1_fd E) idx]"
      using Suc.prems(3) by (simp add: p(3) push_unsynced)
    ultimately show ?thesis
      using Suc.IH [of st1 "c\<lparr>ch_queue := rs\<rparr>" "m + 1"] Suc.prems(2) p(1,2)
      by (auto simp: Cons sync_recv_def r)
  qed
qed simp

end

section \<open>Properties of the first implementation\<close>


lemma example_can_start1: "can_start1 example_env1 fst (\<lambda>k. fst (snd k)) (\<lambda>k. snd (snd k)) ([], [], 2048)"
  by (simp add: can_start1_def example_env1_def list_ring_ops_def POOL_SIZE1_def)


text \<open>The first implementation serves one pair of addresses: in any reachable state every
  send requested goes to port 9001 or 9002 of the loopback address, and no packet is ever handed
  to shards 1 to 3, whatever the source, since the hash of the source is not used.\<close>

lemma first_serves_two:
  assumes "first_system E U S slots" and "can_start1 E U S slots k"
    and "first_start E k = Inr st0" and "first_run E evs st0 = Inr st"
  shows "fst ` set (requests1 st) \<subseteq> {V4 0x7F000001 9001, V4 0x7F000001 9002}
    \<and> map ch_queue (tl (senders1 (l1_router (f_loop st)))) = [[], [], []]"
proof -
  from first_system.start_inv [OF assms(1,2)] assms(3) have i: "first_inv E U S st0" by auto
  from first_system.run_inv [OF assms(1) i, of evs] assms(4) have "first_inv E U S st" by auto
  note I = first_invD [OF this]
  from I(8) have "map ch_queue (tl (senders1 (l1_router (f_loop st)))) = [[], [], []]"
    by (auto simp: router_ok1_def numeral_eq_Suc)
  with I(10) show ?thesis by (auto simp: served_ok_def fixed_session_value)
qed

text \<open>Property C32: the session table of the first implementation, addresses to sessions, and the
  library's, addresses to ids and ids to sessions, are equivalent: after registering the same
  sessions, whichever overwrite each other, both answer every packet with the same request.\<close>

theorem session_tables_equivalent:
  fixes ss :: "('sid \<times> Session) list"
  assumes "distinct (map fst ss)"
  shows "handle_packet1 (add_sessions1 (map snd ss) (Shard_new1 i)) p
    = handle_packet (add_sessions ss (Shard_new j)) \<lparr>buf_idx = buf_idx1 p, len = len1 p, src = src1 p\<rparr>"
proof -
  have "dom (session_table (Shard_new j :: 'sid Shard)) = {}" by (simp add: Shard_new_def)
  then have "lookup1 (add_sessions1 (map snd ss) (Shard_new1 i)) = lookup_peer (add_sessions ss (Shard_new j))"
    using lookups_agree [OF assms, of "Shard_new j" "Shard_new1 i"] by simp
  then show ?thesis by (simp add: handle_packet1_lookup handle_packet_lookup)
qed

theorem session_tables_equivalent_witness:
  "handle_packet1 (add_sessions1 [example_session, \<lparr>host_addr = example_client, peer_addr = V4 1 2\<rparr>] (Shard_new1 0))
      \<lparr>data1 = 3, len1 = 9, src1 = example_client, buf_idx1 = 3\<rparr> = Some (V4 1 2, 9, 3)"
proof -
  from session_tables_equivalent [of "[(0 :: nat, example_session), (1, \<lparr>host_addr = example_client, peer_addr = V4 1 2\<rparr>)]"
      0 "\<lparr>data1 = 3, len1 = 9, src1 = example_client, buf_idx1 = 3\<rparr>" 0]
  show ?thesis
    by (simp add: handle_packet_lookup lookup_peer_def add_session_def Shard_new_def route_to_def)
qed

text \<open>An iteration of the first implementation posts the first 32 waiting requests, or
  all if there are fewer, in order, and leaves the others in the channel.\<close>

lemma batch_of_32:
  assumes "uring (e1_ring E) U S slots" and "pool_ok (l1_pool st)"
    and "\<forall>r\<in>set (ch_queue c). unat (sqe_buf r) < POOL_SIZE" and "32 \<le> slots (l1_ring st)"
  shows "\<exists>st'. post_batch1 E MAX_SQE_BATCH st c 0
      = Inr (st', c\<lparr>ch_queue := drop 32 (ch_queue c)\<rparr>, min 32 (length (ch_queue c)))
    \<and> U (l1_ring st') = U (l1_ring st) @ map (\<lambda>r. send_entry (e1_fd E) (sqe_buf r)) (take 32 (ch_queue c))"
  using uring.batch_posts [OF assms(1) refl assms(2-4), of 0] by (simp add: MAX_SQE_BATCH_def)

end
