(* ===== verification/Spec2Isabelle.thy ===== *)
theory Spec2Isabelle
  imports TurnIteration TurnStart TestClient PeerLink FirstSystem
begin

text \<open>
  A verification library for the p2p-networking workspace: a peer-to-peer chat over a reliable
  UDP layer, the rendezvous server that introduces the peers to each other, and a relay for peers
  that cannot reach each other directly.

  The programs. A peer (\<open>peer/src/main.rs\<close>), as host, has the rendezvous server
  (\<open>rendezvous_stun_server/src\<close>) create a lobby and is given a code; another peer joins with that
  code; the server sends each the other's address. Both then punch holes through their NATs and
  chat, over the reliable UDP layer (\<open>common/src\<close>). The relay (\<open>turn_server/src\<close>) forwards
  datagrams between the two ends of sessions that are registered over gRPC: one thread runs an
  \<open>io_uring\<close> loop that receives and sends, shard threads look the sessions up. An earlier version
  of the relay is kept as a program of its own (\<open>turn_server/src/bin/first_impl.rs\<close>).

  The theories, in the order they build on each other:

  \<^item> Prelude: machine integers, Rust's \<open>+\<close> with and without overflow checks (\<open>plus_oc\<close>), big-endian
    codecs, results that may be a panic (\<open>and_then\<close>). Stores and Queues: the interfaces of the
    \<open>dashmap\<close> crate, of the \<open>heapless\<close> queue and of \<open>tokio\<close>'s channels, as records of operations
    and locales of their documented laws, each with an instance. SockAddr, AddrText: socket
    addresses, their order, and their printing and parsing as the standard library does it, with
    the round trip.
  \<^item> ReliableUdp: packets, wire format, shared state and the three tasks of
    \<open>common/src/singleconnection.rs\<close> (\<open>recv\<close>, \<open>send\<close>, \<open>periodic_acks\<close>), one definition per task,
    turn and branch. ReliableReceiver and ReliableSender: what each task does for every input.
    ReliableLink: two endpoints and a network that loses, repeats and reorders. ReliableEvents:
    its steps as a function of labelled events, infinite runs, and fairness: timers that keep
    firing on a clock that does not stand still, acknowledgements that are not left lying, datagrams
    that get through again and again when sent again and again. FairRun: such a run, step by step.
    ReliableProgress: in fair runs everything arrives.
  \<^item> TurnShard, TurnRouter, TurnToken, TurnPool, TurnLoop: the parts of \<open>turn_server/src/lib.rs\<close>
    (sessions and shards; router, control messages and gRPC handler; completion tokens and
    addresses in C structures; the buffer pool and its ring operations; the ring loop).
    TurnRelay: router and shards against one connection table. TurnSystem: loop, shards and kernel
    interleaved, and who holds a buffer. TurnBytes: the memory of that system, its buffers and
    message headers, who touches them, and a datagram's whole way through. TurnIteration: the loop's iterations as the code has them
    are runs of that system. TurnStart: the sizes chosen in \<open>turn_server/src/main.rs\<close>.
    Deployment: the controller (\<open>controller/src/main.rs\<close>) and the payloads of the test client
    (\<open>turn_server/src/bin/test_client.rs\<close>) against that relay. TestClient: that client's threads,
    counters and display interleaved.
  \<^item> FirstPool, FirstRelay, FirstSystem: the first implementation, its functions marked by a 1, the
    pool shown equal to the library's, the whole under interleaving.
  \<^item> Rendezvous: the server's UDP task, manager task and keep-alive tasks. Peer: \<open>main\<close> in both
    modes, learning the other address, hole punching, and what the chat's receiver and sender make
    of their inputs. PeerChat: \<open>start_chat\<close> with all its tasks and its reader thread interleaved, and
    \<open>trim\<close> on UTF-8. PeerLink: two peers on the two endpoints of ReliableLink,
    in any run and in fair ones.

  Correspondence. A struct is a \<open>record\<close> with the code's fields, an enum a \<open>datatype\<close>; integers
  are words of their width where their end matters (sequence numbers, tokens, the idle counter),
  otherwise \<open>nat\<close>. A panic is the left side of a sum; a loop that might not end is an option
  (\<open>drain\<close>) and proved to return. Loops without exit are followed for as many turns as they are
  given inputs. Sockets, timers and channels appear as the events and values a task sees:
  \<open>recv_from\<close> yields a datagram and its source, a timer a tick, \<open>Instant::now\<close> a clock argument,
  \<open>Uuid::new_v4\<close> an argument. Threads are steps in any order (\<open>turn_step\<close>, \<open>first_step\<close>,
  \<open>server_step\<close>, \<open>chat_step\<close>, \<open>client_step\<close>, the network of ReliableLink). Crates outside the repository are parameters:
  \<open>dashmap\<close>, \<open>heapless\<close>, \<open>tokio\<close>'s bounded channels, \<open>libc\<close>'s structures, \<open>io_uring\<close>'s rings
  and \<open>uuid\<close>, each a record of operations whose documentation is a locale (\<open>dashmap\<close>, \<open>fifo\<close>,
  \<open>bounded_fifo\<close>, \<open>libc\<close>, \<open>uring\<close>, \<open>uuid\<close>) with an interpretation on a concrete instance.

  What is shown. The reliable layer delivers a prefix of what the other side sent, in order, and in
  every fair run all of it; the receiving task returns from every loop; but acknowledgements never clear what was sent, the
  stream needs a packet numbered 0 to start, and long payloads are cut. The sharded relay implements one
  connection table under any interleaving; its buffers are owned once and its loop does not
  panic; every header it gives to the kernel points at its own buffer, only a receive changes a
  buffer's bytes, and a registered endpoint's datagram comes out as a send to its peer; no request of a shard is refused; but a stranger's 1024 datagrams take all buffers for
  good, sends transmit whole buffers, and the sends before the first publication are lost. In the
  first implementation no thread can wait for another for ever, and its session table is equivalent
  to the library's. The rendezvous server implements a map from codes to hosts, and host and
  client find each other's address through it; but a short datagram repeats the join before it.
  Two peers punch their holes through the reliable layer in every fair run, and what the one prints is what the
  other typed, in order, whatever the order of the tasks and the faults of the network, and in fair
  runs all that was typed; but the end
  of the input makes the chat spin, and a line that cannot be read panics it. The
  test client counts every datagram once.

  Bounds. Nothing is bounded by fuel. \<open>manager_run\<close> makes as many steps as the mailbox is long,
  which is what awaiting the last message amounts to; the seeding counts the pool's 1024 buffers,
  a batch 32 requests, as in the code.

  Not modelled: logging and tracing, the parsing of command lines, the decoration of the terminal,
  socket binding, core affinity and the gRPC transport, which carry no state of the protocols; the
  code generated from \<open>common/proto/relay.proto\<close>; the division, in floating point, by which the
  test client makes rates of its counts; the
  benchmark, which computes percentiles in floating point over a log file, and the test, whose
  scenario is an instance of what is shown of \<open>run_n\<close>; and the unreachable hashing
  in \<open>first_impl.rs\<close>. Much of \<open>turn_server/src/lib.rs\<close> and of \<open>first_impl.rs\<close> beyond the lines
  mapped is commented-out code.
\<close>

end
